(* ===== verification/Ice_Prelude.thy ===== *)
theory Ice_Prelude
  imports Main "HOL-Library.Word" "HOL-Library.Signed_Division"
begin

text \<open>
  Shared vocabulary of the development: the machine integers of the kernel, the byte
  memory seen through the higher-half direct map, little-endian 64-bit loads and stores,
  the counting loop the sources write as \<open>for (i = a; i < n; i += step)\<close>, and the generic
  lemmas on words, address ranges and memory updates that the component theories use.
\<close>

unbundle bit_operations_syntax

section \<open>Machine integers and memory\<close>

type_synonym u8 = "8 word"
type_synonym u16 = "16 word"
type_synonym u32 = "32 word"
type_synonym u64 = "64 word"

text \<open>\<^verbatim>\<open>int\<close> is 32 bits wide and read with \<^const>\<open>sint\<close>; \<^verbatim>\<open>size_t\<close>,
  \<^verbatim>\<open>uintptr_t\<close> and every pointer are 64 bits wide.\<close>

type_synonym i32 = "32 word"
type_synonym memory = "u64 \<Rightarrow> u8"

text \<open>Collections: \<open>word_conv\<close> moves word arithmetic to \<^typ>\<open>nat\<close>, \<open>mem_simps\<close>
  holds read-over-write laws.\<close>

named_theorems word_conv
named_theorems mem_simps

text \<open>The bytes \<open>p, p + 1, \<dots>, p + n - 1\<close> of the address space.\<close>

definition span :: "u64 \<Rightarrow> nat \<Rightarrow> u64 set" where
  "span p n = {a. unat (a - p) < n}"

text \<open>Little-endian loads and stores of \<open>k\<close> bytes, and their 64-bit instances.\<close>

primrec load_le :: "memory \<Rightarrow> u64 \<Rightarrow> nat \<Rightarrow> u64" where
  "load_le m a 0 = 0"
| "load_le m a (Suc k) = ucast (m a) OR push_bit 8 (load_le m (a + 1) k)"

definition load64 :: "memory \<Rightarrow> u64 \<Rightarrow> u64" where
  "load64 m a = load_le m a 8"

definition store_le :: "memory \<Rightarrow> u64 \<Rightarrow> u64 \<Rightarrow> nat \<Rightarrow> memory" where
  "store_le m a v k = (\<lambda>x. if unat (x - a) < k then ucast (drop_bit (8 * unat (x - a)) v) else m x)"

definition store64 :: "memory \<Rightarrow> u64 \<Rightarrow> u64 \<Rightarrow> memory" where
  "store64 m a v = store_le m a v 8"

text \<open>The counting loop \<^verbatim>\<open>for (i = a; i < lim; i += step) body\<close> over \<^verbatim>\<open>size_t\<close>.
  The index wraps around, so the loop need not end: \<^const>\<open>None\<close> is a run that does not.\<close>

partial_function (option) for_step ::
  "u64 \<Rightarrow> u64 \<Rightarrow> u64 \<Rightarrow> (u64 \<Rightarrow> 's \<Rightarrow> 's) \<Rightarrow> 's \<Rightarrow> 's option" where
  "for_step i lim step body s =
     (if i < lim then for_step (i + step) lim step body (body i s) else Some s)"

section \<open>Words\<close>

lemma unat_plus_one [word_conv]:
  fixes i n :: "'a::len word"
  assumes "i < n"
  shows "unat (i + 1) = Suc (unat i)"
proof -
  have "unat n < 2 ^ LENGTH('a)" by (rule unsigned_less)
  moreover have "unat i < unat n" using assms by (simp add: word_less_nat_alt)
  ultimately have "unat i + 1 < 2 ^ LENGTH('a)" by linarith
  then show ?thesis
    by (simp add: unat_word_ariths)
qed

lemma unat_pred [word_conv]:
  fixes i j :: "'a::len word"
  assumes "i < j"
  shows "unat (j - 1) = unat j - 1"
  using assms by (intro unat_minus_one) auto

lemma unat_less64: "unat (w :: u64) < 2 ^ 64"
  using unsigned_less [of w, where 'a = nat] by simp

lemma unat_plus_nowrap [word_conv]:
  fixes a b :: u64
  assumes "unat a + unat b < 2 ^ 64"
  shows "unat (a + b) = unat a + unat b"
  using assms by (simp add: unat_word_ariths)

lemma unat_minus_nowrap [word_conv]:
  fixes a b :: "'a::len word"
  assumes "b \<le> a"
  shows "unat (a - b) = unat a - unat b"
  using assms by (rule unat_sub)

lemma unat_mult_nowrap:
  fixes a b :: u64
  assumes "unat a * unat b < 2 ^ 64"
  shows "unat (a * b) = unat a * unat b"
  using assms by (simp add: unat_word_ariths)

lemma unat_of_nat64: "n < 2 ^ 64 \<Longrightarrow> unat (of_nat n :: u64) = n"
  by (simp add: unat_of_nat)

lemma offset_eq_iff: "i < 2 ^ 64 \<Longrightarrow> j < 2 ^ 64 \<Longrightarrow> (p :: u64) + of_nat i = p + of_nat j \<longleftrightarrow> i = j"
  by (metis add_left_cancel unat_of_nat64)

lemma unat_ucast8 [simp]: "unat (ucast (w :: u8) :: u64) = unat w"
proof -
  have "unat w < 2 ^ 8" using unsigned_less [of w, where 'a = nat] by simp
  then show ?thesis by (simp add: unsigned_ucast_eq take_bit_nat_eq_self)
qed

lemma unat_ucast32 [simp]: "unat (ucast (w :: u32) :: u64) = unat w"
proof -
  have "unat w < 2 ^ 32" using unsigned_less [of w, where 'a = nat] by simp
  then have "unat w < 2 ^ 64" by (rule less_trans) simp
  then show ?thesis by (simp add: unsigned_ucast_eq take_bit_nat_eq_self)
qed

lemma sint_int32 [word_conv]:
  "- (2 ^ 31) \<le> x \<Longrightarrow> x < 2 ^ 31 \<Longrightarrow> sint (word_of_int x :: i32) = x"
  by (simp add: int_word_sint)

lemma word_offset_eq:
  fixes a p :: u64
  shows "a = p + of_nat (unat (a - p))"
  by simp

lemma and_not_mask_eq:
  fixes w :: "'a::len word"
  shows "w AND NOT (mask k) = push_bit k (drop_bit k w)"
  by (rule bit_word_eqI) (auto simp: bit_and_iff bit_not_iff bit_mask_iff bit_push_bit_iff bit_drop_bit_eq)

lemma unat_push_drop:
  fixes w :: u64
  shows "unat (push_bit k (drop_bit k w)) = unat w div 2 ^ k * 2 ^ k"
proof -
  have "unat w div 2 ^ k * 2 ^ k \<le> unat w"
    by (simp add: div_times_less_eq_dividend)
  then have "unat w div 2 ^ k * 2 ^ k < 2 ^ 64"
    using unat_less64 [of w] by (rule le_less_trans)
  moreover have "unat (push_bit k (drop_bit k w)) = take_bit 64 (push_bit k (drop_bit k (unat w)))"
    by (simp add: unsigned_push_bit_eq unat_drop_bit_eq)
  ultimately show ?thesis
    by (simp add: push_bit_eq_mult drop_bit_eq_div take_bit_eq_mod)
qed

section \<open>Address ranges\<close>

text \<open>Offset and start of the page of an address.\<close>

lemma page_parts:
  fixes x :: u64
  shows "unat (x AND 0xFFF) = unat x mod 4096" "unat (x AND NOT 0xFFF) = unat x div 4096 * 4096"
proof -
  have m: "(0xFFF :: u64) = mask 12" by (simp add: mask_eq_exp_minus_1)
  show "unat (x AND 0xFFF) = unat x mod 4096"
    unfolding m by (simp add: take_bit_eq_mod unat_mod flip: take_bit_eq_mask)
  show "unat (x AND NOT 0xFFF) = unat x div 4096 * 4096"
    unfolding m and_not_mask_eq unat_push_drop by simp
qed

lemma in_span [simp]: "a \<in> span p n \<longleftrightarrow> unat (a - p) < n"
  by (simp add: span_def)

lemma span_empty [simp]: "span p 0 = {}"
  by (auto simp: span_def)

lemma span_mono: "n \<le> k \<Longrightarrow> span p n \<subseteq> span p k"
  by auto

lemma span_shift:
  assumes "k + n \<le> l" and "l \<le> 2 ^ 64"
  shows "span (p + of_nat k) n \<subseteq> span p l"
proof
  fix a assume "a \<in> span (p + of_nat k) n"
  then have lt: "unat (a - (p + of_nat k)) < n" by simp
  have eq: "a - p = of_nat k + (a - (p + of_nat k))" by simp
  have "unat (a - p) = (unat (of_nat k :: u64) + unat (a - (p + of_nat k))) mod 2 ^ 64"
    by (subst eq) (simp only: unat_word_ariths, simp)
  also have "\<dots> \<le> unat (of_nat k :: u64) + unat (a - (p + of_nat k))"
    by (rule mod_less_eq_dividend)
  also have "unat (of_nat k :: u64) \<le> k"
    by (simp add: unat_of_nat)
  finally have "unat (a - p) \<le> k + unat (a - (p + of_nat k))" by simp
  then show "a \<in> span p l"
    using lt assms by simp
qed

lemma span_nat:
  assumes "unat p + n \<le> 2 ^ 64"
  shows "a \<in> span p n \<longleftrightarrow> unat p \<le> unat a \<and> unat a < unat p + n"
proof (cases "p \<le> a")
  case True
  then show ?thesis by (auto simp: unat_minus_nowrap word_le_nat_alt)
next
  case False
  then have lt: "unat a < unat p" by (simp add: word_le_nat_alt)
  have "unat (a - p) = 2 ^ 64 + unat a - unat p"
    using lt by (simp add: unat_sub_if_size word_size)
  then show ?thesis
    using assms lt by auto
qed

lemma span_disjoint_nat:
  assumes "unat p + n \<le> 2 ^ 64" and "unat q + k \<le> 2 ^ 64"
    and "unat p + n \<le> unat q \<or> unat q + k \<le> unat p"
  shows "span p n \<inter> span q k = {}"
proof -
  have "False" if "a \<in> span p n" and "a \<in> span q k" for a
    using that assms span_nat [OF assms(1), of a] span_nat [OF assms(2), of a] by linarith
  then show ?thesis by blast
qed

section \<open>Loads and stores\<close>

lemma bit_load_le:
  "bit (load_le m a k) n \<longleftrightarrow> n < 8 * k \<and> n < 64 \<and> bit (m (a + of_nat (n div 8))) (n mod 8)"
proof (induction k arbitrary: a n)
  case 0
  then show ?case by simp
next
  case (Suc k)
  show ?case
  proof (cases "n < 8")
    case True
    then show ?thesis
      by (auto simp: bit_or_iff bit_push_bit_iff bit_ucast_iff)
  next
    case False
    then obtain n' where n: "n = n' + 8" by (metis add.commute le_Suc_ex not_less)
    have byte: "\<not> bit (m a) n" using False by (auto dest: bit_imp_le_length)
    have "n div 8 = Suc (n' div 8)" by (simp add: n)
    then have addr: "a + 1 + of_nat (n' div 8) = a + of_nat (n div 8)"
      by simp
    have "bit (load_le m (a + 1) k) n' \<longleftrightarrow>
        n' < 8 * k \<and> n' < 64 \<and> bit (m (a + of_nat (n div 8))) (n mod 8)"
      unfolding Suc.IH addr by (simp add: n)
    then show ?thesis
      using byte False by (auto simp: bit_or_iff bit_push_bit_iff bit_ucast_iff n)
  qed
qed

lemma bit_load64: "bit (load64 m a) n \<longleftrightarrow> n < 64 \<and> bit (m (a + of_nat (n div 8))) (n mod 8)"
  by (auto simp: load64_def bit_load_le)

lemma load_le_cong:
  assumes "\<And>x. x \<in> span a k \<Longrightarrow> m x = m' x" and "k \<le> 8"
  shows "load_le m a k = load_le m' a k"
proof (rule bit_word_eqI)
  fix n assume "n < LENGTH(64)"
  show "bit (load_le m a k) n = bit (load_le m' a k) n"
  proof (cases "n < 8 * k")
    case True
    then have "n div 8 < k" by auto
    then have "a + of_nat (n div 8) \<in> span a k"
      using assms(2) by (simp add: unat_of_nat64)
    then have "m (a + of_nat (n div 8)) = m' (a + of_nat (n div 8))" by (rule assms(1))
    then show ?thesis by (simp add: bit_load_le)
  qed (simp add: bit_load_le)
qed

lemma load64_cong:
  "(\<And>x. x \<in> span a 8 \<Longrightarrow> m x = m' x) \<Longrightarrow> load64 m a = load64 m' a"
  unfolding load64_def by (rule load_le_cong) auto

lemma load64_store64_same [simp, mem_simps]: "load64 (store64 m a v) a = v"
proof (rule bit_word_eqI)
  fix n assume n: "n < LENGTH(64)"
  then have "n div 8 < 8" by simp
  then have "unat (of_nat (n div 8) :: u64) = n div 8" by (simp add: unat_of_nat64)
  moreover have "8 * (n div 8) + n mod 8 = n" by simp
  moreover have "n mod 8 < 8" by simp
  ultimately show "bit (load64 (store64 m a v) a) n = bit v n"
    using n \<open>n div 8 < 8\<close>
    by (simp add: bit_load64 store64_def store_le_def bit_ucast_iff bit_drop_bit_eq del: mult_div_mod_eq)
qed

lemma store64_outside [mem_simps]: "x \<notin> span a 8 \<Longrightarrow> store64 m a v x = m x"
  by (simp add: store64_def store_le_def)

lemma load64_store64_disjoint [mem_simps]:
  assumes "span a 8 \<inter> span b 8 = {}"
  shows "load64 (store64 m a v) b = load64 m b"
  using assms by (intro load64_cong store64_outside) blast

text \<open>Two aligned 64-bit cells are the same or disjoint.\<close>

lemma aligned_cells_disjoint:
  fixes a b :: u64
  assumes "8 dvd unat a" and "8 dvd unat b" and "a \<noteq> b"
  shows "span a 8 \<inter> span b 8 = {}"
proof -
  obtain i where i: "unat a = 8 * i" using assms(1) by blast
  obtain j where j: "unat b = 8 * j" using assms(2) by blast
  have "i \<noteq> j" using assms(3) i j by (simp add: word_unat_eq_iff)
  moreover have "8 * i < 2 ^ 64" using i unat_less64 [of a] by simp
  then have "8 * i + 8 \<le> 2 ^ 64" by simp
  moreover have "8 * j < 2 ^ 64" using j unat_less64 [of b] by simp
  then have "8 * j + 8 \<le> 2 ^ 64" by simp
  ultimately show ?thesis
    using i j by (intro span_disjoint_nat) auto
qed

section \<open>The counting loop\<close>

text \<open>The number of rounds of a counting loop, and the indices it visits.\<close>

definition rounds :: "u64 \<Rightarrow> u64 \<Rightarrow> u64 \<Rightarrow> nat" where
  "rounds i lim step = (unat lim - unat i + unat step - 1) div unat step"

definition visits :: "u64 \<Rightarrow> u64 \<Rightarrow> u64 \<Rightarrow> u64 list" where
  "visits i lim step = map (\<lambda>k. i + of_nat k * step) [0..<rounds i lim step]"

lemma rounds_next:
  assumes "0 < step" and "unat lim + unat step \<le> 2 ^ 64" and "i < lim"
  shows "rounds i lim step = Suc (rounds (i + step) lim step)" "unat lim - unat (i + step) < unat lim - unat i"
proof -
  have st: "0 < unat step" and lt: "unat i < unat lim" using assms(1,3) by (simp_all add: word_less_nat_alt)
  then have nw: "unat (i + step) = unat i + unat step"
    using assms(2) by (intro unat_plus_nowrap) simp
  then show "unat lim - unat (i + step) < unat lim - unat i" using st lt by simp
  show "rounds i lim step = Suc (rounds (i + step) lim step)"
  proof (cases "unat step \<le> unat lim - unat i")
    case True
    then have "unat lim - unat i + unat step - 1 = (unat lim - unat (i + step) + unat step - 1) + unat step"
      using st nw by simp
    then show ?thesis using st by (simp only: rounds_def div_add_self2)
  next
    case False
    then have "unat lim - unat i + unat step - 1 = unat step + (unat lim - unat i - 1)"
      using lt by simp
    moreover have "(unat step + (unat lim - unat i - 1)) div unat step = 1"
      using False st by (simp add: div_add_self1)
    moreover have "unat lim - unat (i + step) = 0" using False nw by simp
    ultimately show ?thesis using st by (simp add: rounds_def add.commute)
  qed
qed

lemma visits_step:
  assumes "0 < step" and "unat lim + unat step \<le> 2 ^ 64"
  shows "visits i lim step = (if i < lim then i # visits (i + step) lim step else [])"
proof (cases "i < lim")
  case True
  have "visits i lim step = map (\<lambda>k. i + of_nat k * step) [0..<Suc (rounds (i + step) lim step)]"
    unfolding visits_def rounds_next(1) [OF assms True] ..
  also have "\<dots> = i # map (\<lambda>k. i + of_nat (Suc k) * step) [0..<rounds (i + step) lim step]"
    by (rule nth_equalityI) (auto simp: nth_Cons split: nat.split simp del: upt_Suc)
  finally show ?thesis using True by (simp add: visits_def algebra_simps)
next
  case False
  have "0 < unat step" using assms(1) by (simp add: word_less_nat_alt)
  moreover have "unat lim - unat i = 0" using False by (simp add: word_less_nat_alt)
  ultimately show ?thesis using False by (simp add: visits_def rounds_def)
qed

lemma for_step_returns:
  assumes "0 < step" and "unat lim + unat step \<le> 2 ^ 64"
  shows "for_step i lim step body s = Some (fold body (visits i lim step) s)"
proof (induction "unat lim - unat i" arbitrary: i s rule: less_induct)
  case less
  then show ?case
    using rounds_next(2) [OF assms, of i] by (cases "i < lim") (simp_all add: for_step.simps [of i] visits_step [OF assms, of i])
qed

end
