(* ===== verification/Ice_Math.thy ===== *)
theory Ice_Math
  imports Ice_Prelude
begin

text \<open>
  The helpers of \<^verbatim>\<open>kernel/include/utils/math.hpp\<close>: alignment, rounding division, the next
  power of two and the conversions between physical addresses and the higher-half direct
  map. The templates are modelled at the type all callers use, \<^verbatim>\<open>size_t\<close>; an \<^verbatim>\<open>int\<close>
  alignment such as \<^verbatim>\<open>0x1000\<close> is positive, so its conversion to \<^verbatim>\<open>size_t\<close> keeps its value.
\<close>

unbundle bit_operations_syntax

section \<open>Definitions\<close>

definition align_down :: "u64 \<Rightarrow> u64 \<Rightarrow> u64" where
  "align_down n a = n AND NOT (a - 1)"

definition align_up :: "u64 \<Rightarrow> u64 \<Rightarrow> u64" where
  "align_up n a = align_down (n + a - 1) a"

definition div_roundup :: "u64 \<Rightarrow> u64 \<Rightarrow> u64" where
  "div_roundup n a = align_down (n + a - 1) a div a"

text \<open>\<^verbatim>\<open>__builtin_clzl\<close>: the number of zero bits above the highest one.\<close>

definition clzl :: "u64 \<Rightarrow> nat" where
  "clzl w = length (takeWhile (\<lambda>i. \<not> bit w i) (rev [0..<64]))"

text \<open>\<^verbatim>\<open>next_pow2\<close> shifts the \<^verbatim>\<open>int\<close> literal 1, so a shift by 32 or more is undefined;
  \<^const>\<open>None\<close> stands for it.\<close>

definition next_pow2 :: "u64 \<Rightarrow> i32 option" where
  "next_pow2 n =
     (if n = 1 then Some 1
      else let k = 64 - clzl (n - 1) in if k < 32 then Some (push_bit k 1) else None)"

definition ishh :: "u64 \<Rightarrow> u64 \<Rightarrow> bool" where
  "ishh hhdm a \<longleftrightarrow> a \<ge> hhdm"

definition tohh :: "u64 \<Rightarrow> u64 \<Rightarrow> u64" where
  "tohh hhdm a = (if ishh hhdm a then a else a + hhdm)"

definition fromhh :: "u64 \<Rightarrow> u64 \<Rightarrow> u64" where
  "fromhh hhdm a = (if \<not> ishh hhdm a then a else a - hhdm)"

section \<open>Alignment\<close>

lemma unat_align_down:
  assumes "k < 64"
  shows "unat (align_down n (2 ^ k)) = unat n div 2 ^ k * 2 ^ k"
proof -
  have "(2 ^ k :: u64) - 1 = mask k" by (simp add: mask_eq_exp_minus_1)
  then show ?thesis
    by (simp add: align_down_def and_not_mask_eq unat_push_drop)
qed

lemma unat_pow2_64:
  assumes "k < 64"
  shows "unat (2 ^ k :: u64) = 2 ^ k"
proof -
  have "(2 ^ k :: u64) = of_nat (2 ^ k)" by simp
  moreover have "(2 :: nat) ^ k < 2 ^ 64" using assms by (rule power_strict_increasing) simp
  ultimately show ?thesis by (simp only: unat_of_nat64)
qed

lemma unat_align_up:
  assumes "k < 64" and "unat n + 2 ^ k \<le> 2 ^ 64"
  shows "unat (align_up n (2 ^ k)) = (unat n + 2 ^ k - 1) div 2 ^ k * 2 ^ k"
proof -
  have "unat n + unat (2 ^ k - 1 :: u64) < 2 ^ 64"
    using assms by (simp add: unat_minus_one unat_pow2_64 word_unat_eq_iff)
  then have "unat (n + (2 ^ k - 1)) = unat n + 2 ^ k - 1"
    using assms by (simp add: unat_plus_nowrap unat_minus_one unat_pow2_64 word_unat_eq_iff)
  then show ?thesis
    using assms by (simp add: align_up_def unat_align_down add_diff_eq [symmetric])
qed

lemma roundup_bounds:
  fixes n a :: nat
  assumes "0 < a"
  shows "n \<le> (n + a - 1) div a * a" and "(n + a - 1) div a * a < n + a"
proof -
  have "(n + a - 1) div a * a \<le> n + a - 1" by (rule div_times_less_eq_dividend)
  then show "(n + a - 1) div a * a < n + a" using assms by linarith
  have "n + a - 1 < a * ((n + a - 1) div a) + a"
    using assms by (metis dividend_less_div_times mult.commute add.commute)
  then show "n \<le> (n + a - 1) div a * a"
    using assms by (simp add: mult.commute)
qed

lemma unat_div_roundup:
  assumes "k < 64" and "unat n + 2 ^ k \<le> 2 ^ 64"
  shows "unat (div_roundup n (2 ^ k)) = (unat n + 2 ^ k - 1) div 2 ^ k"
proof -
  have "unat (div_roundup n (2 ^ k)) = unat (align_up n (2 ^ k)) div unat (2 ^ k :: u64)"
    by (simp add: div_roundup_def align_up_def unat_div)
  then show ?thesis using assms by (simp add: unat_align_up unat_pow2_64)
qed

text \<open>for a power-of-two alignment that does not overflow, \<^verbatim>\<open>align_up\<close> is the least
  multiple of the alignment that is not below its argument, \<^verbatim>\<open>align_down\<close> the greatest
  that is not above it, and \<^verbatim>\<open>div_roundup\<close> counts the blocks that cover the argument.\<close>

theorem align_correct:
  assumes "k < 64" and "unat n + 2 ^ k \<le> 2 ^ 64"
  shows "2 ^ k dvd unat (align_up n (2 ^ k))
    \<and> unat n \<le> unat (align_up n (2 ^ k)) \<and> unat (align_up n (2 ^ k)) < unat n + 2 ^ k
    \<and> 2 ^ k dvd unat (align_down n (2 ^ k))
    \<and> unat (align_down n (2 ^ k)) \<le> unat n \<and> unat n < unat (align_down n (2 ^ k)) + 2 ^ k
    \<and> unat (div_roundup n (2 ^ k)) = (unat n + 2 ^ k - 1) div 2 ^ k"
proof -
  have "unat n div 2 ^ k * 2 ^ k \<le> unat n" by (rule div_times_less_eq_dividend)
  moreover have "unat n < unat n div 2 ^ k * 2 ^ k + 2 ^ k"
    using dividend_less_div_times [of "2 ^ k" "unat n"] by (simp add: add.commute)
  ultimately show ?thesis
    using assms roundup_bounds [of "2 ^ k" "unat n"]
    by (simp add: unat_align_up unat_align_down unat_div_roundup)
qed

theorem align_correct_witness:
  "2 ^ 12 dvd unat (align_up 5000 (2 ^ 12)) \<and> unat (div_roundup 5000 (2 ^ 12)) = 2"
  using align_correct [of 12 5000] by simp

section \<open>The next power of two\<close>

lemma clzl_top_bit:
  assumes "j < 64" and "2 ^ j \<le> unat w" and "unat w < 2 ^ (j + 1)"
  shows "clzl w = 63 - j"
proof -
  have bit_unat: "bit w i \<longleftrightarrow> odd (unat w div 2 ^ i)" for i
    using bit_unsigned_iff [of w i, where 'a = nat] by (simp add: bit_iff_odd)
  have "unat w div 2 ^ j = 1"
    using assms by (intro div_nat_eqI) auto
  then have top: "bit w j" by (simp add: bit_unat)
  have above: "\<not> bit w i" if "j < i" for i
  proof -
    have "(2 :: nat) ^ (j + 1) \<le> 2 ^ i" using that by (intro power_increasing) auto
    then have "unat w div 2 ^ i = 0" using assms(3) by simp
    then show ?thesis by (simp add: bit_unat)
  qed
  have "[0..<64] = [0..<j] @ [j..<64]"
    using assms(1) upt_add_eq_append [of 0 j "64 - j"] by simp
  then have "rev [0..<64] = rev [j + 1..<64] @ j # rev [0..<j]"
    using assms(1) by (simp add: upt_conv_Cons)
  moreover have "takeWhile (\<lambda>i. \<not> bit w i) (rev [j + 1..<64] @ j # rev [0..<j]) = rev [j + 1..<64]"
    using above top by (subst takeWhile_append2) auto
  ultimately show ?thesis by (simp add: clzl_def)
qed

text \<open>up to \<open>2 ^ 31\<close>, \<^verbatim>\<open>next_pow2\<close> is defined and returns the least power of two that is
  not below its argument; beyond that the shift of an \<^verbatim>\<open>int\<close> is undefined.\<close>

theorem next_pow2_least:
  assumes "1 < n"
  shows "if n \<le> 2 ^ 31
    then \<exists>k. next_pow2 n = Some (push_bit k 1) \<and> k < 32 \<and> unat n \<le> 2 ^ k \<and> 2 ^ k < 2 * unat n
    else next_pow2 n = None"
proof -
  have n1: "1 < unat n" using assms by (simp add: word_less_nat_alt)
  have "n \<noteq> 0" using assms by auto
  then have n2: "unat (n - 1) = unat n - 1" by (rule unat_minus_one)
  from n1 have "1 \<le> unat n - 1" by simp
  then obtain j where j: "2 ^ j \<le> unat n - 1" "unat n - 1 < 2 ^ (j + 1)"
    using ex_power_ivl1 [of 2 "unat n - 1"] by auto
  have "(2 :: nat) ^ j < 2 ^ 64"
    using j(1) unat_less64 [of n] by linarith
  then have j64: "j < 64" by (rule power_less_imp_less_exp [rotated]) simp
  then have "clzl (n - 1) = 63 - j"
    using j n2 by (intro clzl_top_bit) auto
  then have val: "next_pow2 n = (if j + 1 < 32 then Some (push_bit (j + 1) 1) else None)"
    using assms j64 by (auto simp: next_pow2_def Let_def)
  have le: "n \<le> 2 ^ 31 \<longleftrightarrow> unat n \<le> 2 ^ 31"
    by (simp add: word_le_nat_alt)
  show ?thesis
  proof (cases "j + 1 < 32")
    case True
    then have "(2 :: nat) ^ (j + 1) \<le> 2 ^ 31" by (intro power_increasing) auto
    then have "n \<le> 2 ^ 31" using j(2) le by linarith
    moreover have "unat n \<le> 2 ^ (j + 1)" "2 ^ (j + 1) < 2 * unat n"
      using j n1 by auto
    ultimately show ?thesis using val True by (auto intro!: exI [of _ "j + 1"])
  next
    case False
    then have "(2 :: nat) ^ 31 \<le> 2 ^ j" by (intro power_increasing) auto
    then have "\<not> n \<le> 2 ^ 31" using j(1) n1 le by linarith
    then show ?thesis using val False by simp
  qed
qed

theorem next_pow2_least_witness:
  "\<exists>k. next_pow2 5 = Some (push_bit k 1) \<and> k < 32 \<and> 5 \<le> (2 :: nat) ^ k \<and> (2 :: nat) ^ k < 10"
  using next_pow2_least [of 5] by simp

section \<open>Direct-map conversions\<close>

text \<open>Below the direct map and without wrap-around the two conversions are inverse.\<close>

lemma tohh_phys:
  assumes "a < hhdm"
  shows "tohh hhdm a = a + hhdm"
  using assms by (auto simp: tohh_def ishh_def)

lemma fromhh_tohh:
  assumes "a < hhdm" and "unat a + unat hhdm < 2 ^ 64"
  shows "fromhh hhdm (tohh hhdm a) = a"
proof -
  have "hhdm \<le> a + hhdm"
    using assms(2) by (simp add: word_le_nat_alt unat_plus_nowrap)
  then show ?thesis
    using assms by (simp add: tohh_phys fromhh_def ishh_def)
qed

lemma tohh_idem:
  assumes "a < hhdm" and "unat a + unat hhdm < 2 ^ 64"
  shows "tohh hhdm (tohh hhdm a) = tohh hhdm a"
  using assms by (simp add: tohh_def ishh_def word_le_nat_alt unat_plus_nowrap)

end
