(* ===== verification/Ice_String.thy ===== *)
theory Ice_String
  imports Ice_Prelude
begin

text \<open>
  The kernel's C string and memory routines, \<^verbatim>\<open>kernel/libs/libc/string.cpp\<close>, over the byte
  memory: pointers are addresses, \<^verbatim>\<open>char\<close> is signed (x86-64), and every store is performed
  in the order of the source, so overlapping arguments behave as they do in the code.
  Loops that stop only at a terminator are partial: \<^const>\<open>None\<close> is a run that does not
  return. \<open>cstr m p bs\<close> says that the NUL-terminated string \<open>bs\<close> is stored at \<open>p\<close>.
\<close>

unbundle bit_operations_syntax

section \<open>Definitions\<close>

subsection \<open>Lengths\<close>

partial_function (option) strlen_loop :: "memory \<Rightarrow> u64 \<Rightarrow> u64 \<Rightarrow> u64 option" where
  "strlen_loop m str n = (if m (str + n) \<noteq> 0 then strlen_loop m str (n + 1) else Some n)"

definition strlen :: "memory \<Rightarrow> u64 \<Rightarrow> u64 option" where
  "strlen m str = strlen_loop m str 0"

function strnlen_loop :: "memory \<Rightarrow> u64 \<Rightarrow> u64 \<Rightarrow> u64 \<Rightarrow> u64" where
  "strnlen_loop m str len n =
     (if m (str + n) \<noteq> 0 \<and> n < len then strnlen_loop m str len (n + 1) else n)"
  by pat_completeness auto
termination
  by (relation "measure (\<lambda>(m, str, len, n). unat len - unat n)")
    (auto simp: unat_plus_one word_less_nat_alt)

definition strnlen :: "memory \<Rightarrow> u64 \<Rightarrow> u64 \<Rightarrow> u64" where
  "strnlen m str len = strnlen_loop m str len 0"

subsection \<open>Comparison\<close>

definition char_diff :: "u8 \<Rightarrow> u8 \<Rightarrow> i32" where
  "char_diff a b = word_of_int (sint a - sint b)"

partial_function (option) strcmp :: "memory \<Rightarrow> u64 \<Rightarrow> u64 \<Rightarrow> i32 option" where
  "strcmp m str1 str2 =
     (if m str1 \<noteq> 0 \<and> m str2 \<noteq> 0 \<and> m str1 = m str2
      then strcmp m (str1 + 1) (str2 + 1)
      else Some (char_diff (m str1) (m str2)))"

text \<open>The loop condition decrements \<^verbatim>\<open>len\<close> also when it then fails, so \<^verbatim>\<open>len\<close> has wrapped
  around to \<open>- 1\<close> when the loop ends because the count ran out.\<close>

function strncmp :: "memory \<Rightarrow> u64 \<Rightarrow> u64 \<Rightarrow> u64 \<Rightarrow> i32" where
  "strncmp m str1 str2 len =
     (if m str1 \<noteq> 0 \<and> m str2 \<noteq> 0 \<and> m str1 = m str2
      then (if len \<noteq> 0 then strncmp m (str1 + 1) (str2 + 1) (len - 1)
            else (if len - 1 = 0 then 0 else char_diff (m str1) (m str2)))
      else (if len = 0 then 0 else char_diff (m str1) (m str2)))"
  by pat_completeness auto
termination
  by (relation "measure (\<lambda>(m, str1, str2, len). unat len)") (auto simp: measure_unat)

subsection \<open>Copying\<close>

partial_function (option) strcpy_loop :: "memory \<Rightarrow> u64 \<Rightarrow> u64 \<Rightarrow> memory option" where
  "strcpy_loop m dest src =
     (if m src \<noteq> 0 then strcpy_loop (m(dest := m src)) (dest + 1) (src + 1)
      else Some (m(dest := 0)))"

definition strcpy :: "memory \<Rightarrow> u64 \<Rightarrow> u64 \<Rightarrow> (u64 \<times> memory) option" where
  "strcpy m dest src = map_option (Pair dest) (strcpy_loop m dest src)"

function strncpy_loop :: "memory \<Rightarrow> u64 \<Rightarrow> u64 \<Rightarrow> u64 \<Rightarrow> memory" where
  "strncpy_loop m dest src len =
     (if m src \<noteq> 0 \<and> len \<noteq> 0 then strncpy_loop (m(dest := m src)) (dest + 1) (src + 1) (len - 1)
      else m(dest := 0))"
  by pat_completeness auto
termination
  by (relation "measure (\<lambda>(m, dest, src, len). unat len)") (auto simp: measure_unat)

definition strncpy :: "memory \<Rightarrow> u64 \<Rightarrow> u64 \<Rightarrow> u64 \<Rightarrow> u64 \<times> memory" where
  "strncpy m dest src len = (dest, strncpy_loop m dest src len)"

definition strcat :: "memory \<Rightarrow> u64 \<Rightarrow> u64 \<Rightarrow> (u64 \<times> memory) option" where
  "strcat m dest src =
     (case strlen m dest of None \<Rightarrow> None
      | Some n \<Rightarrow> map_option (Pair dest) (strcpy_loop m (dest + n) src))"

definition strncat :: "memory \<Rightarrow> u64 \<Rightarrow> u64 \<Rightarrow> u64 \<Rightarrow> (u64 \<times> memory) option" where
  "strncat m dest src len =
     (case strlen m dest of None \<Rightarrow> None
      | Some n \<Rightarrow> Some (dest, strncpy_loop m (dest + n) src len))"

subsection \<open>Searching\<close>

partial_function (option) strchr :: "memory \<Rightarrow> u64 \<Rightarrow> i32 \<Rightarrow> u64 option" where
  "strchr m str ch =
     (if m str \<noteq> 0 \<and> sint (m str) \<noteq> sint ch then strchr m (str + 1) ch
      else Some (if sint ch = sint (m str) then str else 0))"

partial_function (option) strstr_loop :: "memory \<Rightarrow> u64 \<Rightarrow> u64 \<Rightarrow> u64 \<Rightarrow> u64 \<Rightarrow> u64 option" where
  "strstr_loop m substr str a b =
     (if m b = 0 then Some str
      else if m a = 0 then Some 0
      else if m a \<noteq> m b then strstr_loop m substr (str + 1) (str + 1) substr
      else strstr_loop m substr str (a + 1) (b + 1))"

definition strstr :: "memory \<Rightarrow> u64 \<Rightarrow> u64 \<Rightarrow> u64 option" where
  "strstr m str substr = strstr_loop m substr str str substr"

function strrev_loop :: "memory \<Rightarrow> u64 \<Rightarrow> u64 \<Rightarrow> u64 \<Rightarrow> memory" where
  "strrev_loop m str i j =
     (if i < j
      then strrev_loop (m(str + i := m (str + j), str + j := m (str + i))) str (i + 1) (j - 1)
      else m)"
  by pat_completeness auto
termination
  by (relation "measure (\<lambda>(m, str, i, j). unat j - unat i)")
    (auto simp: unat_plus_one unat_pred word_less_nat_alt)

definition strrev :: "memory \<Rightarrow> u64 \<Rightarrow> memory option" where
  "strrev m str = (case strlen m str of None \<Rightarrow> None | Some len \<Rightarrow> Some (strrev_loop m str 0 (len - 1)))"

subsection \<open>Raw memory\<close>

function memcmp_loop :: "memory \<Rightarrow> u64 \<Rightarrow> u64 \<Rightarrow> u64 \<Rightarrow> u64 \<Rightarrow> i32" where
  "memcmp_loop m p1 p2 len i =
     (if i < len
      then (if m (p1 + i) \<noteq> m (p2 + i) then (if m (p1 + i) < m (p2 + 2) then - 1 else 1)
            else memcmp_loop m p1 p2 len (i + 1))
      else 0)"
  by pat_completeness auto
termination
  by (relation "measure (\<lambda>(m, p1, p2, len, i). unat len - unat i)")
    (auto simp: unat_plus_one word_less_nat_alt)

definition memcmp :: "memory \<Rightarrow> u64 \<Rightarrow> u64 \<Rightarrow> u64 \<Rightarrow> i32" where
  "memcmp m p1 p2 len = memcmp_loop m p1 p2 len 0"

function memcpy_loop :: "memory \<Rightarrow> u64 \<Rightarrow> u64 \<Rightarrow> u64 \<Rightarrow> u64 \<Rightarrow> memory" where
  "memcpy_loop m dest src len i =
     (if i < len then memcpy_loop (m(dest + i := m (src + i))) dest src len (i + 1) else m)"
  by pat_completeness auto
termination
  by (relation "measure (\<lambda>(m, dest, src, len, i). unat len - unat i)")
    (auto simp: unat_plus_one word_less_nat_alt)

definition memcpy :: "memory \<Rightarrow> u64 \<Rightarrow> u64 \<Rightarrow> u64 \<Rightarrow> memory" where
  "memcpy m dest src len = memcpy_loop m dest src len 0"

text \<open>The branch of \<^verbatim>\<open>memmove\<close> for a destination above the source counts upwards and shifts
  both indices by one, so it starts with the bytes before the two buffers.\<close>

function memmove_down :: "memory \<Rightarrow> u64 \<Rightarrow> u64 \<Rightarrow> u64 \<Rightarrow> u64 \<Rightarrow> memory" where
  "memmove_down m dest src len i =
     (if i < len then memmove_down (m(dest + (i - 1) := m (src + (i - 1)))) dest src len (i + 1) else m)"
  by pat_completeness auto
termination
  by (relation "measure (\<lambda>(m, dest, src, len, i). unat len - unat i)")
    (auto simp: unat_plus_one word_less_nat_alt)

definition memmove :: "memory \<Rightarrow> u64 \<Rightarrow> u64 \<Rightarrow> u64 \<Rightarrow> memory" where
  "memmove m dest src len =
     (if src > dest then memcpy_loop m dest src len 0
      else if src < dest then memmove_down m dest src len 0
      else m)"

function memset_loop :: "memory \<Rightarrow> u64 \<Rightarrow> u8 \<Rightarrow> u64 \<Rightarrow> u64 \<Rightarrow> memory" where
  "memset_loop m dest ch len i =
     (if i < len then memset_loop (m(dest + i := ch)) dest ch len (i + 1) else m)"
  by pat_completeness auto
termination
  by (relation "measure (\<lambda>(m, dest, ch, len, i). unat len - unat i)")
    (auto simp: unat_plus_one word_less_nat_alt)

definition memset :: "memory \<Rightarrow> u64 \<Rightarrow> i32 \<Rightarrow> u64 \<Rightarrow> memory" where
  "memset m dest ch len = memset_loop m dest (ucast ch) len 0"

function memchr :: "memory \<Rightarrow> u64 \<Rightarrow> i32 \<Rightarrow> u64 \<Rightarrow> u64" where
  "memchr m src ch len =
     (if len \<noteq> 0 then (if uint (m src) = sint ch then src else memchr m (src + 1) ch (len - 1)) else 0)"
  by pat_completeness auto
termination
  by (relation "measure (\<lambda>(m, src, ch, len). unat len)") (auto simp: measure_unat)

declare strnlen_loop.simps [simp del] strncmp.simps [simp del] strncpy_loop.simps [simp del]
  strrev_loop.simps [simp del] memcmp_loop.simps [simp del] memcpy_loop.simps [simp del]
  memmove_down.simps [simp del] memset_loop.simps [simp del] memchr.simps [simp del]

text \<open>The NUL-terminated string stored at an address.\<close>

primrec cstr :: "memory \<Rightarrow> u64 \<Rightarrow> u8 list \<Rightarrow> bool" where
  "cstr m p [] \<longleftrightarrow> m p = 0"
| "cstr m p (b # bs) \<longleftrightarrow> b \<noteq> 0 \<and> m p = b \<and> cstr m (p + 1) bs"

text \<open>Reference search: the address of the first suffix that starts with the needle.\<close>

fun find_sub :: "u8 list \<Rightarrow> u8 list \<Rightarrow> u64 \<Rightarrow> u64" where
  "find_sub needle hay p =
     (if take (length needle) hay = needle then p
      else case hay of [] \<Rightarrow> 0 | _ # hay' \<Rightarrow> find_sub needle hay' (p + 1))"

declare find_sub.simps [simp del]

section \<open>Strings in memory\<close>

lemma cstr_nth: "cstr m p bs \<Longrightarrow> i < length bs \<Longrightarrow> m (p + of_nat i) = bs ! i \<and> bs ! i \<noteq> 0"
  by (induction bs arbitrary: p i) (auto simp: less_Suc_eq_0_disj add.assoc [symmetric])

lemma cstr_end: "cstr m p bs \<Longrightarrow> m (p + of_nat (length bs)) = 0"
  by (induction bs arbitrary: p) (auto simp: add.assoc [symmetric])

lemma cstr_drop: "cstr m p bs \<Longrightarrow> k \<le> length bs \<Longrightarrow> cstr m (p + of_nat k) (drop k bs)"
proof (induction bs arbitrary: p k)
  case (Cons b bs)
  then show ?case by (cases k) (auto simp: add.assoc [symmetric])
qed simp

text \<open>A string is shorter than the address space, since its terminator is not one of its bytes.\<close>

lemma cstr_length:
  assumes "cstr m p bs"
  shows "length bs < 2 ^ 64"
proof (rule ccontr)
  assume "\<not> length bs < 2 ^ 64"
  then have long: "2 ^ 64 \<le> length bs" by simp
  define k where "k = length bs mod 2 ^ 64"
  have "k < length bs" unfolding k_def using long by (intro less_le_trans [OF mod_less_divisor]) auto
  then have "m (p + of_nat k) \<noteq> 0" using cstr_nth [OF assms] by auto
  moreover have "(of_nat k :: u64) = of_nat (length bs)"
    by (simp add: k_def word_unat_eq_iff unat_of_nat)
  ultimately show False using cstr_end [OF assms] by simp
qed

lemma cstr_cong:
  assumes "\<And>x. x \<in> span p (Suc (length bs)) \<Longrightarrow> m x = m' x" and "length bs < 2 ^ 64"
  shows "cstr m p bs \<longleftrightarrow> cstr m' p bs"
  using assms
proof (induction bs arbitrary: p)
  case Nil
  then show ?case by simp
next
  case (Cons b bs)
  have "span (p + of_nat 1) (Suc (length bs)) \<subseteq> span p (Suc (length (b # bs)))"
    using Cons.prems(2) by (intro span_shift) auto
  then have "cstr m (p + 1) bs \<longleftrightarrow> cstr m' (p + 1) bs"
    using Cons.prems by (intro Cons.IH) auto
  then show ?case using Cons.prems(1) [of p] by simp
qed

lemma cstr_unique: "cstr m p xs \<Longrightarrow> cstr m p ys \<Longrightarrow> xs = ys"
  by (induction xs arbitrary: p ys) (case_tac ys; auto)+

section \<open>Lengths and comparison\<close>

lemma strlen_loop_cstr:
  "cstr m (p + n) bs \<Longrightarrow> strlen_loop m p n = Some (n + of_nat (length bs))"
proof (induction bs arbitrary: n)
  case Nil
  then show ?case by (simp add: strlen_loop.simps)
next
  case (Cons b bs)
  then have "strlen_loop m p (n + 1) = Some (n + 1 + of_nat (length bs))"
    by (intro Cons.IH) (simp add: add.assoc)
  then show ?case using Cons.prems by (simp add: strlen_loop.simps [of m p n] add.assoc)
qed

lemma strlen_cstr: "cstr m p bs \<Longrightarrow> strlen m p = Some (of_nat (length bs))"
  using strlen_loop_cstr [of m p 0 bs] by (simp add: strlen_def)

lemma strnlen_loop_cstr:
  assumes "cstr m (p + n) bs" and "n \<le> len"
  shows "unat (strnlen_loop m p len n) = unat n + min (length bs) (unat len - unat n)"
  using assms
proof (induction bs arbitrary: n)
  case Nil
  then show ?case by (simp add: strnlen_loop.simps)
next
  case (Cons b bs)
  show ?case
  proof (cases "n < len")
    case True
    then have "unat (n + 1) = Suc (unat n)" "n + 1 \<le> len"
      by (auto simp: unat_plus_one word_le_nat_alt word_less_nat_alt)
    moreover have "unat n < unat len" using True by (simp add: word_less_nat_alt)
    ultimately show ?thesis
      using Cons.prems True Cons.IH [of "n + 1"]
      by (simp add: strnlen_loop.simps [of m p len n] add.assoc)
  next
    case False
    then have "n = len" using Cons.prems(2) by simp
    then show ?thesis by (simp add: strnlen_loop.simps)
  qed
qed

text \<open>on a terminated string \<^verbatim>\<open>strlen\<close> returns the number of bytes before the
  terminator and \<^verbatim>\<open>strnlen\<close> the smaller of that number and the bound.\<close>

theorem strlen_strnlen_correct:
  assumes "cstr m p bs"
  shows "strlen m p = Some (of_nat (length bs)) \<and> length bs < 2 ^ 64
    \<and> unat (strnlen m p len) = min (length bs) (unat len)"
  using assms strlen_cstr cstr_length strnlen_loop_cstr [of m p 0 bs len]
  by (auto simp: strnlen_def)

text \<open>A concrete memory: the string \<open>bs\<close> at address 100.\<close>

definition string_at :: "u64 \<Rightarrow> u8 list \<Rightarrow> memory" where
  "string_at p bs = (\<lambda>a. if unat (a - p) < length bs then bs ! unat (a - p) else 0)"

theorem strlen_strnlen_correct_witness:
  "strlen (string_at 100 [72, 105]) 100 = Some 2 \<and> unat (strnlen (string_at 100 [72, 105]) 100 1) = 1"
  using strlen_strnlen_correct [of "string_at 100 [72, 105]" 100 "[72, 105]" 1]
  by (simp add: string_at_def)

lemma sint_char_diff [simp]: "sint (char_diff a b) = sint a - sint b"
proof -
  have "- 128 \<le> sint a" "sint a < 128" "- 128 \<le> sint b" "sint b < 128"
    using sint_greater_eq [of a] sint_less [of a] sint_greater_eq [of b] sint_less [of b] by auto
  then show ?thesis
    unfolding char_diff_def by (intro sint_int32) simp_all
qed

lemma char_diff_0 [simp]: "char_diff a b = 0 \<longleftrightarrow> a = b"
  using sint_char_diff [of a b] by (simp add: word_eq_iff_signed [where 'a = int])

text \<open>The order \<^verbatim>\<open>strcmp\<close> realises: lexicographic on signed bytes, terminator included.\<close>

definition signed_less :: "(u8 \<times> u8) set" where
  "signed_less = {(x, y). sint x < sint y}"

lemma signed_less_iff [simp]: "(x, y) \<in> signed_less \<longleftrightarrow> sint x < sint y"
  by (simp add: signed_less_def)

text \<open>on terminated strings \<^verbatim>\<open>strcmp\<close> returns; the result is zero exactly for equal
  strings and negative exactly when the first is smaller in the lexicographic order of
  signed bytes.\<close>

theorem strcmp_correct:
  assumes "cstr m p xs" and "cstr m q ys"
  shows "\<exists>r. strcmp m p q = Some r \<and> (r = 0 \<longleftrightarrow> xs = ys)
    \<and> (sint r < 0 \<longleftrightarrow> (xs @ [0], ys @ [0]) \<in> lexord signed_less)"
  using assms
proof (induction xs arbitrary: p q ys)
  case Nil
  then show ?case by (cases ys) (auto simp: strcmp.simps [of m p q])
next
  case (Cons x xs)
  show ?case
  proof (cases ys)
    case Nil
    then show ?thesis using Cons.prems by (auto simp: strcmp.simps [of m p q])
  next
    case (Cons y ys')
    show ?thesis
    proof (cases "x = y")
      case True
      then show ?thesis
        using Cons Cons.prems Cons.IH [of "p + 1" "q + 1" ys'] by (auto simp: strcmp.simps [of m p q])
    next
      case False
      then show ?thesis using Cons Cons.prems by (auto simp: strcmp.simps [of m p q])
    qed
  qed
qed

theorem strcmp_correct_witness:
  "\<exists>r. strcmp (string_at 100 [72, 105, 0, 72, 106]) 100 103 = Some r \<and> sint r < 0"
  using strcmp_correct [of "string_at 100 [72, 105, 0, 72, 106]" 100 "[72, 105]" 103 "[72, 106]"]
  by (auto simp: string_at_def)

text \<open>The wrap-around of \<^verbatim>\<open>len\<close> is harmless: the loop ends on an exhausted count only at
  equal bytes, whose difference is zero.\<close>

lemma strncmp_exhausted [simp]: "strncmp m p q 0 = 0"
  by (simp add: strncmp.simps [of m p q 0])

text \<open>\<^verbatim>\<open>strncmp\<close> always returns, compares at most \<^verbatim>\<open>len\<close> bytes and returns zero exactly
  when the two strings agree on them.\<close>

theorem strncmp_correct:
  assumes "cstr m p xs" and "cstr m q ys"
  shows "(strncmp m p q len = 0 \<longleftrightarrow> take (unat len) xs = take (unat len) ys)
    \<and> (sint (strncmp m p q len) < 0 \<longleftrightarrow>
        (take (unat len) (xs @ [0]), take (unat len) (ys @ [0])) \<in> lexord signed_less)"
  using assms
proof (induction "unat len" arbitrary: len p q xs ys)
  case 0
  then have "len = 0" by (simp add: word_unat_eq_iff)
  then show ?case by simp
next
  case (Suc n)
  then have "len \<noteq> 0" by auto
  then have len: "len \<noteq> 0" "unat len = Suc n" "n = unat (len - 1)"
    using Suc.hyps(2) by (simp_all add: unat_minus_one)
  show ?case
  proof (cases "\<exists>x xs' ys'. xs = x # xs' \<and> ys = x # ys'")
    case True
    then obtain x xs' ys' where "xs = x # xs'" "ys = x # ys'" by blast
    then show ?thesis
      using Suc.hyps(1) [OF len(3), of "p + 1" xs' "q + 1" ys'] Suc.prems len
      by (simp add: strncmp.simps [of m p q len])
  next
    case False
    then have "xs = [] \<and> ys = [] \<or> m p \<noteq> m q"
      using Suc.prems by (cases xs; cases ys) auto
    then show ?thesis
      using Suc.prems len False
      by (cases xs; cases ys) (auto simp: strncmp.simps [of m p q len])
  qed
qed

theorem strncmp_correct_witness:
  "strncmp (string_at 100 [72, 105, 0, 72, 106]) 100 103 1 = 0
    \<and> strncmp (string_at 100 [72, 105, 0, 72, 106]) 100 103 2 \<noteq> 0"
  using strncmp_correct [of "string_at 100 [72, 105, 0, 72, 106]" 100 "[72, 105]" 103 "[72, 106]" 1]
    strncmp_correct [of "string_at 100 [72, 105, 0, 72, 106]" 100 "[72, 105]" 103 "[72, 106]" 2]
  by (auto simp: string_at_def)

section \<open>Copying\<close>

lemma before_span:
  assumes "n < 2 ^ 64"
  shows "p \<notin> span (p + 1) n"
proof -
  have "unat (- 1 :: u64) = 2 ^ 64 - 1" by (simp add: unsigned_minus_1_eq_mask mask_eq_exp_minus_1)
  then have "unat (p - (p + 1)) = 2 ^ 64 - 1" by simp
  then show ?thesis using assms by simp
qed

lemma span_Suc:
  assumes "Suc n \<le> 2 ^ 64"
  shows "span p (Suc n) = insert p (span (p + 1) n)"
proof -
  have "a \<in> span p (Suc n) \<longleftrightarrow> a = p \<or> a \<in> span (p + 1) n" for a
  proof (cases "a = p")
    case False
    then have "a - p \<noteq> 0" by simp
    then have "unat (a - p - 1) = unat (a - p) - 1" "0 < unat (a - p)"
      by (auto simp: unat_minus_one word_less_nat_alt unat_gt_0)
    then show ?thesis using False by (auto simp: diff_diff_eq)
  qed simp
  then show ?thesis by blast
qed

text \<open>One step of a copy between disjoint buffers leaves the same situation one byte on.\<close>

lemma copy_step:
  assumes "cstr m src (b # bs)"
    and "span dest (Suc (length (b # bs))) \<inter> span src (Suc (length (b # bs))) = {}"
  shows "cstr (m(dest := b)) (src + 1) bs"
    and "span (dest + 1) (Suc (length bs)) \<inter> span (src + 1) (Suc (length bs)) = {}"
proof -
  have long: "Suc (Suc (length bs)) \<le> 2 ^ 64" using cstr_length [OF assms(1)] by simp
  have spans: "span dest (Suc (length (b # bs))) = insert dest (span (dest + 1) (Suc (length bs)))"
    "span src (Suc (length (b # bs))) = insert src (span (src + 1) (Suc (length bs)))"
    using long by (simp_all only: list.size add_Suc_right add_0_right span_Suc)
  show "span (dest + 1) (Suc (length bs)) \<inter> span (src + 1) (Suc (length bs)) = {}"
    using assms(2) unfolding spans by blast
  show "cstr (m(dest := b)) (src + 1) bs"
    using assms spans long by (subst cstr_cong [of _ _ _ m]) auto
qed

text \<open>The bounded copy: the first \<open>len\<close> bytes and a terminator, nothing else.\<close>

lemma strncpy_loop_cstr:
  assumes "cstr m src bs" and "span dest (Suc (length bs)) \<inter> span src (Suc (length bs)) = {}"
  shows "cstr (strncpy_loop m dest src len) dest (take (unat len) bs)
    \<and> (\<forall>x. x \<notin> span dest (Suc (min (unat len) (length bs))) \<longrightarrow> strncpy_loop m dest src len x = m x)"
  using assms
proof (induction bs arbitrary: m dest src len)
  case Nil
  then show ?case by (simp add: strncpy_loop.simps)
next
  case (Cons b bs)
  show ?case
  proof (cases "len = 0")
    case True
    then show ?thesis by (simp add: strncpy_loop.simps)
  next
    case False
    then have n: "unat len = Suc (unat (len - 1))"
      using unat_minus_one [of len] by (simp add: unat_gt_0)
    let ?m = "m(dest := b)"
    have IH: "cstr (strncpy_loop ?m (dest + 1) (src + 1) (len - 1)) (dest + 1) (take (unat (len - 1)) bs)"
      "\<forall>x. x \<notin> span (dest + 1) (Suc (min (unat (len - 1)) (length bs))) \<longrightarrow>
        strncpy_loop ?m (dest + 1) (src + 1) (len - 1) x = ?m x"
      using Cons.IH [OF copy_step [OF Cons.prems]] by blast+
    have step: "strncpy_loop m dest src len = strncpy_loop ?m (dest + 1) (src + 1) (len - 1)"
      using Cons.prems False by (simp add: strncpy_loop.simps [of m])
    have short: "Suc (min (unat (len - 1)) (length bs)) < 2 ^ 64"
      using cstr_length [OF Cons.prems(1)] by simp
    then have "strncpy_loop m dest src len dest = b"
      using IH(2) before_span [OF short, of dest] unfolding step by simp
    moreover have "span dest (Suc (min (unat len) (length (b # bs)))) =
        insert dest (span (dest + 1) (Suc (min (unat (len - 1)) (length bs))))"
      unfolding n using short by (simp add: span_Suc del: in_span)
    ultimately show ?thesis
      using IH Cons.prems unfolding step by (simp add: n del: in_span)
  qed
qed

lemma strcpy_loop_eq:
  assumes "cstr m src bs" and "span dest (Suc (length bs)) \<inter> span src (Suc (length bs)) = {}"
    and "length bs \<le> unat len"
  shows "strcpy_loop m dest src = Some (strncpy_loop m dest src len)"
  using assms
proof (induction bs arbitrary: m dest src len)
  case Nil
  then show ?case by (simp add: strncpy_loop.simps strcpy_loop.simps fun_eq_iff)
next
  case (Cons b bs)
  then have "len \<noteq> 0" by auto
  moreover have "length bs \<le> unat (len - 1)"
    using Cons.prems(3) \<open>len \<noteq> 0\<close> by (simp add: unat_minus_one)
  ultimately show ?case
    using Cons.IH [OF copy_step [OF Cons.prems(1,2)], of "len - 1"] Cons.prems(1)
    by (simp add: strncpy_loop.simps [of m] strcpy_loop.simps [of m] fun_upd_def)
qed

lemma strcpy_loop_cstr:
  assumes "cstr m src bs" and "span dest (Suc (length bs)) \<inter> span src (Suc (length bs)) = {}"
  obtains m' where "strcpy_loop m dest src = Some m'" and "cstr m' dest bs"
    and "\<And>x. x \<notin> span dest (Suc (length bs)) \<Longrightarrow> m' x = m x"
proof -
  have len: "unat (of_nat (length bs) :: u64) = length bs"
    using cstr_length [OF assms(1)] by (simp add: unat_of_nat64)
  show thesis
    using strcpy_loop_eq [OF assms, of "of_nat (length bs)"]
      strncpy_loop_cstr [OF assms, of "of_nat (length bs)"] len that by auto
qed

text \<open>between disjoint buffers \<^verbatim>\<open>strcpy\<close> returns the destination, which then holds the
  source string, and writes only that string and its terminator; \<^verbatim>\<open>strncpy\<close> stores the first
  \<^verbatim>\<open>len\<close> bytes and always a terminator, so that it writes up to \<^verbatim>\<open>len + 1\<close> bytes.\<close>

theorem strcpy_strncpy_correct:
  assumes "cstr m src bs" and "span dest (Suc (length bs)) \<inter> span src (Suc (length bs)) = {}"
  shows "(\<exists>m'. strcpy m dest src = Some (dest, m') \<and> cstr m' dest bs
      \<and> (\<forall>x. x \<notin> span dest (Suc (length bs)) \<longrightarrow> m' x = m x))
    \<and> (\<exists>m'. strncpy m dest src len = (dest, m') \<and> cstr m' dest (take (unat len) bs)
      \<and> (\<forall>x. x \<notin> span dest (Suc (min (unat len) (length bs))) \<longrightarrow> m' x = m x))"
proof -
  obtain m' where "strcpy_loop m dest src = Some m'" "cstr m' dest bs"
    "\<And>x. x \<notin> span dest (Suc (length bs)) \<Longrightarrow> m' x = m x"
    using strcpy_loop_cstr [OF assms] by blast
  then show ?thesis
    using strncpy_loop_cstr [OF assms, of len] by (auto simp: strcpy_def strncpy_def)
qed

theorem strcpy_strncpy_correct_witness:
  "\<exists>m'. strcpy (string_at 100 [72, 105]) 200 100 = Some (200, m') \<and> cstr m' 200 [72, 105]"
proof -
  have "span 200 (Suc (length [72, 105 :: u8])) \<inter> span 100 (Suc (length [72, 105 :: u8])) = {}"
    by (rule span_disjoint_nat) simp_all
  from strcpy_strncpy_correct [of "string_at 100 [72, 105]" 100 "[72, 105]" 200 0, OF _ this]
  show ?thesis by (auto simp: string_at_def)
qed

lemma strcat_cstr:
  assumes "cstr m dest xs" and "cstr m src ys"
    and "span (dest + of_nat (length xs)) (Suc (length ys)) \<inter> span src (Suc (length ys)) = {}"
    and "length xs + length ys < 2 ^ 64"
  obtains m' where "strcat m dest src = Some (dest, m')" and "cstr m' dest (xs @ ys)"
proof -
  obtain m' where m': "strcpy_loop m (dest + of_nat (length xs)) src = Some m'"
    "cstr m' (dest + of_nat (length xs)) ys"
    "\<And>x. x \<notin> span (dest + of_nat (length xs)) (Suc (length ys)) \<Longrightarrow> m' x = m x"
    using strcpy_loop_cstr [OF assms(2,3)] by blast
  have keep: "m' (dest + of_nat i) = m (dest + of_nat i)" if "i < length xs" for i
  proof (rule m'(3))
    have "unat (of_nat i - of_nat (length xs) :: u64) = 2 ^ 64 + i - length xs"
      using that assms(4) by (simp add: unat_sub_if_size word_size unat_of_nat64)
    then show "dest + of_nat i \<notin> span (dest + of_nat (length xs)) (Suc (length ys))"
      using that assms(4) by simp
  qed
  have "cstr m' (dest + of_nat k) (drop k xs @ ys)" if "k \<le> length xs" for k
    using that
  proof (induction "length xs - k" arbitrary: k)
    case 0
    then show ?case using m'(2) by simp
  next
    case (Suc n)
    then have k: "k < length xs" by simp
    have "cstr m' (dest + of_nat (Suc k)) (drop (Suc k) xs @ ys)"
      using Suc.hyps(2) k by (intro Suc.hyps(1)) auto
    then show ?case
      using k keep [OF k] cstr_nth [OF assms(1) k]
      by (simp add: Cons_nth_drop_Suc [OF k, symmetric] add.assoc add.commute [of 1])
  qed
  from this [of 0] show thesis
    using that m'(1) strlen_cstr [OF assms(1)] by (simp add: strcat_def)
qed

text \<open>\<^verbatim>\<open>strcat\<close> appends: when the room behind the first string does not overlap the
  second, the destination afterwards holds the concatenation.\<close>

theorem strcat_appends:
  assumes "cstr m dest xs" and "cstr m src ys"
    and "span (dest + of_nat (length xs)) (Suc (length ys)) \<inter> span src (Suc (length ys)) = {}"
    and "length xs + length ys < 2 ^ 64"
  shows "\<exists>m'. strcat m dest src = Some (dest, m') \<and> cstr m' dest (xs @ ys)
    \<and> strlen m' dest = Some (of_nat (length xs + length ys))"
proof -
  obtain m' where "strcat m dest src = Some (dest, m')" "cstr m' dest (xs @ ys)"
    using strcat_cstr [OF assms] by blast
  then show ?thesis using strlen_cstr [of m' dest "xs @ ys"] by auto
qed

theorem strcat_appends_witness:
  "\<exists>m'. strcat ((string_at 100 [72])(200 := 105)) 100 200 = Some (100, m') \<and> cstr m' 100 [72, 105]"
proof -
  have "span (100 + of_nat (length [72 :: u8])) (Suc (length [105 :: u8])) \<inter> span 200 (Suc (length [105 :: u8])) = {}"
    by (rule span_disjoint_nat) simp_all
  from strcat_appends [of "(string_at 100 [72])(200 := 105)" 100 "[72]" 200 "[105]", OF _ _ this]
  show ?thesis by (auto simp: string_at_def)
qed

section \<open>Searching\<close>

lemma find_sub_short: "length hay < length needle \<Longrightarrow> find_sub needle hay p = 0"
  by (induction hay arbitrary: p) (auto simp: find_sub.simps [of needle])

text \<open>A match of length \<open>k\<close> at the current start is extended, completed or abandoned.\<close>

lemma strstr_extend:
  assumes "cstr m str hay" and "cstr m sub needle"
    and rest: "hay \<noteq> [] \<Longrightarrow> strstr_loop m sub (str + 1) (str + 1) sub = Some (find_sub needle (tl hay) (str + 1))"
    and "k \<le> length hay" and "k \<le> length needle" and "take k hay = take k needle"
  shows "strstr_loop m sub str (str + of_nat k) (sub + of_nat k) = Some (find_sub needle hay str)"
  using assms(4-)
proof (induction "length needle - k" arbitrary: k)
  case 0
  then have "m (sub + of_nat k) = 0" "take (length needle) hay = needle"
    using cstr_end [OF assms(2)] by auto
  then show ?case by (simp add: strstr_loop.simps find_sub.simps [of needle hay])
next
  case (Suc n)
  then have k: "k < length needle" by simp
  then have b: "m (sub + of_nat k) = needle ! k" "needle ! k \<noteq> 0"
    using cstr_nth [OF assms(2) k] by auto
  show ?case
  proof (cases "k = length hay")
    case True
    then show ?thesis
      using b k cstr_end [OF assms(1)] by (simp add: strstr_loop.simps [of m sub str] find_sub_short)
  next
    case False
    with Suc.prems have h: "k < length hay" by simp
    then have a: "m (str + of_nat k) = hay ! k" "hay ! k \<noteq> 0"
      using cstr_nth [OF assms(1) h] by auto
    show ?thesis
    proof (cases "hay ! k = needle ! k")
      case True
      have "strstr_loop m sub str (str + of_nat (Suc k)) (sub + of_nat (Suc k)) = Some (find_sub needle hay str)"
        using Suc.hyps(2) Suc.prems h k True
        by (intro Suc.hyps(1)) (auto simp: take_Suc_conv_app_nth)
      then show ?thesis
        using a b True by (simp add: strstr_loop.simps [of m sub str "str + of_nat k"] add.assoc add.commute [of 1])
    next
      case False
      then have "take (length needle) hay \<noteq> needle" using k by (metis nth_take)
      moreover have "hay \<noteq> []" using h by auto
      ultimately have "find_sub needle hay str = find_sub needle (tl hay) (str + 1)"
        by (cases hay) (simp_all add: find_sub.simps [of needle "_ # _"])
      then show ?thesis
        using a b False rest \<open>hay \<noteq> []\<close> by (simp add: strstr_loop.simps [of m sub str "str + of_nat k"])
    qed
  qed
qed

text \<open>C34: \<^verbatim>\<open>strstr\<close> on terminated strings returns the address of the first occurrence of the
  needle, the null pointer when there is none and the start for an empty needle.\<close>

theorem strstr_correct:
  assumes "cstr m str hay" and "cstr m sub needle"
  shows "strstr m str sub = Some (find_sub needle hay str)"
  using assms(1)
proof (induction hay arbitrary: str)
  case Nil
  then show ?case
    using strstr_extend [OF Nil assms(2), of 0] by (simp add: strstr_def)
next
  case (Cons c hay)
  then have "strstr_loop m sub (str + 1) (str + 1) sub = Some (find_sub needle hay (str + 1))"
    by (simp add: strstr_def)
  then show ?case
    using strstr_extend [OF Cons.prems assms(2), of 0] by (simp add: strstr_def)
qed

theorem strstr_correct_witness:
  "strstr (string_at 100 [97, 97, 98, 0, 97, 98]) 100 104 = Some 101"
  using strstr_correct [of "string_at 100 [97, 97, 98, 0, 97, 98]" 100 "[97, 97, 98]" 104 "[97, 98]"]
  by (simp add: string_at_def find_sub.simps)

section \<open>Reversal\<close>

text \<open>The exchange loop mirrors the offsets between its two indices, for any indices.\<close>

lemma strrev_loop_mirror:
  "strrev_loop m str i j (str + k) = (if i \<le> k \<and> k \<le> j then m (str + (i + j - k)) else m (str + k))"
proof (induction m str i j arbitrary: k rule: strrev_loop.induct)
  case (1 m str i j)
  show ?case
  proof (cases "i < j")
    case False
    then have "i + j - k = k" if "i \<le> k" "k \<le> j"
      using that by (metis add_diff_cancel_right' leD less_le_trans order.antisym order.trans not_less)
    then show ?thesis using False by (auto simp: strrev_loop.simps [of m])
  next
    case True
    let ?m = "m(str + i := m (str + j), str + j := m (str + i))"
    have u: "unat (i + 1) = Suc (unat i)" "unat (j - 1) = unat j - 1" "unat i < unat j"
      using True by (auto simp: unat_plus_one unat_pred word_less_nat_alt)
    have inner: "i + 1 \<le> k \<and> k \<le> j - 1 \<longleftrightarrow> i < k \<and> k < j"
      using u by (auto simp: word_le_nat_alt word_less_nat_alt)
    have sum: "i + 1 + (j - 1) - k = i + j - k" by simp
    have "strrev_loop m str i j (str + k) = strrev_loop ?m str (i + 1) (j - 1) (str + k)"
      using True by (simp add: strrev_loop.simps [of m])
    also have "\<dots> = (if i < k \<and> k < j then ?m (str + (i + j - k)) else ?m (str + k))"
      unfolding "1.IH" [OF True, of k] inner by (simp only: sum)
    also have "\<dots> = (if i \<le> k \<and> k \<le> j then m (str + (i + j - k)) else m (str + k))"
    proof (cases "i < k \<and> k < j")
      case True
      then have "i + j - k \<noteq> i" "i + j - k \<noteq> j" by (auto simp: diff_eq_eq)
      then show ?thesis using True by (simp add: less_imp_le)
    next
      case False
      then show ?thesis using \<open>i < j\<close> by (auto simp: less_le)
    qed
    finally show ?thesis .
  qed
qed

lemma strrev_cstr:
  assumes "cstr m p bs" and "bs \<noteq> []"
  obtains m' where "strrev m p = Some m'" and "cstr m' p (rev bs)"
    and "\<And>x. x \<notin> span p (length bs) \<Longrightarrow> m' x = m x"
proof -
  let ?j = "of_nat (length bs) - 1 :: u64" and ?m = "strrev_loop m p 0 (of_nat (length bs) - 1)"
  have n: "unat (of_nat (length bs) :: u64) = length bs"
    using cstr_length [OF assms(1)] by (simp add: unat_of_nat64)
  then have j: "unat ?j = length bs - 1"
    using assms(2) by (subst unat_minus_one) auto
  have byte: "?m (p + of_nat i) = rev bs ! i \<and> rev bs ! i \<noteq> 0" if "i < length bs" for i
  proof -
    have i: "unat (of_nat i :: u64) = i" using that n cstr_length [OF assms(1)] by (simp add: unat_of_nat64)
    then have le: "of_nat i \<le> ?j" using j that by (simp add: word_le_nat_alt)
    have "?j - of_nat i = of_nat (length bs - 1 - i)"
      using j i le cstr_length [OF assms(1)]
      by (simp add: word_unat_eq_iff [of "_ - _"] unat_minus_nowrap unat_of_nat64)
    then have "?m (p + of_nat i) = m (p + of_nat (length bs - 1 - i))"
      using le by (simp add: strrev_loop_mirror)
    then show ?thesis
      using cstr_nth [OF assms(1), of "length bs - 1 - i"] that by (simp add: rev_nth)
  qed
  have outside: "?m x = m x" if "x \<notin> span p (length bs)" for x
  proof -
    have "0 < length bs" using assms(2) by simp
    then have "\<not> unat (x - p) \<le> length bs - 1" using that unfolding in_span by linarith
    then have "\<not> x - p \<le> ?j" using j by (simp add: word_le_nat_alt)
    then show ?thesis using strrev_loop_mirror [of m p 0 ?j "x - p"] by simp
  qed
  have "cstr ?m (p + of_nat k) (drop k (rev bs))" if "k \<le> length bs" for k
    using that
  proof (induction "length bs - k" arbitrary: k)
    case 0
    then show ?case using cstr_end [OF assms(1)] outside [of "p + of_nat (length bs)"] n by simp
  next
    case (Suc l)
    then have k: "k < length bs" by simp
    have "cstr ?m (p + of_nat (Suc k)) (drop (Suc k) (rev bs))"
      using Suc.hyps(2) k by (intro Suc.hyps(1)) auto
    moreover have "drop k (rev bs) = rev bs ! k # drop (Suc k) (rev bs)"
      using k by (simp only: Cons_nth_drop_Suc length_rev)
    ultimately show ?case
      using byte [OF k] by (simp only: cstr.simps of_nat_Suc add.assoc add.commute [of 1]) simp
  qed
  from this [of 0] show thesis
    using that outside strlen_cstr [OF assms(1)] by (simp add: strrev_def)
qed

text \<open>C35: \<^verbatim>\<open>strrev\<close> reverses a non-empty string in place and touches nothing else; on the
  empty string its upper index wraps around and the loop mirrors the whole address space
  around the string.\<close>

theorem strrev_correct:
  assumes "cstr m p bs"
  shows "if bs = [] then strrev m p = Some (\<lambda>x. m (p + (- 1 - (x - p))))
    else \<exists>m'. strrev m p = Some m' \<and> cstr m' p (rev bs) \<and> (\<forall>x. x \<notin> span p (length bs) \<longrightarrow> m' x = m x)"
proof (cases "bs = []")
  case True
  have "strrev_loop m p 0 (- 1) x = m (p + (- 1 - (x - p)))" for x
    using strrev_loop_mirror [of m p 0 "- 1" "x - p"] by simp
  then show ?thesis
    using assms True strlen_cstr [OF assms] by (simp add: strrev_def fun_eq_iff)
next
  case False
  obtain m' where "strrev m p = Some m'" "cstr m' p (rev bs)"
    "\<And>x. x \<notin> span p (length bs) \<Longrightarrow> m' x = m x"
    using strrev_cstr [OF assms False] by blast
  then show ?thesis using False by auto
qed

theorem strrev_correct_witness:
  "\<exists>m'. strrev (string_at 100 [72, 105]) 100 = Some m' \<and> cstr m' 100 [105, 72]"
  using strrev_correct [of "string_at 100 [72, 105]" 100 "[72, 105]"]
  by (auto simp: string_at_def)

section \<open>Raw memory\<close>

lemma memset_loop_apply:
  "memset_loop m d c len i (d + k) = (if i \<le> k \<and> k < len then c else m (d + k))"
proof (induction m d c len i rule: memset_loop.induct)
  case (1 m d c len i)
  show ?case
  proof (cases "i < len")
    case True
    then have "i + 1 \<le> k \<longleftrightarrow> i < k"
      by (simp add: word_le_nat_alt word_less_nat_alt unat_plus_one Suc_le_eq)
    then show ?thesis
      unfolding memset_loop.simps [of m d c len i] using "1.IH" True by (auto simp: less_le fun_upd_def)
  qed (auto simp: memset_loop.simps [of m d c len i])
qed

lemma memset_apply [mem_simps]:
  "memset m d ch len x = (if x \<in> span d (unat len) then ucast ch else m x)"
  using memset_loop_apply [of m d "ucast ch" len 0 "x - d"]
  by (simp add: memset_def word_less_nat_alt)

text \<open>A forward copy is right when no byte is overwritten before it is read.\<close>

definition forward_safe :: "u64 \<Rightarrow> u64 \<Rightarrow> u64 \<Rightarrow> bool" where
  "forward_safe d s len \<longleftrightarrow> (\<forall>i k. i < k \<longrightarrow> k < len \<longrightarrow> d + i \<noteq> s + k)"

lemma memcpy_loop_apply:
  assumes "forward_safe d s len"
  shows "memcpy_loop m d s len i (d + k) = (if i \<le> k \<and> k < len then m (s + k) else m (d + k))"
  using assms
proof (induction m d s len i rule: memcpy_loop.induct)
  case (1 m d s len i)
  show ?case
  proof (cases "i < len")
    case True
    then have "i + 1 \<le> k \<longleftrightarrow> i < k"
      by (simp add: word_le_nat_alt word_less_nat_alt unat_plus_one Suc_le_eq)
    moreover have "s + k \<noteq> d + i" if "i < k" "k < len"
      using "1.prems" that unfolding forward_safe_def by metis
    ultimately show ?thesis
      unfolding memcpy_loop.simps [of m d s len i] using "1.IH" [OF True "1.prems"] True
      by (auto simp: less_le fun_upd_def)
  qed (auto simp: memcpy_loop.simps [of m d s len i])
qed

lemma forward_safe_disjoint:
  assumes "span d (unat len) \<inter> span s (unat len) = {}"
  shows "forward_safe d s len"
proof -
  have "d + i \<in> span d (unat len)" "s + k \<in> span s (unat len)" if "i < k" "k < len" for i k
    using that by (auto simp: word_less_nat_alt)
  then show ?thesis using assms unfolding forward_safe_def by (metis disjoint_iff)
qed

lemma forward_safe_below:
  assumes "d \<le> s" and "unat s + unat len \<le> 2 ^ 64"
  shows "forward_safe d s len"
proof -
  have "d + i \<noteq> s + k" if "i < k" "k < len" for i k
  proof -
    have "unat s + unat k < 2 ^ 64" using that assms(2) by (simp add: word_less_nat_alt)
    moreover have "unat d + unat i < unat s + unat k"
      using that assms(1) by (simp add: word_less_nat_alt word_le_nat_alt)
    ultimately have "unat (d + i) < unat (s + k)" by (simp add: unat_plus_nowrap)
    then show ?thesis by auto
  qed
  then show ?thesis by (simp add: forward_safe_def)
qed

lemma memcpy_apply [mem_simps]:
  assumes "span d (unat len) \<inter> span s (unat len) = {}"
  shows "memcpy m d s len x = (if x \<in> span d (unat len) then m (s + (x - d)) else m x)"
  using memcpy_loop_apply [OF forward_safe_disjoint [OF assms], of m 0 "x - d"]
  by (simp add: memcpy_def word_less_nat_alt)

text \<open>The downward loop of \<^verbatim>\<open>memmove\<close> is a forward copy of the two ranges shifted down by one byte.\<close>

lemma memmove_down_eq: "memmove_down m d s len i = memcpy_loop m (d - 1) (s - 1) len i"
proof (induction m d s len i rule: memmove_down.induct)
  case (1 m d s len i)
  have e: "d + (i - 1) = d - 1 + i" "s + (i - 1) = s - 1 + i" by simp_all
  show ?case
    unfolding memmove_down.simps [of m d] memcpy_loop.simps [of m "d - 1"] e
    using "1.IH" by (simp only: fun_upd_def e split: if_split) simp
qed

lemma memmove_up_apply:
  assumes "d \<le> s" and "unat s + unat len \<le> 2 ^ 64"
  shows "memmove m d s len x = (if x \<in> span d (unat len) then m (s + (x - d)) else m x)"
proof (cases "d = s")
  case False
  then have "d < s" using assms(1) by simp
  then show ?thesis
    using memcpy_loop_apply [OF forward_safe_below [OF assms], of m 0 "x - d"]
    by (simp add: memmove_def word_less_nat_alt [of "x - d"])
qed (simp add: memmove_def)

lemma memmove_down_apply:
  assumes "s < d" and "span (d - 1) (unat len) \<inter> span (s - 1) (unat len) = {}"
  shows "memmove m d s len x = (if x \<in> span (d - 1) (unat len) then m (s - 1 + (x - (d - 1))) else m x)"
  using assms memcpy_loop_apply [OF forward_safe_disjoint [OF assms(2)], of m 0 "x - (d - 1)"]
  by (simp add: memmove_def memmove_down_eq word_less_nat_alt)

text \<open>C33: \<^verbatim>\<open>memset\<close> fills exactly the given range. \<^verbatim>\<open>memcpy\<close> copies exactly the given range between disjoint buffers, in
  either order in memory. \<^verbatim>\<open>memmove\<close> does so for a destination at or below a source that does not wrap around,
  overlapping or not. For a destination above the source it is off by one: it copies, forwards, the ranges that start
  one byte below its arguments, so where those are disjoint the byte before the destination is overwritten and the
  last byte of the destination keeps its value.\<close>

theorem memset_memcpy_memmove_correct:
  "memset m d ch len x = (if x \<in> span d (unat len) then ucast ch else m x)
    \<and> (span d (unat len) \<inter> span s (unat len) = {} \<longrightarrow>
        memcpy m d s len x = (if x \<in> span d (unat len) then m (s + (x - d)) else m x))
    \<and> (d \<le> s \<and> unat s + unat len \<le> 2 ^ 64 \<longrightarrow>
        memmove m d s len x = (if x \<in> span d (unat len) then m (s + (x - d)) else m x))
    \<and> (s < d \<and> span (d - 1) (unat len) \<inter> span (s - 1) (unat len) = {} \<longrightarrow>
        memmove m d s len x = (if x \<in> span (d - 1) (unat len) then m (s - 1 + (x - (d - 1))) else m x))"
  by (intro conjI impI; (elim conjE)?)
    (erule memmove_up_apply memmove_down_apply memcpy_apply, assumption? | rule memset_apply)+

theorem memset_memcpy_memmove_correct_witness:
  "memmove (string_at 100 [1, 2, 3]) 100 101 2 100 = 2 \<and> memset (string_at 100 [1, 2, 3]) 100 7 2 101 = 7
    \<and> memcpy (string_at 100 [1, 2, 3]) 200 100 2 201 = 2
    \<and> memmove (string_at 100 [1, 2]) 200 100 2 199 = string_at 100 [1, 2] 99 \<and> memmove (string_at 100 [1, 2]) 200 100 2 201 = 0"
proof (intro conjI)
  have "span (200 - 1) (unat (2 :: u64)) \<inter> span (100 - 1) (unat (2 :: u64)) = {}" "span 200 (unat (2 :: u64)) \<inter> span 100 (unat (2 :: u64)) = {}"
    by (rule span_disjoint_nat; simp)+
  note apart = this
  show "memmove (string_at 100 [1, 2]) 200 100 2 199 = string_at 100 [1, 2] 99" "memmove (string_at 100 [1, 2]) 200 100 2 201 = 0"
    using memset_memcpy_memmove_correct [of "string_at 100 [1, 2]" 200 7 2 199 100]
      memset_memcpy_memmove_correct [of "string_at 100 [1, 2]" 200 7 2 201 100] apart(1) by (simp_all add: string_at_def)
  show "memcpy (string_at 100 [1, 2, 3]) 200 100 2 201 = 2"
    using memset_memcpy_memmove_correct [of "string_at 100 [1, 2, 3]" 200 7 2 201 100] apart(2) by (simp add: string_at_def)
  show "memmove (string_at 100 [1, 2, 3]) 100 101 2 100 = 2" "memset (string_at 100 [1, 2, 3]) 100 7 2 101 = 7"
    using memset_memcpy_memmove_correct [of "string_at 100 [1, 2, 3]" 100 7 2 100 101]
      memset_memcpy_memmove_correct [of "string_at 100 [1, 2, 3]" 100 7 2 101 101] by (simp_all add: string_at_def)
qed

lemma memcmp_loop_0:
  "memcmp_loop m p q len i = 0 \<longleftrightarrow> (\<forall>k. i \<le> k \<longrightarrow> k < len \<longrightarrow> m (p + k) = m (q + k))"
proof (induction m p q len i rule: memcmp_loop.induct)
  case (1 m p q len i)
  show ?case
  proof (cases "i < len")
    case True
    then have "\<And>k. i + 1 \<le> k \<longleftrightarrow> i < k"
      by (simp add: word_le_nat_alt word_less_nat_alt unat_plus_one Suc_le_eq)
    then show ?thesis
      unfolding memcmp_loop.simps [of m p q len i] using "1.IH" True by (auto simp: less_le)
  qed (auto simp: memcmp_loop.simps [of m p q len i])
qed

text \<open>\<^verbatim>\<open>memcmp\<close> returns zero exactly when the two ranges are equal.\<close>

theorem memcmp_zero_iff:
  "memcmp m p q len = 0 \<longleftrightarrow> (\<forall>k < len. m (p + k) = m (q + k))"
  by (auto simp: memcmp_def memcmp_loop_0)

theorem memcmp_zero_iff_witness:
  "memcmp (string_at 100 [1, 2, 1, 2]) 100 102 1 = 0"
proof -
  have "k = 0" if "k < 1" for k :: u64 using that by (simp add: word_less_nat_alt word_unat_eq_iff)
  then show ?thesis
    using memcmp_zero_iff [of "string_at 100 [1, 2, 1, 2]" 100 102 1] by (auto simp: string_at_def)
qed

text \<open>Its sign is not an order: the third byte of the second range decides.\<close>

lemma memcmp_sign_wrong:
  "memcmp (string_at 100 [1, 0, 0, 2, 0, 0]) 100 103 3 = 1
    \<and> memcmp (string_at 100 [1, 0, 0, 2, 0, 0]) 103 100 3 = 1"
  by (simp add: memcmp_def memcmp_loop.simps string_at_def)

lemma memchr_first:
  "memchr m p ch len =
    (case filter (\<lambda>k. uint (m (p + of_nat k)) = sint ch) [0..<unat len] of [] \<Rightarrow> 0 | k # _ \<Rightarrow> p + of_nat k)"
proof (induction m p ch len rule: memchr.induct)
  case (1 m p ch len)
  show ?case
  proof (cases "len = 0")
    case False
    then have "unat len = Suc (unat (len - 1))"
      using unat_minus_one [of len] by (simp add: unat_gt_0)
    then have range: "[0..<unat len] = 0 # map Suc [0..<unat (len - 1)]"
      by (simp add: upt_conv_Cons map_Suc_upt del: upt_Suc)
    show ?thesis
      unfolding memchr.simps [of m p ch len] range using False "1.IH"
      by (auto simp: filter_map o_def add.assoc split: list.splits)
  qed (simp add: memchr.simps)
qed

end
