(* ===== verification/Ice_Machine.thy ===== *)
theory Ice_Machine
  imports Ice_Math Ice_String
begin

text \<open>
  The part of the machine every component shares: the byte memory and the offset of the
  higher-half direct map, \<^verbatim>\<open>hhdm_offset\<close> of \<^verbatim>\<open>kernel/kernel.cpp\<close>. Component records extend
  it, so an operation of a lower layer applies unchanged to the state of a higher one.
  A run of the kernel either returns a value and the new state or halts: \<^verbatim>\<open>panic\<close> and
  failed assertions print their message and end in \<^verbatim>\<open>cpu::halt\<close>, which never returns.
\<close>

record machine =
  mem :: memory
  hhdm_offset :: u64

text \<open>\<open>Inl\<close> is the state in which the processor halted.\<close>

type_synonym ('v, 's) run = "'s + 'v \<times> 's"

definition halted :: "('v, 's) run \<Rightarrow> bool" where
  "halted r \<longleftrightarrow> (\<exists>s. r = Inl s)"

lemma halted_simps [simp]: "halted (Inl s)" "\<not> halted (Inr x)"
  by (auto simp: halted_def)

definition bind_run :: "('v, 's) run \<Rightarrow> ('v \<Rightarrow> 's \<Rightarrow> ('w, 's) run) \<Rightarrow> ('w, 's) run" where
  "bind_run r f = (case r of Inl s \<Rightarrow> Inl s | Inr (v, s) \<Rightarrow> f v s)"

lemma bind_run_simps [simp]: "bind_run (Inl s) f = Inl s" "bind_run (Inr (v, s)) f = f v s"
  by (simp_all add: bind_run_def)

lemma bind_run_Inr: "bind_run r f = Inr x \<longleftrightarrow> (\<exists>v s. r = Inr (v, s) \<and> f v s = Inr x)"
  by (auto simp: bind_run_def split: sum.splits)

text \<open>A loop over known indices that returns false as soon as its body does.\<close>

fun run_all :: "('i \<Rightarrow> 's \<Rightarrow> (bool, 's) run) \<Rightarrow> 'i list \<Rightarrow> 's \<Rightarrow> (bool, 's) run" where
  "run_all f [] s = Inr (True, s)"
| "run_all f (i # js) s = bind_run (f i s) (\<lambda>ok s. if ok then run_all f js s else Inr (False, s))"

text \<open>The same loop counting over \<^verbatim>\<open>size_t\<close>, from \<open>i\<close> below \<open>lim\<close> in steps of \<open>step\<close>; \<^const>\<open>None\<close> is a run that
  goes round for ever.\<close>

partial_function (option) for_run ::
  "u64 \<Rightarrow> u64 \<Rightarrow> u64 \<Rightarrow> (u64 \<Rightarrow> 's \<Rightarrow> (bool, 's) run) \<Rightarrow> 's \<Rightarrow> (bool, 's) run option" where
  "for_run i lim step body s =
     (if i < lim then
        (case body i s of Inl s' \<Rightarrow> Some (Inl s')
         | Inr (ok, s') \<Rightarrow> if ok then for_run (i + step) lim step body s' else Some (Inr (False, s')))
      else Some (Inr (True, s)))"

lemma for_run_returns:
  assumes "0 < step" and "unat lim + unat step \<le> 2 ^ 64"
  shows "for_run i lim step body s = Some (run_all body (visits i lim step) s)"
proof (induction "unat lim - unat i" arbitrary: i s rule: less_induct)
  case less
  show ?case
  proof (cases "i < lim")
    case True
    then show ?thesis
      using less rounds_next(2) [OF assms True]
      by (cases "body i s") (auto simp: for_run.simps [of i] visits_step [OF assms, of i] bind_run_def)
  qed (simp add: for_run.simps [of i] visits_step [OF assms, of i])
qed

text \<open>Two loops whose bodies agree on the states that occur.\<close>

lemma for_run_same_Some:
  assumes run: "for_run i lim step f s = Some r" and "I s" and same: "\<And>i s. I s \<Longrightarrow> f i s = g i s"
    and keep: "\<And>i s s'. I s \<Longrightarrow> f i s = Inr (True, s') \<Longrightarrow> I s'"
  shows "for_run i lim step g s = Some r"
proof -
  have "f = f \<longrightarrow> I s \<longrightarrow> for_run i lim step g s = Some r"
  proof (rule for_run.raw_induct [OF _ run, where P = "\<lambda>i lim step b s r. b = f \<longrightarrow> I s \<longrightarrow> for_run i lim step g s = Some r"], intro impI)
    fix rec :: "u64 \<Rightarrow> u64 \<Rightarrow> u64 \<Rightarrow> (u64 \<Rightarrow> 'a \<Rightarrow> (bool, 'a) run) \<Rightarrow> 'a \<Rightarrow> (bool, 'a) run option" and i lim step b s r
    assume IH: "\<And>i lim step b s y. rec i lim step b s = Some y \<Longrightarrow> b = f \<longrightarrow> I s \<longrightarrow> for_run i lim step g s = Some y"
      and one: "(if i < lim then case b i s of Inl s' \<Rightarrow> Some (Inl s')
        | Inr (ok, s') \<Rightarrow> if ok then rec (i + step) lim step b s' else Some (Inr (False, s')) else Some (Inr (True, s))) = Some r"
      and b: "b = f" "I s"
    show "for_run i lim step g s = Some r"
    proof (cases "f i s")
      case (Inl s')
      then show ?thesis using one b same [OF b(2), of i] by (auto simp: for_run.simps [of i lim step g] split: if_splits)
    next
      case (Inr x)
      then show ?thesis using one b same [OF b(2), of i] keep [OF b(2), of i] IH
        by (cases x) (auto simp: for_run.simps [of i lim step g] split: if_splits)
    qed
  qed
  then show ?thesis using assms(2) by simp
qed

lemma for_run_same:
  assumes "I s" and same: "\<And>i s. I s \<Longrightarrow> f i s = g i s" and keep: "\<And>i s s'. I s \<Longrightarrow> f i s = Inr (True, s') \<Longrightarrow> I s'"
  shows "for_run i lim step f s = for_run i lim step g s"
proof -
  have "for_run i lim step g s = Some r" if "for_run i lim step f s = Some r" for r
    by (rule for_run_same_Some [where I = I, OF that assms])
  moreover have "for_run i lim step f s = Some r" if "for_run i lim step g s = Some r" for r
  proof (rule for_run_same_Some [where I = I, OF that assms(1)])
    show "g i s = f i s" if "I s" for i s using same [OF that] by simp
    show "I s'" if "I s" "g i s = Inr (True, s')" for i s s' using same [OF that(1)] keep [OF that(1)] that(2) by simp
  qed
  ultimately show ?thesis by (metis not_None_eq)
qed

text \<open>An invariant of the body holds when a loop returns.\<close>

lemma for_run_inv:
  assumes run: "for_run i lim step f s = Some r" and "I s" and keep: "\<And>i s ok s'. I s \<Longrightarrow> f i s = Inr (ok, s') \<Longrightarrow> I s'"
  shows "\<forall>ok s'. r = Inr (ok, s') \<longrightarrow> I s'"
proof -
  have "f = f \<longrightarrow> I s \<longrightarrow> (\<forall>ok s'. r = Inr (ok, s') \<longrightarrow> I s')"
  proof (rule for_run.raw_induct [OF _ run, where P = "\<lambda>i lim step b s r. b = f \<longrightarrow> I s \<longrightarrow> (\<forall>ok s'. r = Inr (ok, s') \<longrightarrow> I s')"], intro impI allI)
    fix rec :: "u64 \<Rightarrow> u64 \<Rightarrow> u64 \<Rightarrow> (u64 \<Rightarrow> 'a \<Rightarrow> (bool, 'a) run) \<Rightarrow> 'a \<Rightarrow> (bool, 'a) run option" and i lim step b s r ok s'
    assume IH: "\<And>i lim step b s y. rec i lim step b s = Some y \<Longrightarrow> b = f \<longrightarrow> I s \<longrightarrow> (\<forall>ok s'. y = Inr (ok, s') \<longrightarrow> I s')"
      and one: "(if i < lim then case b i s of Inl s' \<Rightarrow> Some (Inl s')
        | Inr (ok, s') \<Rightarrow> if ok then rec (i + step) lim step b s' else Some (Inr (False, s')) else Some (Inr (True, s))) = Some r"
      and b: "b = f" "I s" "r = Inr (ok, s')"
    show "I s'"
    proof (cases "f i s")
      case (Inl t)
      then show ?thesis using one b by (auto split: if_splits)
    next
      case (Inr x)
      obtain ok1 t where x: "x = (ok1, t)" by (cases x)
      have "I t" using keep [OF b(2)] Inr x by blast
      then show ?thesis using one b IH Inr x by (auto split: if_splits)
    qed
  qed
  then show ?thesis using assms(2) by simp
qed

text \<open>\<^verbatim>\<open>assert(x)\<close>: the macro evaluates its argument a second time when it holds, and halts the
  processor in \<^verbatim>\<open>assert_fail\<close> otherwise.\<close>

definition assert_run :: "('s \<Rightarrow> (bool, 's) run) \<Rightarrow> 's \<Rightarrow> (bool, 's) run" where
  "assert_run x s = bind_run (x s) (\<lambda>ok s. if ok then bind_run (x s) (\<lambda>_ s. Inr (True, s)) else Inl s)"

end
