(* ===== verification/Ice_Bitmap.thy ===== *)
theory Ice_Bitmap
  imports Ice_Machine
begin

text \<open>
  The bitmap of \<^verbatim>\<open>kernel/utils/bitmap.cpp\<close>, one bit per page in a byte buffer, and the contract
  its client, the physical page allocator, relies on. The index is an \<^verbatim>\<open>int\<close>; the byte number
  is narrowed to 8 bits when a bit is read and to 16 bits when it is written, so reading and
  writing agree only for the first 2048 bits. (A negative index that is not a multiple of 8
  shifts by more than the width of \<^verbatim>\<open>int\<close>, which C++ leaves undefined; here the shifted bit is
  lost. Every lemma below is about indices from 0.)
\<close>

unbundle bit_operations_syntax

section \<open>The bitmap class\<close>

record bitmap_t =
  bm_buffer :: u64
  bm_size :: u64

definition reassign :: "u64 \<Rightarrow> u64 \<Rightarrow> bitmap_t \<Rightarrow> bitmap_t" where
  "reassign buff sz b = b\<lparr>bm_buffer := buff, bm_size := sz\<rparr>"

definition bitmap_get :: "memory \<Rightarrow> bitmap_t \<Rightarrow> i32 \<Rightarrow> bool" where
  "bitmap_get m b index =
     (let bit = word_of_int (sint index smod 8) :: u8;
          byte = word_of_int (sint index sdiv 8) :: u8
      in ucast (m (bm_buffer b + ucast byte)) AND push_bit (unat bit) (1 :: i32) \<noteq> 0)"

definition bitmap_set :: "memory \<Rightarrow> bitmap_t \<Rightarrow> i32 \<Rightarrow> bool \<Rightarrow> memory" where
  "bitmap_set m b index value =
     (let bit = word_of_int (sint index smod 8) :: u8;
          byte = word_of_int (sint index sdiv 8) :: u16;
          a = bm_buffer b + ucast byte
      in if value then m(a := ucast (ucast (m a) OR push_bit (unat bit) (1 :: i32)))
         else m(a := ucast (ucast (m a) AND NOT (push_bit (unat bit) (1 :: i32)))))"

section \<open>What the two operations read and write\<close>

lemma index_split:
  assumes "n < 2 ^ 31"
  shows "sint (of_nat n :: i32) smod 8 = int (n mod 8)" "sint (of_nat n :: i32) sdiv 8 = int (n div 8)"
proof -
  have "sint (word_of_int (int n) :: i32) = int n"
    using assms by (simp only: int_word_sint) simp
  then have n: "sint (of_nat n :: i32) = int n" by simp
  show "sint (of_nat n :: i32) smod 8 = int (n mod 8)" "sint (of_nat n :: i32) sdiv 8 = int (n div 8)"
    by (cases "n = 0"; simp add: n signed_modulo_int_def signed_divide_int_def zmod_int zdiv_int)+
qed

lemma index_words:
  "unat (of_nat (n mod 8) :: u8) = n mod 8"
  "(ucast (of_nat k :: u8) :: u64) = of_nat (k mod 256)"
  "(ucast (of_nat k :: u16) :: u64) = of_nat (k mod 65536)"
proof -
  have "n mod 8 < 2 ^ 8" by (rule less_trans [of _ 8]) simp_all
  then show "unat (of_nat (n mod 8) :: u8) = n mod 8" by (simp add: unat_of_nat)
  have m: "k mod 256 < 2 ^ 64" "k mod 65536 < 2 ^ 64"
    by (rule less_trans [OF mod_less_divisor], simp, simp)+
  show "(ucast (of_nat k :: u8) :: u64) = of_nat (k mod 256)"
    using m by (simp add: word_unat_eq_iff [where 'a = 64] unat_of_nat unsigned_ucast_eq take_bit_nat_eq_self)
  show "(ucast (of_nat k :: u16) :: u64) = of_nat (k mod 65536)"
    using m by (simp add: word_unat_eq_iff [where 'a = 64] unat_of_nat unsigned_ucast_eq take_bit_nat_eq_self)
qed

lemmas index_unfold = Let_def of_int_of_nat_eq index_words

lemma bitmap_get_bit:
  assumes "n < 2 ^ 31"
  shows "bitmap_get m b (of_nat n) = bit (m (bm_buffer b + of_nat (n div 8 mod 256))) (n mod 8)"
proof -
  have "n mod 8 < 32" by (rule less_trans [of _ 8]) simp_all
  then show ?thesis
    unfolding bitmap_get_def index_split [OF assms] index_unfold bit_iff_and_push_bit_not_eq_0 [symmetric]
    by (simp add: bit_ucast_iff)
qed

lemma bitmap_set_bit:
  assumes "n < 2 ^ 31"
  shows "bitmap_set m b (of_nat n) v =
    (let a = bm_buffer b + of_nat (n div 8 mod 65536)
     in m(a := (if v then set_bit (n mod 8) (m a) else unset_bit (n mod 8) (m a))))"
proof -
  have k: "n mod 8 < 8" by simp
  have "ucast (set_bit k (ucast x :: i32)) = (set_bit k x :: u8)"
    "ucast (unset_bit k (ucast x :: i32)) = (unset_bit k x :: u8)" for k and x :: u8
    by (auto intro!: bit_word_eqI simp: bit_ucast_iff bit_set_bit_iff bit_unset_bit_iff)
  then show ?thesis
    unfolding bitmap_set_def index_split [OF assms] index_unfold set_bit_def [symmetric] unset_bit_def [symmetric]
    by simp
qed

text \<open>A read looks at the first 256 bytes only; so does a write to one of the first 2048 bits.\<close>

lemma bitmap_get_cong:
  assumes "\<And>x. x \<in> span (bm_buffer b) 256 \<Longrightarrow> m x = m' x"
  shows "bitmap_get m b i = bitmap_get m' b i"
proof -
  have "m (bm_buffer b + ucast k) = m' (bm_buffer b + ucast k)" for k :: u8
    using unsigned_less [of k, where 'a = nat] by (intro assms) simp
  then show ?thesis by (simp add: bitmap_get_def Let_def)
qed

lemma bitmap_set_frame:
  assumes "n < 2048" and "x \<notin> span (bm_buffer b) 256"
  shows "bitmap_set m b (of_nat n) v x = m x"
proof -
  have "n div 8 < 256" using assms(1) by linarith
  then have "bm_buffer b + of_nat (n div 8) \<in> span (bm_buffer b) 256" by (simp add: unat_of_nat)
  then have "x \<noteq> bm_buffer b + of_nat (n div 8)" using assms(2) by auto
  then show ?thesis using assms(1) \<open>n div 8 < 256\<close> by (simp add: bitmap_set_bit Let_def)
qed

section \<open>The contract of a set of bits\<close>

text \<open>What the page allocator relies on: below a capacity, a bit that was written reads back,
  and writing a bit does not change another one.\<close>

locale bitset =
  fixes get :: "'s \<Rightarrow> nat \<Rightarrow> bool" and put :: "nat \<Rightarrow> bool \<Rightarrow> 's \<Rightarrow> 's" and capacity :: nat
  assumes get_put: "i < capacity \<Longrightarrow> j < capacity \<Longrightarrow> get (put i v s) j = (if j = i then v else get s j)"
begin

lemma get_put_same: "i < capacity \<Longrightarrow> get (put i v s) i = v"
  by (simp add: get_put)

lemma get_put_range:
  assumes "j < capacity" and "b \<le> capacity"
  shows "get (fold (\<lambda>i. put i v) [a..<b] s) j = (if a \<le> j \<and> j < b then v else get s j)"
  using assms(2)
proof (induction b)
  case (Suc b)
  then show ?case
    using assms(1) by (cases "a \<le> b") (auto simp: get_put)
qed simp

lemma get_put_set:
  assumes "j < capacity" and "\<forall>i \<in> set is. i < capacity"
  shows "get (fold (\<lambda>i. put i v) is s) j = (if j \<in> set is then v else get s j)"
  using assms by (induction "is" arbitrary: s) (auto simp: get_put)

lemma put_then_restore:
  assumes "b \<le> capacity" and "j < capacity" and "\<forall>i. a \<le> i \<and> i < b \<longrightarrow> get s i = v"
  shows "get (fold (\<lambda>i. put i v) [a..<b] (fold (\<lambda>i. put i (\<not> v)) [a..<b] s)) j = get s j"
  using assms by (simp add: get_put_range)

end

text \<open>The first 2048 bits of the bitmap satisfy the contract.\<close>

interpretation bm: bitset "\<lambda>m i. bitmap_get m b (of_nat i)" "\<lambda>i v m. bitmap_set m b (of_nat i) v" 2048
  for b
proof
  fix i j :: nat and v m
  assume lt: "i < 2048" "j < 2048"
  then have q: "i div 8 < 256" "j div 8 < 256" by auto
  let ?at = "\<lambda>k. bm_buffer b + of_nat k"
  have at: "?at (j div 8) = ?at (i div 8) \<longleftrightarrow> j div 8 = i div 8"
    using q by (intro offset_eq_iff) simp_all
  have ij: "j = i \<longleftrightarrow> j div 8 = i div 8 \<and> j mod 8 = i mod 8"
    by (metis div_mult_mod_eq)
  have "bitmap_get (bitmap_set m b (of_nat i) v) b (of_nat j) =
    (if ?at (j div 8) = ?at (i div 8) then (if j mod 8 = i mod 8 then v else bit (m (?at (j div 8))) (j mod 8))
     else bit (m (?at (j div 8))) (j mod 8))"
    using lt q by (simp add: bitmap_get_bit bitmap_set_bit Let_def bit_set_bit_iff bit_unset_bit_iff)
  then show "bitmap_get (bitmap_set m b (of_nat i) v) b (of_nat j) = (if j = i then v else bitmap_get m b (of_nat j))"
    using lt q at ij by (simp add: bitmap_get_bit)
qed


section \<open>Beyond the first 2048 bits\<close>

lemma bitmap_get_wraps:
  assumes "n < 2 ^ 31"
  shows "bitmap_get m b (of_nat n) = bitmap_get m b (of_nat (n mod 2048))"
proof -
  have "n mod 2048 < 2 ^ 31" by (rule less_trans [OF mod_less_divisor]) simp_all
  moreover have "n mod 2048 div 8 = n div 8 mod 256" "n mod 2048 mod 8 = n mod 8"
    using mod_mult2_eq [of n 8 256] by (simp_all add: mod_mod_cancel)
  ultimately show ?thesis using assms by (simp add: bitmap_get_bit)
qed

lemma bitmap_high_write:
  assumes n: "2048 \<le> n" "n < 524288" and k: "k < 2 ^ 31"
  shows "bitmap_get (bitmap_set m b (of_nat n) v) b (of_nat k) = bitmap_get m b (of_nat k)"
proof -
  have "256 \<le> n div 8" "n div 8 < 65536" using n by linarith+
  moreover have "k div 8 mod 256 < 256" by simp
  ultimately have "n div 8 < 2 ^ 64" "k div 8 mod 256 < 2 ^ 64" "n div 8 \<noteq> k div 8 mod 256" by auto
  then have "bm_buffer b + of_nat (n div 8) \<noteq> bm_buffer b + of_nat (k div 8 mod 256)"
    by (simp only: offset_eq_iff not_False_eq_True)
  then show ?thesis
    using n k \<open>n div 8 < 65536\<close> by (simp add: bitmap_get_bit bitmap_set_bit Let_def)
qed



end
