(* ===== verification/Ice_Regions.thy ===== *)
theory Ice_Regions
  imports Ice_Machine
begin

text \<open>
  What an allocator of memory promises to its clients, whatever its units are: the page manager, the heap and the operators
  \<^verbatim>\<open>new\<close> and \<^verbatim>\<open>delete\<close> all give out zeroed regions that nobody else touches. The contract is a locale; the lemmas in it say that
  a client may regard the regions it holds as a store of independent blocks of bytes.
\<close>

section \<open>Regions and their contents\<close>

definition keeps :: "(u64 \<times> nat) set \<Rightarrow> 'a machine_scheme \<Rightarrow> 'a machine_scheme \<Rightarrow> bool" where
  "keeps B s s' \<longleftrightarrow> (\<forall>(x, k) \<in> B. \<forall>b \<in> span x k. mem s' b = mem s b)"

lemma keepsI: "(\<And>x k b. (x, k) \<in> B \<Longrightarrow> b \<in> span x k \<Longrightarrow> mem s' b = mem s b) \<Longrightarrow> keeps B s s'"
  unfolding keeps_def by blast

lemma keepsD: "keeps B s s' \<Longrightarrow> (x, k) \<in> B \<Longrightarrow> b \<in> span x k \<Longrightarrow> mem s' b = mem s b"
  unfolding keeps_def by blast

lemma keeps_trans: "keeps B s s' \<Longrightarrow> keeps C s' s'' \<Longrightarrow> B \<subseteq> C \<Longrightarrow> keeps B s s''"
  by (rule keepsI) (metis keepsD subset_eq)

lemma span_at:
  assumes "i < n" and "n \<le> 2 ^ 64"
  shows "x + of_nat i \<in> span x n" "unat (of_nat i :: u64) = i"
  using assms by (simp_all add: unat_of_nat64)

text \<open>The abstract store maps the address of a region to the bytes a client holds in it.\<close>

type_synonym blocks = "u64 \<rightharpoonup> u8 list"

definition contents :: "memory \<Rightarrow> u64 \<Rightarrow> u8 list \<Rightarrow> bool" where
  "contents m x bs \<longleftrightarrow> (\<forall>i < length bs. m (x + of_nat i) = bs ! i)"

lemma contents_map: "contents m x bs \<longleftrightarrow> map (\<lambda>i. m (x + of_nat i)) [0..<length bs] = bs"
  unfolding contents_def list_eq_iff_nth_eq by simp

lemma contents_keeps:
  assumes "contents (mem s) x bs" and "keeps L s s'" and "(x, k) \<in> L" and "length bs \<le> k" and "k \<le> 2 ^ 64"
  shows "contents (mem s') x bs"
  using assms keepsD [OF assms(2,3)] span_at(1) unfolding contents_def by (metis less_le_trans)

section \<open>The contract\<close>

text \<open>\<open>inv g s\<close> holds of well-formed states with ghost state \<open>g\<close>, and \<open>live g s\<close> are the regions in use, with their lengths. A legal
  request of \<open>bytes r\<close> bytes is served with a region whose length \<open>fits\<close>; releasing a region and writing into it leave all others
  alone.\<close>

locale allocator =
  fixes inv :: "'g \<Rightarrow> 'a machine_scheme \<Rightarrow> bool" and live :: "'g \<Rightarrow> 'a machine_scheme \<Rightarrow> (u64 \<times> nat) set"
    and legal :: "'r \<Rightarrow> bool" and bytes :: "'r \<Rightarrow> nat" and fits :: "nat \<Rightarrow> nat \<Rightarrow> bool"
    and acquire :: "'r \<Rightarrow> 'a machine_scheme \<Rightarrow> (u64, 'a machine_scheme) run"
    and release :: "u64 \<Rightarrow> nat \<Rightarrow> 'a machine_scheme \<Rightarrow> 'a machine_scheme"
  assumes acquire: "inv g s \<Longrightarrow> legal r \<Longrightarrow> acquire r s = Inr (x, s') \<Longrightarrow>
      \<exists>g' k. inv g' s' \<and> fits (bytes r) k \<and> (x, k) \<notin> live g s \<and> live g' s' = insert (x, k) (live g s)
        \<and> keeps (live g s) s s' \<and> (\<forall>b \<in> span x k. mem s' b = 0)"
    and release: "inv g s \<Longrightarrow> (x, k) \<in> live g s \<Longrightarrow>
      \<exists>g'. inv g' (release x k s) \<and> live g' (release x k s) = live g s - {(x, k)} \<and> keeps (live g s - {(x, k)}) s (release x k s)"
    and poke: "inv g s \<Longrightarrow> (x, k) \<in> live g s \<Longrightarrow> a \<in> span x k \<Longrightarrow>
      inv g (s\<lparr>mem := (mem s)(a := v)\<rparr>) \<and> live g (s\<lparr>mem := (mem s)(a := v)\<rparr>) = live g s"
    and apart: "inv g s \<Longrightarrow> (x, k) \<in> live g s \<Longrightarrow> (y, l) \<in> live g s \<Longrightarrow> (x, k) \<noteq> (y, l) \<Longrightarrow> span x k \<inter> span y l = {}"
    and region: "inv g s \<Longrightarrow> (x, k) \<in> live g s \<Longrightarrow> 0 < k \<and> k \<le> 2 ^ 64 \<and> x \<noteq> 0"
    and fits_le: "fits n k \<Longrightarrow> n \<le> k"
begin

lemma unique: "inv g s \<Longrightarrow> (x, k) \<in> live g s \<Longrightarrow> (x, l) \<in> live g s \<Longrightarrow> l = k"
proof (rule ccontr)
  assume inv: "inv g s" and x: "(x, k) \<in> live g s" "(x, l) \<in> live g s" and "l \<noteq> k"
  then have "span x k \<inter> span x l = {}" by (intro apart) auto
  moreover have "x \<in> span x k" "x \<in> span x l" using region [OF inv] x by simp_all
  ultimately show False by blast
qed

text \<open>The client holds exactly the regions in use, each with the contents it knows.\<close>

definition holds :: "'g \<Rightarrow> 'a machine_scheme \<Rightarrow> blocks \<Rightarrow> bool" where
  "holds g s B \<longleftrightarrow> inv g s \<and> dom B = fst ` live g s
     \<and> (\<forall>x k bs. (x, k) \<in> live g s \<longrightarrow> B x = Some bs \<longrightarrow> fits (length bs) k \<and> contents (mem s) x bs)"

lemma holdsD:
  assumes "holds g s B"
  shows "inv g s" "dom B = fst ` live g s" "\<And>x k bs. (x, k) \<in> live g s \<Longrightarrow> B x = Some bs \<Longrightarrow> fits (length bs) k"
    "\<And>x k bs. (x, k) \<in> live g s \<Longrightarrow> B x = Some bs \<Longrightarrow> contents (mem s) x bs"
  using assms unfolding holds_def by blast+

lemma holds_start: "inv g s \<Longrightarrow> live g s = {} \<Longrightarrow> holds g s Map.empty"
  by (simp add: holds_def)

lemma holds_block:
  assumes "holds g s B" and "B x = Some bs"
  obtains k where "(x, k) \<in> live g s" "fits (length bs) k" "length bs \<le> k" "contents (mem s) x bs"
proof -
  obtain k where "(x, k) \<in> live g s" using assms(2) holdsD(2) [OF assms(1)] by (metis domI imageE prod.collapse)
  then show ?thesis using that holdsD(3,4) [OF assms(1) _ assms(2)] fits_le by blast
qed

text \<open>Regions an operation keeps still hold the same afterwards.\<close>

lemma holds_keep:
  assumes "holds g s B" and "keeps L s s'" and "(x, k) \<in> live g s" and "(x, k) \<in> L" and "B x = Some bs"
  shows "fits (length bs) k \<and> contents (mem s') x bs"
proof -
  have "fits (length bs) k" "contents (mem s) x bs" "k \<le> 2 ^ 64"
    using holdsD [OF assms(1)] assms(3,5) region by blast+
  then show ?thesis using contents_keeps [OF _ assms(2,4)] fits_le by blast
qed

lemma holds_acquire:
  assumes rep: "holds g s B" and "legal r" and "acquire r s = Inr (x, s')"
  shows "\<exists>g'. holds g' s' (B(x \<mapsto> replicate (bytes r) 0))"
proof -
  note inv = holdsD(1) [OF rep]
  obtain g' k where r: "inv g' s'" "fits (bytes r) k" "(x, k) \<notin> live g s" "live g' s' = insert (x, k) (live g s)"
    "keeps (live g s) s s'" "\<forall>b \<in> span x k. mem s' b = 0" using acquire [OF inv assms(2,3)] by blast
  have x: "(x, k) \<in> live g' s'" using r(4) by blast
  have k: "bytes r \<le> k" "k \<le> 2 ^ 64" using fits_le [OF r(2)] region [OF r(1) x] by simp_all
  have new: "contents (mem s') x (replicate (bytes r) 0)"
    unfolding contents_def using r(6) span_at(1) k by (metis length_replicate less_le_trans nth_replicate)
  have "fits (length bs) j \<and> contents (mem s') y bs"
    if y: "(y, j) \<in> live g' s'" and bs: "(B(x \<mapsto> replicate (bytes r) 0)) y = Some bs" for y j bs
  proof (cases "y = x")
    case True
    then show ?thesis using unique [OF r(1) x, of j] y bs new r(2) by auto
  next
    case False
    then show ?thesis using y bs r(4) by (intro holds_keep [OF rep r(5)]) auto
  qed
  then have "holds g' s' (B(x \<mapsto> replicate (bytes r) 0))" using r(1,4) holdsD(2) [OF rep] unfolding holds_def by auto
  then show ?thesis by blast
qed

lemma holds_release:
  assumes rep: "holds g s B" and k: "(x, k) \<in> live g s"
  shows "\<exists>g'. holds g' (release x k s) (B(x := None))"
proof -
  note inv = holdsD(1) [OF rep]
  obtain g' where r: "inv g' (release x k s)" "live g' (release x k s) = live g s - {(x, k)}"
    "keeps (live g s - {(x, k)}) s (release x k s)" using release [OF inv k] by blast
  have other: "y \<noteq> x" if "(y, j) \<in> live g s - {(x, k)}" for y j using unique [OF inv k] that by auto
  then have "fst ` (live g s - {(x, k)}) = dom B - {x}" unfolding holdsD(2) [OF rep] by force
  moreover have "fits (length cs) j \<and> contents (mem (release x k s)) y cs"
    if "(y, j) \<in> live g s - {(x, k)}" "B y = Some cs" for y j cs
    using that by (intro holds_keep [OF rep r(3)]) auto
  ultimately have "holds g' (release x k s) (B(x := None))" using r(1) unfolding holds_def r(2) by (auto split: if_splits)
  then show ?thesis by blast
qed

lemma holds_write:
  assumes rep: "holds g s B" and x: "B x = Some bs" and i: "i < length bs"
  shows "holds g (s\<lparr>mem := (mem s)(x + of_nat i := v)\<rparr>) (B(x \<mapsto> bs[i := v]))"
proof -
  let ?s = "s\<lparr>mem := (mem s)(x + of_nat i := v)\<rparr>"
  note inv = holdsD(1) [OF rep]
  obtain k where k: "(x, k) \<in> live g s" "fits (length bs) k" "length bs \<le> k" "contents (mem s) x bs" by (rule holds_block [OF rep x])
  have le: "k \<le> 2 ^ 64" using region [OF inv k(1)] by blast
  then have a: "x + of_nat i \<in> span x k" using span_at(1) [of i k x] i k(3) by simp
  note w = poke [OF inv k(1) a, of v]
  have "fits (length cs) j \<and> contents (mem ?s) y cs" if y: "(y, j) \<in> live g s" and cs: "(B(x \<mapsto> bs[i := v])) y = Some cs" for y j cs
  proof (cases "y = x")
    case True
    have "mem ?s (x + of_nat n) = bs[i := v] ! n" if n: "n < length bs" for n
      using offset_eq_iff [of n i x] n i k(3,4) le by (simp add: contents_def nth_list_update)
    then have "contents (mem ?s) x (bs[i := v])" unfolding contents_def length_list_update by blast
    moreover have "cs = bs[i := v]" "j = k" using True cs y unique [OF inv k(1), of j] by simp_all
    ultimately show ?thesis using True k(2) by simp
  next
    case False
    have "b \<noteq> x + of_nat i" if "(z, l) \<in> live g s - {(x, k)}" "b \<in> span z l" for z l b using apart [OF inv k(1)] a that by blast
    then have "keeps (live g s - {(x, k)}) s ?s" by (intro keepsI) (simp del: in_span)
    then show ?thesis using False y cs by (intro holds_keep [OF rep, of "live g s - {(x, k)}"]) auto
  qed
  then show ?thesis using w x holdsD(2) [OF rep] unfolding holds_def by auto
qed

lemma holds_store:
  assumes "holds g s B"
  shows "B x = Some bs \<Longrightarrow> x \<noteq> 0 \<and> contents (mem s) x bs"
    and "B x = Some bs \<Longrightarrow> B y = Some cs \<Longrightarrow> x \<noteq> y \<Longrightarrow> span x (length bs) \<inter> span y (length cs) = {}"
proof -
  note inv = holdsD(1) [OF assms]
  show "x \<noteq> 0 \<and> contents (mem s) x bs" if "B x = Some bs" using holds_block [OF assms that] region [OF inv] by metis
  assume x: "B x = Some bs" and y: "B y = Some cs" and "x \<noteq> y"
  obtain k where k: "(x, k) \<in> live g s" "length bs \<le> k" by (rule holds_block [OF assms x])
  obtain l where l: "(y, l) \<in> live g s" "length cs \<le> l" by (rule holds_block [OF assms y])
  have "span x k \<inter> span y l = {}" using apart [OF inv k(1) l(1)] \<open>x \<noteq> y\<close> by blast
  then show "span x (length bs) \<inter> span y (length cs) = {}" using span_mono [OF k(2), of x] span_mono [OF l(2), of y] by blast
qed

end

end
