(* ===== verification/Ice_Physical.thy ===== *)
theory Ice_Physical
  imports Ice_Bitmap Ice_Regions
begin

text \<open>
  The physical memory manager, \<^verbatim>\<open>kernel/memory/physical.cpp\<close>: a next-fit allocator of runs of
  4 KiB pages over a bitmap. The static variables of the file extend the machine; the boot
  loader's memory map is a list of entries, which \<^verbatim>\<open>init\<close> shrinks by the room it takes for the
  bitmap. An allocation that finds no run panics, a halted run.
\<close>

section \<open>State\<close>

abbreviation page_size :: u64 where "page_size \<equiv> 0x1000"
definition LIMINE_MEMMAP_USABLE :: u64 where
  "LIMINE_MEMMAP_USABLE = 0"

record limine_memmap_entry =
  me_base :: u64
  me_length :: u64
  me_type :: u64

record pmm = machine +
  mem_usable_top :: u64
  last_index :: u64
  bitmap :: bitmap_t
  usable_memory :: u64
  total_memory :: u64
  used_memory :: u64
  mem_top :: u64
  memmaps :: "limine_memmap_entry list"

definition total :: "'a pmm_scheme \<Rightarrow> u64" where
  "total s = total_memory s"

definition usable :: "'a pmm_scheme \<Rightarrow> u64" where
  "usable s = usable_memory s"

definition used :: "'a pmm_scheme \<Rightarrow> u64" where
  "used s = used_memory s"

definition free_size :: "'a pmm_scheme \<Rightarrow> u64" where
  "free_size s = usable_memory s - used_memory s"

section \<open>Operations\<close>

text \<open>\<^verbatim>\<open>bitmap.get(i)\<close> and \<^verbatim>\<open>bitmap.set(i, value)\<close> with a \<^verbatim>\<open>size_t\<close> argument, narrowed to \<^verbatim>\<open>int\<close>.\<close>

definition get_page :: "u64 \<Rightarrow> 'a pmm_scheme \<Rightarrow> bool" where
  "get_page i s = bitmap_get (mem s) (bitmap s) (ucast i)"

definition set_page :: "u64 \<Rightarrow> bool \<Rightarrow> 'a pmm_scheme \<Rightarrow> 'a pmm_scheme" where
  "set_page i v s = s\<lparr>mem := bitmap_set (mem s) (bitmap s) (ucast i) v\<rparr>"

text \<open>\<^verbatim>\<open>for (i = page; i < lim; i++) bitmap.set(i, value)\<close>.\<close>

function set_pages :: "u64 \<Rightarrow> u64 \<Rightarrow> bool \<Rightarrow> 'a pmm_scheme \<Rightarrow> 'a pmm_scheme" where
  "set_pages i lim v s = (if i < lim then set_pages (i + 1) lim v (set_page i v s) else s)"
  by pat_completeness auto
termination
  by (relation "measure (\<lambda>(i, lim, v, s). unat lim - unat i)")
    (auto simp: unat_plus_one word_less_nat_alt)

text \<open>The lambda \<^verbatim>\<open>inner_alloc\<close>; 0 is the null pointer.\<close>

function inner_alloc :: "u64 \<Rightarrow> u64 \<Rightarrow> u64 \<Rightarrow> 'a pmm_scheme \<Rightarrow> u64 \<times> 'a pmm_scheme" where
  "inner_alloc count limit p s =
     (if last_index s < limit then
        let taken = get_page (last_index s) s; s' = s\<lparr>last_index := last_index s + 1\<rparr> in
        if \<not> taken then
          (if p + 1 = count then
             let page = last_index s' - count
             in (page * page_size, set_pages page (last_index s') True s')
           else inner_alloc count limit (p + 1) s')
        else inner_alloc count limit 0 s'
      else (0, s))"
  by pat_completeness auto
termination
  by (relation "measure (\<lambda>(count, limit, p, s). unat limit - unat (last_index s))")
    (auto simp: unat_plus_one word_less_nat_alt Let_def)

definition alloc :: "u64 \<Rightarrow> 'a pmm_scheme \<Rightarrow> (u64, 'a pmm_scheme) run" where
  "alloc count s =
     (if count = 0 then Inr (0, s)
      else
        let i = last_index s;
            (ret1, s1) = inner_alloc count (mem_usable_top s div page_size) 0 s;
            (ret, s2) = (if ret1 = 0 then inner_alloc count i 0 (s1\<lparr>last_index := 0\<rparr>) else (ret1, s1))
        in if ret = 0 then Inl s2
           else Inr (ret, s2\<lparr>mem := memset (mem s2) (tohh (hhdm_offset s2) ret) 0 (count * page_size),
                             used_memory := used_memory s2 + count * page_size\<rparr>))"

definition free :: "u64 \<Rightarrow> u64 \<Rightarrow> 'a pmm_scheme \<Rightarrow> 'a pmm_scheme" where
  "free ptr count s =
     (if ptr = 0 then s
      else
        let page = ptr div page_size; s' = set_pages page (page + count) False s
        in s'\<lparr>last_index := min (last_index s') page, used_memory := used_memory s' - count * page_size\<rparr>)"

subsection \<open>Initialisation\<close>

text \<open>The first loop over the memory map: the sizes and the highest addresses.\<close>

definition survey_entry :: "limine_memmap_entry \<Rightarrow> 'a pmm_scheme \<Rightarrow> 'a pmm_scheme" where
  "survey_entry e s =
     (let top = me_base e + me_length e; s1 = s\<lparr>mem_top := max (mem_top s) top\<rparr> in
      if me_type e = LIMINE_MEMMAP_USABLE
      then s1\<lparr>usable_memory := usable_memory s1 + me_length e, total_memory := total_memory s1 + me_length e,
              mem_usable_top := max (mem_usable_top s1) top\<rparr>
      else s1)"

text \<open>The second loop takes the bitmap from the first usable entry with enough room.\<close>

fun place_bitmap ::
  "u64 \<Rightarrow> limine_memmap_entry list \<Rightarrow> limine_memmap_entry list \<Rightarrow> 'a pmm_scheme \<Rightarrow> 'a pmm_scheme" where
  "place_bitmap bitmap_size done [] s = s"
| "place_bitmap bitmap_size done (e # es) s =
     (if me_type e = LIMINE_MEMMAP_USABLE \<and> me_length e \<ge> bitmap_size then
        let b = reassign (tohh (hhdm_offset s) (me_base e)) bitmap_size (bitmap s);
            e' = e\<lparr>me_length := me_length e - bitmap_size, me_base := me_base e + bitmap_size\<rparr>
        in s\<lparr>bitmap := b, mem := memset (mem s) (bm_buffer b) 0xFF (bm_size b),
             memmaps := done @ e' # es, used_memory := used_memory s + bitmap_size\<rparr>
      else place_bitmap bitmap_size (done @ [e]) es s)"

text \<open>The third loop marks the pages of an entry as free; \<^const>\<open>None\<close> is a run in which \<^verbatim>\<open>t\<close>
  wraps around for ever.\<close>

definition release_entry :: "limine_memmap_entry \<Rightarrow> 'a pmm_scheme \<Rightarrow> 'a pmm_scheme option" where
  "release_entry e s =
     (if me_type e = LIMINE_MEMMAP_USABLE
      then for_step 0 (me_length e) page_size (\<lambda>t. set_page ((me_base e + t) div page_size) False) s
      else Some s)"

fun release_entries :: "limine_memmap_entry list \<Rightarrow> 'a pmm_scheme \<Rightarrow> 'a pmm_scheme option" where
  "release_entries [] s = Some s"
| "release_entries (e # es) s =
     (case release_entry e s of None \<Rightarrow> None | Some s' \<Rightarrow> release_entries es s')"

text \<open>\<^verbatim>\<open>physical::init\<close> up to its last statement, which initialises the slab allocator.\<close>

definition init_pages :: "'a pmm_scheme \<Rightarrow> 'a pmm_scheme option" where
  "init_pages s =
     (let s1 = fold survey_entry (memmaps s) s;
          bitmap_size = align_up (mem_usable_top s1 div page_size div 8) page_size;
          s2 = place_bitmap bitmap_size [] (memmaps s1) s1
      in case release_entries (memmaps s2) s2 of None \<Rightarrow> None
         | Some s3 \<Rightarrow> Some (s3\<lparr>mem_top := align_up (mem_top s3) 0x40000000\<rparr>))"

declare set_pages.simps [simp del] inner_alloc.simps [simp del]

section \<open>Pages as a set of numbers\<close>

definition page_free :: "'a pmm_scheme \<Rightarrow> nat \<Rightarrow> bool" where
  "page_free s n \<longleftrightarrow> \<not> bitmap_get (mem s) (bitmap s) (of_nat n)"

text \<open>The specification of the search: the first page of the leftmost run of \<open>count\<close> free pages
  between \<open>lo\<close> and \<open>hi\<close>.\<close>

definition find_run :: "(nat \<Rightarrow> bool) \<Rightarrow> nat \<Rightarrow> nat \<Rightarrow> nat \<Rightarrow> nat option" where
  "find_run fr count lo hi = find (\<lambda>a. a + count \<le> hi \<and> (\<forall>i \<in> {a..<a + count}. fr i)) [lo..<hi]"

text \<open>Next fit: search from the last position, then once more from the start up to it.\<close>

definition next_fit :: "(nat \<Rightarrow> bool) \<Rightarrow> nat \<Rightarrow> nat \<Rightarrow> nat \<Rightarrow> nat option" where
  "next_fit fr count from hi =
     (case find_run fr count from hi of Some a \<Rightarrow> Some a | None \<Rightarrow> find_run fr count 0 from)"

text \<open>The state after the run from page \<open>a\<close> was taken: marked, cleared and counted.\<close>

definition take_run :: "nat \<Rightarrow> u64 \<Rightarrow> 'a pmm_scheme \<Rightarrow> 'a pmm_scheme" where
  "take_run a count s =
     (let s' = set_pages (of_nat a) (of_nat a + count) True (s\<lparr>last_index := of_nat a + count\<rparr>)
      in s'\<lparr>mem := memset (mem s') (tohh (hhdm_offset s) (of_nat a * page_size)) 0 (count * page_size),
            used_memory := used_memory s + count * page_size\<rparr>)"

abbreviation page_limit :: "'a pmm_scheme \<Rightarrow> nat" where
  "page_limit s \<equiv> unat (mem_usable_top s div page_size)"

lemma find_upt_Some:
  "find P [lo..<hi] = Some a \<longleftrightarrow> lo \<le> a \<and> a < hi \<and> P a \<and> (\<forall>b. lo \<le> b \<and> b < a \<longrightarrow> \<not> P b)"
proof
  assume "find P [lo..<hi] = Some a"
  then obtain i where i: "i < hi - lo" "P (lo + i)" "a = lo + i" "\<And>j. j < i \<Longrightarrow> \<not> P (lo + j)"
    by (auto simp: find_Some_iff)
  then have "\<not> P b" if "lo \<le> b" "b < a" for b using that i(4) [of "b - lo"] by simp
  then show "lo \<le> a \<and> a < hi \<and> P a \<and> (\<forall>b. lo \<le> b \<and> b < a \<longrightarrow> \<not> P b)" using i by simp
next
  assume "lo \<le> a \<and> a < hi \<and> P a \<and> (\<forall>b. lo \<le> b \<and> b < a \<longrightarrow> \<not> P b)"
  then show "find P [lo..<hi] = Some a"
    by (auto simp: find_Some_iff intro!: exI [of _ "a - lo"])
qed

lemma find_run_Some:
  "0 < count \<Longrightarrow> find_run fr count lo hi = Some a \<longleftrightarrow>
    lo \<le> a \<and> a + count \<le> hi \<and> (\<forall>i. a \<le> i \<and> i < a + count \<longrightarrow> fr i)
    \<and> (\<forall>b. lo \<le> b \<and> b < a \<longrightarrow> (\<exists>i. b \<le> i \<and> i < b + count \<and> \<not> fr i))"
proof -
  have "(\<forall>b. lo \<le> b \<and> b < a \<longrightarrow> \<not> (b + count \<le> hi \<and> (\<forall>i. b \<le> i \<and> i < b + count \<longrightarrow> fr i))) \<longleftrightarrow>
    (\<forall>b. lo \<le> b \<and> b < a \<longrightarrow> (\<exists>i. b \<le> i \<and> i < b + count \<and> \<not> fr i))" if "a + count \<le> hi"
    using that by auto
  moreover assume "0 < count"
  ultimately show ?thesis
    unfolding find_run_def find_upt_Some Ball_def atLeastLessThan_iff by auto
qed

lemma find_run_None:
  "0 < count \<Longrightarrow> find_run fr count lo hi = None \<longleftrightarrow>
    (\<forall>a. lo \<le> a \<and> a + count \<le> hi \<longrightarrow> (\<exists>i. a \<le> i \<and> i < a + count \<and> \<not> fr i))"
  unfolding find_run_def find_None_iff Ball_def atLeastLessThan_iff set_upt by auto

lemma find_run_cong: "(\<And>n. n < hi \<Longrightarrow> fr n = fr' n) \<Longrightarrow> find_run fr c lo hi = find_run fr' c lo hi"
  unfolding find_run_def by (intro find_cong) auto

text \<open>The three situations of the scan, which has just seen \<open>p\<close> free pages before page \<open>j\<close>.\<close>

lemma find_run_past: "p < n \<Longrightarrow> hi \<le> j \<Longrightarrow> find_run fr n (j - p) hi = None"
  by (subst find_run_None) auto

lemma find_run_skip:
  assumes "\<not> fr j" and "p < n" and "p \<le> j"
  shows "find_run fr n (j - p) hi = find_run fr n (Suc j) hi"
proof -
  have n: "0 < n" using assms(2) by simp
  have blocked: "\<exists>i. b \<le> i \<and> i < b + n \<and> \<not> fr i" if "j - p \<le> b" "b \<le> j" for b
    using that assms by (intro exI [of _ j]) auto
  show ?thesis
  proof (cases "find_run fr n (Suc j) hi")
    case None
    then have "find_run fr n (j - p) hi = None"
      using blocked unfolding find_run_None [OF n] by (metis not_less_eq_eq)
    then show ?thesis using None by simp
  next
    case (Some a)
    then have "find_run fr n (j - p) hi = Some a"
      using blocked unfolding find_run_Some [OF n] by (metis Suc_leD diff_le_self le_trans not_less_eq_eq)
    then show ?thesis using Some by simp
  qed
qed

lemma find_run_hit:
  assumes "\<forall>i. j - p \<le> i \<and> i \<le> j \<longrightarrow> fr i" and "j < hi" and "p \<le> j"
  shows "find_run fr (Suc p) (j - p) hi = Some (j - p)"
  using assms by (simp add: find_run_Some)

lemma page_free_update [simp]:
  "page_free (s\<lparr>last_index := x\<rparr>) = page_free s" "page_free (s\<lparr>used_memory := y\<rparr>) = page_free s"
  "page_free (s\<lparr>mem_top := y\<rparr>) = page_free s"
  by (simp_all add: page_free_def fun_eq_iff)

lemma ucast_int: "(ucast (i :: u64) :: i32) = of_nat (unat i)"
  by (simp add: word_unat_eq_iff unsigned_ucast_eq unat_of_nat take_bit_eq_mod)

lemma get_page_free: "get_page i s = (\<not> page_free s (unat i))"
  by (simp add: get_page_def page_free_def ucast_int del: of_nat_unat)

lemma set_page_mem: "set_page i v s = s\<lparr>mem := bitmap_set (mem s) (bitmap s) (of_nat (unat i)) v\<rparr>"
  by (simp add: set_page_def ucast_int del: of_nat_unat)

lemma set_pages_mem:
  "set_pages i lim v s =
    s\<lparr>mem := fold (\<lambda>n m. bitmap_set m (bitmap s) (of_nat n) v) [unat i..<unat lim] (mem s)\<rparr>"
proof (induction i lim v s rule: set_pages.induct)
  case (1 i lim v s)
  show ?case
  proof (cases "i < lim")
    case True
    then have "[unat i..<unat lim] = unat i # [unat (i + 1)..<unat lim]"
      by (simp add: unat_plus_one word_less_nat_alt upt_conv_Cons)
    then show ?thesis
      using 1 True by (simp add: set_pages.simps [of i] set_page_mem del: of_nat_unat)
  next
    case False
    then show ?thesis by (simp add: set_pages.simps [of i] word_less_nat_alt)
  qed
qed

lemma page_free_set_pages:
  assumes "unat lim \<le> 2048" and "n < 2048"
  shows "page_free (set_pages i lim v s) n = (if unat i \<le> n \<and> n < unat lim then \<not> v else page_free s n)"
  using bm.get_put_range [OF assms(2,1), of "bitmap s" v "unat i" "mem s"]
  by (simp add: set_pages_mem page_free_def)

text \<open>The search of the code meets its specification, for any limit.\<close>

lemma inner_alloc_find:
  assumes "p < count" and "p \<le> last_index s"
    and "\<forall>i. unat (last_index s) - unat p \<le> i \<and> i < unat (last_index s) \<longrightarrow> page_free s i"
  shows "inner_alloc count limit p s =
    (case find_run (page_free s) (unat count) (unat (last_index s) - unat p) (unat limit) of
       None \<Rightarrow> (0, s\<lparr>last_index := max (last_index s) limit\<rparr>)
     | Some a \<Rightarrow> (of_nat a * page_size,
         set_pages (of_nat a) (of_nat a + count) True (s\<lparr>last_index := of_nat a + count\<rparr>)))"
  using assms
proof (induction count limit p s rule: inner_alloc.induct)
  case (1 count limit p s)
  let ?j = "unat (last_index s)" and ?p = "unat p" and ?n = "unat count"
  have n: "0 < ?n" "?p < ?n" "?p \<le> ?j"
    using 1(3,4) by (auto simp: word_less_nat_alt word_le_nat_alt)
  show ?case
  proof (cases "last_index s < limit")
    case False
    then have "find_run (page_free s) ?n (?j - ?p) (unat limit) = None"
      using n by (intro find_run_past) (simp_all add: word_less_nat_alt)
    then show ?thesis using False by (simp add: inner_alloc.simps [of count limit p s] max_def)
  next
    case True
    then have lim: "?j < unat limit" by (simp add: word_less_nat_alt)
    have suc: "unat (last_index s + 1) = Suc ?j" using True by (rule unat_plus_one)
    have mx: "max (last_index s + 1) limit = max (last_index s) limit"
      using lim suc by (auto simp: max_def word_le_nat_alt)
    show ?thesis
    proof (cases "page_free s ?j")
      case taken: False
      have "find_run (page_free s) ?n (?j - ?p) (unat limit) = find_run (page_free s) ?n (Suc ?j) (unat limit)"
        using taken n by (intro find_run_skip)
      moreover have "0 < count" using n by (simp add: word_less_nat_alt)
      moreover have "\<forall>i. Suc ?j \<le> i \<and> i < Suc ?j \<longrightarrow> page_free s i" by auto
      ultimately show ?thesis
        using 1(2) [OF True refl refl] True taken suc mx
        by (simp add: inner_alloc.simps [of count limit p s] get_page_free Let_def split: option.split)
    next
      case fr: True
      have p1: "unat (p + 1) = Suc ?p" using 1(3) by (rule unat_plus_one)
      have all: "\<forall>i. ?j - ?p \<le> i \<and> i \<le> ?j \<longrightarrow> page_free s i"
        using fr 1(5) by (auto simp: le_less)
      show ?thesis
      proof (cases "p + 1 = count")
        case hit: True
        have "find_run (page_free s) ?n (?j - ?p) (unat limit) = Some (?j - ?p)"
          using find_run_hit [OF all lim n(3)] p1 hit by simp
        moreover have d: "of_nat (?j - ?p) = last_index s - p" using n(3) by (simp add: of_nat_diff)
        then have "last_index s + 1 - count = of_nat (?j - ?p)" "of_nat (?j - ?p) + count = last_index s + 1"
          by (simp_all only: d flip: hit) simp_all
        ultimately show ?thesis
          using True fr hit by (simp add: inner_alloc.simps [of count limit p s] get_page_free Let_def)
      next
        case False
        then have "?n \<noteq> Suc ?p" using p1 by (metis word_unat_eq_iff)
        then have "p + 1 < count" "p + 1 \<le> last_index s + 1" using n p1 suc by (simp_all add: word_less_nat_alt word_le_nat_alt)
        moreover have "\<forall>i. Suc ?j - Suc ?p \<le> i \<and> i < Suc ?j \<longrightarrow> page_free s i" using all by auto
        ultimately show ?thesis
          using 1(1) [OF True refl refl] True fr False suc p1 mx
          by (simp add: inner_alloc.simps [of count limit p s] get_page_free Let_def split: option.split)
      qed
    qed
  qed
qed

section \<open>Allocation\<close>

lemma page_limit_bound: "page_limit s < 2 ^ 52"
proof -
  have "page_limit s = unat (mem_usable_top s) div 4096" by (simp add: unat_div)
  then show ?thesis using unat_less64 [of "mem_usable_top s"] by (simp add: less_mult_imp_div_less)
qed

lemma page_address:
  assumes "a < 2 ^ 52"
  shows "unat (of_nat a * page_size) = a * 4096" and "of_nat a * page_size = 0 \<longleftrightarrow> a = 0"
proof -
  have a: "unat (of_nat a :: u64) = a" using assms by (intro unat_of_nat64) simp
  show "unat (of_nat a * page_size) = a * 4096"
    using assms a by (subst unat_mult_nowrap) simp_all
  then show "of_nat a * page_size = 0 \<longleftrightarrow> a = 0" by (metis mult_eq_0_iff of_nat_0 mult_zero_left unat_0 zero_neq_numeral)
qed

lemma set_pages_fields [simp]:
  "last_index (set_pages i lim v s) = last_index s" "bitmap (set_pages i lim v s) = bitmap s"
  "hhdm_offset (set_pages i lim v s) = hhdm_offset s" "mem_usable_top (set_pages i lim v s) = mem_usable_top s"
  "used_memory (set_pages i lim v s) = used_memory s" "usable_memory (set_pages i lim v s) = usable_memory s"
  "total_memory (set_pages i lim v s) = total_memory s" "mem_top (set_pages i lim v s) = mem_top s"
  "memmaps (set_pages i lim v s) = memmaps s"
  by (simp_all add: set_pages_mem)

text \<open>When page 0 is not free, the allocator is next fit, and a panic leaves the state as it was.\<close>

lemma alloc_next_fit:
  assumes "count \<noteq> 0" and "\<not> page_free s 0" and "last_index s \<le> mem_usable_top s div page_size"
  shows "alloc count s =
    (case next_fit (page_free s) (unat count) (unat (last_index s)) (page_limit s) of
       None \<Rightarrow> Inl s
     | Some a \<Rightarrow> Inr (of_nat a * page_size, take_run a count s))"
proof -
  let ?n = "unat count" and ?i = "unat (last_index s)"
  have n: "0 < ?n" "0 < count" using assms(1) by (simp_all add: word_neq_0_conv unat_gt_0)
  have pos: "of_nat a * page_size \<noteq> 0" if "find_run (page_free s) ?n lo hi = Some a" "hi < 2 ^ 52" for a lo hi
  proof -
    have "a + ?n \<le> hi" "page_free s a" using that(1) n unfolding find_run_Some [OF n(1)] by auto
    then have "a < 2 ^ 52" "a \<noteq> 0" using that(2) assms(2) by (auto intro: gr0I)
    then show ?thesis by (simp add: page_address)
  qed
  have last: "?i < 2 ^ 52" using assms(3) page_limit_bound [of s] by (simp add: word_le_nat_alt)
  have first: "inner_alloc count limit 0 (s\<lparr>last_index := j\<rparr>) =
    (case find_run (page_free s) ?n (unat j) (unat limit) of
       None \<Rightarrow> (0, s\<lparr>last_index := max j limit\<rparr>)
     | Some a \<Rightarrow> (of_nat a * page_size,
         set_pages (of_nat a) (of_nat a + count) True (s\<lparr>last_index := of_nat a + count\<rparr>)))" for limit j
  proof -
    have "\<forall>i. unat j \<le> i \<and> i < unat j \<longrightarrow> page_free s i" by auto
    then show ?thesis
      using inner_alloc_find [of 0 count "s\<lparr>last_index := j\<rparr>" limit] n by (simp split: option.splits)
  qed
  show ?thesis
  proof (cases "find_run (page_free s) ?n ?i (page_limit s)")
    case (Some a)
    then show ?thesis
      using assms(1) pos [OF Some page_limit_bound] first [of "mem_usable_top s div page_size" "last_index s"]
      by (simp add: alloc_def next_fit_def take_run_def Let_def)
  next
    case None
    then have a1: "inner_alloc count (mem_usable_top s div page_size) 0 s = (0, s\<lparr>last_index := mem_usable_top s div page_size\<rparr>)"
      using first [of "mem_usable_top s div page_size" "last_index s"] assms(3) by (simp add: max_def)
    show ?thesis
    proof (cases "find_run (page_free s) ?n 0 ?i")
      case some: (Some a)
      then show ?thesis
        using assms(1) None a1 pos [OF some last] first [of "last_index s" 0]
        by (simp add: alloc_def next_fit_def take_run_def Let_def)
    next
      case none: None
      then show ?thesis
        using assms(1) None a1 first [of "last_index s" 0] by (simp add: alloc_def next_fit_def Let_def)
    qed
  qed
qed

section \<open>The invariant\<close>

definition page_image :: "u64 \<Rightarrow> nat \<Rightarrow> u64 set" where
  "page_image h n = span (h + of_nat n * page_size) 4096"

text \<open>\<open>M\<close> is the set of pages handed over to the manager. At most 2048 pages exist, only managed
  pages are ever free, page 0 is not managed, the direct map covers physical memory and lies
  above it, and the bitmap does not live in a managed page.\<close>

definition pmm_inv :: "nat set \<Rightarrow> 'a pmm_scheme \<Rightarrow> bool" where
  "pmm_inv M s \<longleftrightarrow>
     page_limit s \<le> 2048 \<and> last_index s \<le> mem_usable_top s div page_size
     \<and> \<not> page_free s 0 \<and> (\<forall>n < page_limit s. page_free s n \<longrightarrow> n \<in> M)
     \<and> (\<forall>n \<in> M. 0 < n \<and> n < page_limit s)
     \<and> page_limit s * 4096 \<le> unat (hhdm_offset s) \<and> unat (hhdm_offset s) + page_limit s * 4096 \<le> 2 ^ 64
     \<and> (\<forall>n \<in> M. page_image (hhdm_offset s) n \<inter> span (bm_buffer (bitmap s)) 256 = {})"

lemma page_free_cong:
  assumes "bitmap s' = bitmap s" and "\<And>x. x \<in> span (bm_buffer (bitmap s)) 256 \<Longrightarrow> mem s' x = mem s x"
  shows "page_free s' n = page_free s n"
  using bitmap_get_cong [of "bitmap s" "mem s'" "mem s"] assms by (simp add: page_free_def del: in_span)

lemma set_pages_frame:
  assumes "unat lim \<le> 2048" and "x \<notin> span (bm_buffer (bitmap s)) 256"
  shows "mem (set_pages i lim v s) x = mem s x"
proof -
  have "fold (\<lambda>n m. bitmap_set m (bitmap s) (of_nat n) v) ns m x = m x" if "\<forall>n \<in> set ns. n < 2048" for ns m
    using that assms(2) by (induction ns arbitrary: m) (simp_all add: bitmap_set_frame del: in_span)
  then show ?thesis using assms(1) by (simp add: set_pages_mem)
qed

lemma page_images_disjoint:
  assumes "n \<noteq> p" and "n < k" and "p < k" and "unat h + k * 4096 \<le> 2 ^ 64"
  shows "page_image h n \<inter> page_image h p = {}"
proof -
  have at: "unat (h + of_nat i * page_size) = unat h + i * 4096" if "i < k" for i
  proof -
    have "i * 4096 < 2 ^ 64" "i < 2 ^ 52" using that assms(4) by simp_all
    then show ?thesis
      using that assms(4) page_address(1) [of i] by (subst unat_plus_nowrap) simp_all
  qed
  have "Suc i * 4096 \<le> k * 4096" if "i < k" for i using that by (intro mult_le_mono1) simp
  then have fit: "unat h + i * 4096 + 4096 \<le> 2 ^ 64" if "i < k" for i using that assms(4) by fastforce
  show ?thesis
    unfolding page_image_def using assms fit by (intro span_disjoint_nat) (auto simp: at)
qed

text \<open>The bytes of a run are the bytes of its pages.\<close>

lemma run_images:
  assumes "x \<in> span (h + of_nat a * page_size) (c * 4096)"
  shows "\<exists>n. a \<le> n \<and> n < a + c \<and> x \<in> page_image h n"
proof -
  define k where "k = unat (x - (h + of_nat a * page_size)) div 4096"
  let ?d = "unat (x - (h + of_nat a * page_size))"
  have k: "k < c" using assms by (simp add: k_def less_mult_imp_div_less)
  have kw: "k * 4096 \<le> ?d" by (simp add: k_def)
  have "x - (h + of_nat (a + k) * page_size) = (x - (h + of_nat a * page_size)) - of_nat (k * 4096)"
    by (simp add: algebra_simps)
  moreover have u: "unat (of_nat (k * 4096) :: u64) = k * 4096" 
    using kw unat_less64 by (intro unat_of_nat64) (rule le_less_trans)
  ultimately have "unat (x - (h + of_nat (a + k) * page_size)) = ?d - k * 4096"
    using kw by (simp only: unat_sub word_le_nat_alt u)
  also have "\<dots> < 4096" by (simp add: k_def minus_div_mult_eq_mod)
  finally show ?thesis using k by (intro exI [of _ "a + k"]) (simp add: page_image_def)
qed

lemma pmm_invD:
  assumes "pmm_inv M s"
  shows "page_limit s \<le> 2048" "last_index s \<le> mem_usable_top s div page_size" "\<not> page_free s 0"
    "\<And>n. n < page_limit s \<Longrightarrow> page_free s n \<Longrightarrow> n \<in> M" "\<And>n. n \<in> M \<Longrightarrow> 0 < n \<and> n < page_limit s"
    "page_limit s * 4096 \<le> unat (hhdm_offset s)" "unat (hhdm_offset s) + page_limit s * 4096 \<le> 2 ^ 64"
    "\<And>n x. n \<in> M \<Longrightarrow> x \<in> page_image (hhdm_offset s) n \<Longrightarrow> x \<notin> span (bm_buffer (bitmap s)) 256"
  using assms unfolding pmm_inv_def by (blast+)

text \<open>The bytes of a run of managed pages are outside the bitmap, and the run is reached through
  the direct map.\<close>

lemma managed_run:
  assumes "pmm_inv M s" and "{a..<a + c} \<subseteq> M"
  shows "span (hhdm_offset s + of_nat a * page_size) (c * 4096) \<inter> span (bm_buffer (bitmap s)) 256 = {}"
    and "a < page_limit s \<Longrightarrow> tohh (hhdm_offset s) (of_nat a * page_size) = hhdm_offset s + of_nat a * page_size"
proof -
  show "span (hhdm_offset s + of_nat a * page_size) (c * 4096) \<inter> span (bm_buffer (bitmap s)) 256 = {}"
    using run_images [of _ "hhdm_offset s" a c] pmm_invD(8) [OF assms(1)] assms(2)
    by (fastforce simp del: in_span)
  assume "a < page_limit s"
  then have "unat (of_nat a * page_size) < unat (hhdm_offset s)"
    using page_address(1) [of a] page_limit_bound [of s] pmm_invD(6) [OF assms(1)] by simp
  then have "of_nat a * page_size < hhdm_offset s" by (simp only: word_less_nat_alt)
  from tohh_phys [OF this]
  show "tohh (hhdm_offset s) (of_nat a * page_size) = hhdm_offset s + of_nat a * page_size"
    by (simp add: add.commute)
qed

lemma take_run_effect:
  assumes inv: "pmm_inv M s" and run: "{a..<a + unat count} \<subseteq> M" and lim: "a + unat count \<le> page_limit s"
    and c: "0 < unat count"
  defines "region \<equiv> span (hhdm_offset s + of_nat a * page_size) (unat count * 4096)"
  shows "\<And>n. n < 2048 \<Longrightarrow> page_free (take_run a count s) n = (page_free s n \<and> n \<notin> {a..<a + unat count})"
    and "\<And>x. x \<in> region \<Longrightarrow> mem (take_run a count s) x = 0"
    and "\<And>x. x \<notin> region \<Longrightarrow> x \<notin> span (bm_buffer (bitmap s)) 256 \<Longrightarrow> mem (take_run a count s) x = mem s x"
    and "pmm_inv M (take_run a count s)"
proof -
  let ?b = "span (bm_buffer (bitmap s)) 256" and ?t = "take_run a count s"
  have lim': "a + unat count \<le> 2048" using lim pmm_invD(1) [OF inv] by simp
  then have ua: "unat (of_nat a :: u64) = a" by (simp add: unat_of_nat)
  then have ub: "unat (of_nat a + count) = a + unat count" using lim' by (simp add: unat_plus_nowrap)
  have uc: "unat (count * page_size) = unat count * 4096" using lim' by (simp add: unat_mult_nowrap)
  define s1 where "s1 = set_pages (of_nat a) (of_nat a + count) True (s\<lparr>last_index := of_nat a + count\<rparr>)"
  have mem: "mem ?t x = (if x \<in> region then 0 else mem s1 x)" for x
    using managed_run(2) [OF inv run] lim c
    by (simp add: take_run_def Let_def memset_apply region_def uc s1_def del: in_span)
  have disj: "region \<inter> ?b = {}" unfolding region_def by (rule managed_run(1) [OF inv run])
  have fields: "bitmap ?t = bitmap s" "hhdm_offset ?t = hhdm_offset s" "mem_usable_top ?t = mem_usable_top s"
    "last_index ?t = of_nat a + count" by (simp_all add: take_run_def Let_def)
  show "mem ?t x = 0" if "x \<in> region" for x using that by (simp only: mem if_True)
  show "mem ?t x = mem s x" if "x \<notin> region" "x \<notin> ?b" for x
    using that set_pages_frame [of "of_nat a + count" x "s\<lparr>last_index := of_nat a + count\<rparr>" "of_nat a" True] lim' ub
    by (simp add: mem s1_def del: in_span)
  have free1: "page_free ?t n = page_free s1 n" for n
    using disj mem by (intro page_free_cong) (auto simp: s1_def fields simp del: in_span)
  show free: "page_free ?t n = (page_free s n \<and> n \<notin> {a..<a + unat count})" if "n < 2048" for n
    using lim' ua ub that by (auto simp: free1 s1_def page_free_set_pages)
  have "of_nat a + count \<le> mem_usable_top s div page_size" using lim ub by (simp add: word_le_nat_alt)
  then show "pmm_inv M ?t"
    using inv free pmm_invD(1) [OF inv] unfolding pmm_inv_def fields by auto
qed

lemma next_fit_Some:
  assumes "next_fit fr n from hi = Some a" and "0 < n" and "from \<le> hi"
  shows "a + n \<le> hi \<and> (\<forall>i. a \<le> i \<and> i < a + n \<longrightarrow> fr i)"
  using assms(1,3) by (auto simp: next_fit_def find_run_Some [OF assms(2)] split: option.splits)

lemma next_fit_managed:
  assumes "pmm_inv M s" and "next_fit (page_free s) (unat count) (unat (last_index s)) (page_limit s) = Some a"
    and "count \<noteq> 0"
  shows "{a..<a + unat count} \<subseteq> M" "a + unat count \<le> page_limit s" "0 < unat count" "0 < a"
proof -
  show n: "0 < unat count" using assms(3) by (simp add: unat_gt_0)
  have "a + unat count \<le> page_limit s \<and> (\<forall>i. a \<le> i \<and> i < a + unat count \<longrightarrow> page_free s i)"
    using next_fit_Some [OF assms(2) n] pmm_invD(2) [OF assms(1)] by (simp add: word_le_nat_alt)
  then show "{a..<a + unat count} \<subseteq> M" "a + unat count \<le> page_limit s"
    using pmm_invD(4) [OF assms(1)] by (auto simp del: in_span)
  moreover have "a \<in> {a..<a + unat count}" using n by simp
  ultimately show "0 < a" using pmm_invD(5) [OF assms(1), of a] by blast
qed

text \<open>C5: \<^verbatim>\<open>physical::alloc\<close> is next fit. If it finds a run of the requested number of free pages
  between the last position and the end, or else between the start and the last position, it
  returns its first page's address, which is not null; exactly these pages become used; their
  bytes, seen through the direct map, are zero; no other byte outside the bitmap changes; the
  usage count grows by the size of the run. Otherwise it panics, with nothing changed.\<close>

theorem alloc_correct:
  assumes inv: "pmm_inv M s" and "count \<noteq> 0"
  shows "case next_fit (page_free s) (unat count) (unat (last_index s)) (page_limit s) of
      None \<Rightarrow> alloc count s = Inl s
    | Some a \<Rightarrow> \<exists>s'. alloc count s = Inr (of_nat a * page_size, s') \<and> of_nat a * page_size \<noteq> 0
        \<and> a + unat count \<le> page_limit s \<and> {a..<a + unat count} \<subseteq> {n. page_free s n}
        \<and> (\<forall>n < page_limit s. page_free s' n = (page_free s n \<and> n \<notin> {a..<a + unat count}))
        \<and> (let region = span (hhdm_offset s + of_nat a * page_size) (unat count * 4096) in
            (\<forall>x \<in> region. mem s' x = 0)
            \<and> (\<forall>x. x \<notin> region \<and> x \<notin> span (bm_buffer (bitmap s)) 256 \<longrightarrow> mem s' x = mem s x))
        \<and> used_memory s' = used_memory s + count * page_size \<and> pmm_inv M s'"
proof -
  note eq = alloc_next_fit [OF assms(2) pmm_invD(3,2) [OF inv]]
  show ?thesis
  proof (cases "next_fit (page_free s) (unat count) (unat (last_index s)) (page_limit s)")
    case None
    then show ?thesis by (simp add: eq)
  next
    case (Some a)
    note run = next_fit_managed [OF inv Some assms(2)]
    note eff = take_run_effect [OF inv run(1-3)]
    have "of_nat a * page_size \<noteq> 0"
      using run page_limit_bound [of s] page_address(2) [of a] by simp
    moreover have "{a..<a + unat count} \<subseteq> {n. page_free s n}"
      using next_fit_Some [OF Some run(3)] pmm_invD(2) [OF inv] by (auto simp: word_le_nat_alt)
    moreover have "\<forall>n < page_limit s. page_free (take_run a count s) n = (page_free s n \<and> n \<notin> {a..<a + unat count})"
      using eff(1) pmm_invD(1) [OF inv] by simp
    moreover have "used_memory (take_run a count s) = used_memory s + count * page_size"
      by (simp add: take_run_def Let_def)
    ultimately show ?thesis
      using Some run(2) eff(2-4) by (simp add: eq del: in_span)
  qed
qed

text \<open>A machine with sixteen pages of memory: page 0 is reserved, page 1 holds the bitmap.\<close>

definition sixteen_pages :: pmm where
  "sixteen_pages = \<lparr>mem = \<lambda>x. if x = 0x101000 then 3 else 0, hhdm_offset = 0x100000,
     mem_usable_top = 0x10000, last_index = 2, bitmap = \<lparr>bm_buffer = 0x101000, bm_size = 0x1000\<rparr>,
     usable_memory = 0xF000, total_memory = 0xF000, used_memory = 0x1000, mem_top = 0x40000000, memmaps = []\<rparr>"

lemma sixteen_pages_simps:
  "hhdm_offset sixteen_pages = 0x100000" "mem_usable_top sixteen_pages = 0x10000" "last_index sixteen_pages = 2"
  "bm_buffer (bitmap sixteen_pages) = 0x101000" "page_limit sixteen_pages = 16"
  "mem sixteen_pages x = (if x = 0x101000 then 3 else 0)"
  by (simp_all add: sixteen_pages_def unat_div)

lemma sixteen_pages_free:
  assumes "n < 2048"
  shows "page_free sixteen_pages n \<longleftrightarrow> 2 \<le> n"
proof -
  have q: "n div 8 < 256" using assms by linarith
  have at: "(0x101000 :: u64) + of_nat (n div 8) = 0x101000 \<longleftrightarrow> n div 8 = 0"
    using offset_eq_iff [of "n div 8" 0 "0x101000"] q by simp
  have three: "bit (3 :: u8) k \<longleftrightarrow> k < 2" for k
    using bit_mask_iff [where 'a = u8, of 2 k] by (auto simp: mask_eq_exp_minus_1)
  have "n < 2 ^ 31" using assms by simp
  then have "page_free sixteen_pages n \<longleftrightarrow>
      \<not> bit (if 0x101000 + of_nat (n div 8) = (0x101000 :: u64) then 3 else 0 :: u8) (n mod 8)"
    unfolding page_free_def using q by (subst bitmap_get_bit) (simp_all only: sixteen_pages_simps mod_less)
  also have "\<dots> \<longleftrightarrow> \<not> (n div 8 = 0 \<and> n mod 8 < 2)"
    unfolding at by (cases "n div 8 = 0") (simp only: three simp_thms if_True, simp)
  also have "\<dots> \<longleftrightarrow> 2 \<le> n" by (cases "n < 8") auto
  finally show ?thesis .
qed

lemma sixteen_pages_inv: "pmm_inv {2..<16} sixteen_pages"
proof -
  have "page_image 0x100000 n \<inter> span 0x101000 256 = {}" if "2 \<le> n" "n < 16" for n
    unfolding page_image_def
    using that page_address(1) [of n] by (intro span_disjoint_nat) (simp_all add: unat_plus_nowrap)
  then show ?thesis
    unfolding pmm_inv_def sixteen_pages_simps
    by (auto simp: sixteen_pages_free)
qed

lemma sixteen_pages_fit: "next_fit (page_free sixteen_pages) 2 2 16 = Some 2"
proof -
  have "find_run (page_free sixteen_pages) 2 2 16 = Some 2"
    by (auto simp: find_run_Some sixteen_pages_free)
  then show ?thesis by (simp add: next_fit_def)
qed

theorem alloc_correct_witness:
  "\<exists>s'. alloc 2 sixteen_pages = Inr (0x2000, s') \<and> \<not> page_free s' 2 \<and> \<not> page_free s' 3 \<and> page_free s' 4"
proof -
  have fit: "next_fit (page_free sixteen_pages) (unat (2 :: u64)) (unat (last_index sixteen_pages)) (page_limit sixteen_pages) = Some 2"
    by (simp add: sixteen_pages_fit sixteen_pages_simps)
  have "(2 :: u64) \<noteq> 0" by simp
  from alloc_correct [OF sixteen_pages_inv this, unfolded fit]
  show ?thesis by (auto simp: sixteen_pages_simps sixteen_pages_free)
qed

section \<open>Release\<close>

lemma free_effect:
  assumes inv: "pmm_inv M s" and run: "{a..<a + unat count} \<subseteq> M" and c: "0 < unat count"
    and lim: "a + unat count \<le> page_limit s"
  defines "t \<equiv> free (of_nat a * page_size) count s"
  shows "\<And>n. n < 2048 \<Longrightarrow> page_free t n = (page_free s n \<or> n \<in> {a..<a + unat count})"
    and "\<And>x. x \<notin> span (bm_buffer (bitmap s)) 256 \<Longrightarrow> mem t x = mem s x"
    and "used_memory t = used_memory s - count * page_size"
    and "last_index t = min (last_index s) (of_nat a)" and "pmm_inv M t"
proof -
  have lim': "a + unat count \<le> 2048" using lim pmm_invD(1) [OF inv] by simp
  then have ua: "unat (of_nat a :: u64) = a" by (simp add: unat_of_nat)
  then have ub: "unat (of_nat a + count) = a + unat count" using lim' by (simp add: unat_plus_nowrap)
  have "a \<in> {a..<a + unat count}" using c by simp
  then have a0: "0 < a" using pmm_invD(5) [OF inv, of a] run by blast
  have pa: "unat (of_nat a * page_size) = a * 4096" using lim' by (intro page_address) simp
  then have div: "of_nat a * page_size div page_size = of_nat a"
    by (simp add: word_unat_eq_iff [where 'a = 64] unat_div ua)
  have nz: "of_nat a * page_size \<noteq> 0" using pa a0 by (metis mult_eq_0_iff not_gr0 unat_0 zero_neq_numeral)
  have t: "t = (set_pages (of_nat a) (of_nat a + count) False s)
      \<lparr>last_index := min (last_index s) (of_nat a), used_memory := used_memory s - count * page_size\<rparr>"
    using nz by (simp add: t_def free_def Let_def div)
  show "used_memory t = used_memory s - count * page_size" "last_index t = min (last_index s) (of_nat a)"
    by (simp_all add: t)
  show "mem t x = mem s x" if "x \<notin> span (bm_buffer (bitmap s)) 256" for x
    using set_pages_frame [OF _ that] lim' ub by (simp add: t del: in_span)
  show fr: "page_free t n = (page_free s n \<or> n \<in> {a..<a + unat count})" if "n < 2048" for n
    using lim' ua ub that by (auto simp: t page_free_set_pages)
  have fields: "bitmap t = bitmap s" "hhdm_offset t = hhdm_offset s" "mem_usable_top t = mem_usable_top s"
    by (simp_all add: t)
  have "last_index t \<le> mem_usable_top s div page_size"
    using pmm_invD(2) [OF inv] by (simp add: t min.coboundedI1)
  then show "pmm_inv M t"
    using inv fr run a0 pmm_invD(1) [OF inv] unfolding pmm_inv_def fields by auto
qed

lemma alloc_cases:
  assumes "pmm_inv M s" and "count \<noteq> 0" and "alloc count s = Inr (ret, s')"
  obtains a where "ret = of_nat a * page_size" "s' = take_run a count s" "unat ret div 4096 = a"
    "{a..<a + unat count} \<subseteq> M" "a + unat count \<le> page_limit s" "0 < unat count"
    "\<And>i. a \<le> i \<Longrightarrow> i < a + unat count \<Longrightarrow> page_free s i"
proof (cases "next_fit (page_free s) (unat count) (unat (last_index s)) (page_limit s)")
  case None
  then show ?thesis
    using alloc_next_fit [OF assms(2) pmm_invD(3,2) [OF assms(1)]] assms(3) by simp
next
  case (Some a)
  note run = next_fit_managed [OF assms(1) Some assms(2)]
  have "ret = of_nat a * page_size" "s' = take_run a count s"
    using alloc_next_fit [OF assms(2) pmm_invD(3,2) [OF assms(1)]] assms(3) Some by simp_all
  moreover have "unat (of_nat a * page_size) = a * 4096"
    using run(2) page_limit_bound [of s] by (intro page_address) linarith
  ultimately show ?thesis
    using run next_fit_Some [OF Some run(3)] pmm_invD(2) [OF assms(1)] that [of a] by (simp add: word_le_nat_alt)
qed

lemma take_run_fields [simp]:
  "bitmap (take_run a count s) = bitmap s" "hhdm_offset (take_run a count s) = hhdm_offset s"
  "mem_usable_top (take_run a count s) = mem_usable_top s" "last_index (take_run a count s) = of_nat a + count"
  "used_memory (take_run a count s) = used_memory s + count * page_size"
  by (simp_all add: take_run_def Let_def)

text \<open>Freeing what \<^verbatim>\<open>physical::alloc\<close> returned gives back the same set of free pages and the
  same usage, changes no byte outside the bitmap, and lets the next search start at or before
  the freed run.\<close>

theorem alloc_free_roundtrip:
  assumes inv: "pmm_inv M s" and "count \<noteq> 0" and alloc: "alloc count s = Inr (ret, s')"
  defines "t \<equiv> free ret count s'"
  shows "(\<forall>n < page_limit s. page_free t n = page_free s n) \<and> used_memory t = used_memory s
    \<and> (\<forall>x. x \<notin> span (bm_buffer (bitmap s)) 256 \<longrightarrow> mem t x = mem s' x)
    \<and> last_index t \<le> ret div page_size \<and> pmm_inv M t"
proof -
  obtain a where a: "ret = of_nat a * page_size" "s' = take_run a count s" "unat ret div 4096 = a"
    "{a..<a + unat count} \<subseteq> M" "a + unat count \<le> page_limit s" "0 < unat count"
    "\<And>i. a \<le> i \<Longrightarrow> i < a + unat count \<Longrightarrow> page_free s i"
    using alloc_cases [OF assms(1-3)] by blast
  note taken = take_run_effect [OF inv a(4-6)]
  have lim: "a + unat count \<le> page_limit s'" using a by simp
  note freed = free_effect [OF taken(4) a(4,6), folded a(1,2), OF lim, folded t_def]
  have "page_free t n = page_free s n" if "n < page_limit s" for n
    using that freed(1) [of n] taken(1) [of n] a(2,7) pmm_invD(1) [OF inv] by auto
  moreover have "unat (of_nat a :: u64) = a"
    using a(5) page_limit_bound [of s] by (intro unat_of_nat64) simp
  then have "of_nat a = ret div page_size"
    using a(3) by (simp add: word_unat_eq_iff [where 'a = 64] unat_div)
  ultimately show ?thesis using freed(2-5) a(2) by simp
qed

theorem alloc_free_roundtrip_witness:
  "\<exists>s'. alloc 2 sixteen_pages = Inr (0x2000, s') \<and> page_free (free 0x2000 2 s') 3
    \<and> used_memory (free 0x2000 2 s') = 0x1000"
proof -
  obtain s' where s': "alloc 2 sixteen_pages = Inr (0x2000, s')"
    using alloc_next_fit [of 2 sixteen_pages] pmm_invD(2,3) [OF sixteen_pages_inv] sixteen_pages_fit
    by (simp add: sixteen_pages_simps)
  have "used_memory sixteen_pages = 0x1000" by (simp add: sixteen_pages_def)
  then show ?thesis
    using s' alloc_free_roundtrip [OF sixteen_pages_inv _ s'] by (simp add: sixteen_pages_simps sixteen_pages_free)
qed

section \<open>Clients of the manager\<close>

text \<open>The states a client can bring about with the runs it owns (the first page and the length of
  each): allocate, free an owned run, write inside an owned run.\<close>

inductive pmm_run :: "'a pmm_scheme \<Rightarrow> 'a pmm_scheme \<Rightarrow> (nat \<rightharpoonup> nat) \<Rightarrow> bool" for s0 where
  start: "pmm_run s0 s0 Map.empty"
| alloc: "pmm_run s0 s owned \<Longrightarrow> count \<noteq> 0 \<Longrightarrow> alloc count s = Inr (ret, s') \<Longrightarrow>
    pmm_run s0 s' (owned(unat ret div 4096 \<mapsto> unat count))"
| free: "pmm_run s0 s owned \<Longrightarrow> owned a = Some c \<Longrightarrow>
    pmm_run s0 (free (of_nat a * page_size) (of_nat c) s) (owned(a := None))"
| store: "pmm_run s0 s owned \<Longrightarrow> owned a = Some c \<Longrightarrow>
    x \<in> span (hhdm_offset s + of_nat a * page_size) (c * 4096) \<Longrightarrow> pmm_run s0 (s\<lparr>mem := (mem s)(x := v)\<rparr>) owned"

text \<open>Managed pages are either free or in exactly one owned run.\<close>

definition partition_inv :: "nat set \<Rightarrow> 'a pmm_scheme \<Rightarrow> (nat \<rightharpoonup> nat) \<Rightarrow> bool" where
  "partition_inv M s owned \<longleftrightarrow> pmm_inv M s
     \<and> (\<forall>a c. owned a = Some c \<longrightarrow> 0 < c \<and> {a..<a + c} \<subseteq> M)
     \<and> (\<forall>a c b d. owned a = Some c \<longrightarrow> owned b = Some d \<longrightarrow> a \<noteq> b \<longrightarrow> {a..<a + c} \<inter> {b..<b + d} = {})
     \<and> (\<forall>n \<in> M. page_free s n \<longleftrightarrow> (\<forall>a c. owned a = Some c \<longrightarrow> n \<notin> {a..<a + c}))"

lemma partition_alloc:
  assumes p: "partition_inv M s owned" and "count \<noteq> 0" and "alloc count s = Inr (ret, s')"
  shows "partition_inv M s' (owned(unat ret div 4096 \<mapsto> unat count))"
proof -
  have inv: "pmm_inv M s" using p by (simp add: partition_inv_def)
  obtain a where a: "s' = take_run a count s" "unat ret div 4096 = a"
    "{a..<a + unat count} \<subseteq> M" "a + unat count \<le> page_limit s" "0 < unat count"
    "\<And>i. a \<le> i \<Longrightarrow> i < a + unat count \<Longrightarrow> page_free s i"
    using alloc_cases [OF inv assms(2,3)] by blast
  note eff = take_run_effect [OF inv a(3-5)]
  have M: "\<And>n. n \<in> M \<Longrightarrow> n < 2048" using pmm_invD(1,5) [OF inv] by force
  have new: "{a..<a + unat count} \<inter> {b..<b + d} = {}" if "owned b = Some d" for b d
  proof -
    have "\<not> page_free s n" if "n \<in> {b..<b + d}" for n
      using p that \<open>owned b = Some d\<close> unfolding partition_inv_def by blast
    then show ?thesis using a(6) by fastforce
  qed
  have "page_free s' n \<longleftrightarrow> (\<forall>b d. (owned(a \<mapsto> unat count)) b = Some d \<longrightarrow> n \<notin> {b..<b + d})" if "n \<in> M" for n
  proof -
    have "owned a = None" using p new [of a] a(5) unfolding partition_inv_def by (cases "owned a") fastforce+
    then show ?thesis
      using p that eff(1) [OF M [OF that]] unfolding partition_inv_def a(1) by (auto split: if_splits)
  qed
  then show ?thesis
    using p a(3,5) new eff(4) unfolding partition_inv_def a(1,2) by (auto split: if_splits)
qed

lemma partition_free:
  assumes p: "partition_inv M s owned" and own: "owned a = Some c"
  shows "partition_inv M (free (of_nat a * page_size) (of_nat c) s) (owned(a := None))"
proof -
  have inv: "pmm_inv M s" and c: "0 < c" and run: "{a..<a + c} \<subseteq> M"
    using p own by (auto simp: partition_inv_def)
  have M: "\<And>n. n \<in> M \<Longrightarrow> n < page_limit s" using pmm_invD(5) [OF inv] by blast
  have "a + c - 1 \<in> M" using run c by auto
  then have lim: "a + c \<le> page_limit s" using M [of "a + c - 1"] c by simp
  have uc: "unat (of_nat c :: u64) = c" using lim page_limit_bound [of s] by (intro unat_of_nat64) simp
  note eff = free_effect [OF inv, of a "of_nat c", unfolded uc, OF run c lim]
  have "page_free (free (of_nat a * page_size) (of_nat c) s) n \<longleftrightarrow>
    (\<forall>b d. (owned(a := None)) b = Some d \<longrightarrow> n \<notin> {b..<b + d})" if n: "n \<in> M" for n
  proof -
    have "page_free s n \<longleftrightarrow> (\<forall>b d. owned b = Some d \<longrightarrow> n \<notin> {b..<b + d})"
      using p n by (simp add: partition_inv_def)
    moreover have "n \<notin> {b..<b + d}" if "owned b = Some d" "b \<noteq> a" "n \<in> {a..<a + c}" for b d
      using p own that unfolding partition_inv_def by blast
    moreover have "n < 2048" using M [OF n] pmm_invD(1) [OF inv] by simp
    ultimately show ?thesis
      using eff(1) [of n] own by (cases "n \<in> {a..<a + c}") (auto simp only: fun_upd_apply split: if_splits)
  qed
  then show ?thesis
    using p eff(5) unfolding partition_inv_def by (auto split: if_splits)
qed

lemma partition_store:
  assumes p: "partition_inv M s owned" and own: "owned a = Some c"
    and x: "x \<in> span (hhdm_offset s + of_nat a * page_size) (c * 4096)"
  shows "partition_inv M (s\<lparr>mem := (mem s)(x := v)\<rparr>) owned"
proof -
  have inv: "pmm_inv M s" and run: "{a..<a + c} \<subseteq> M" using p own by (auto simp: partition_inv_def)
  have "x \<notin> span (bm_buffer (bitmap s)) 256" using managed_run(1) [OF inv run] x by blast
  then have same: "page_free (s\<lparr>mem := (mem s)(x := v)\<rparr>) n = page_free s n" for n
    by (intro page_free_cong) auto
  then have "pmm_inv M (s\<lparr>mem := (mem s)(x := v)\<rparr>)" using inv by (simp add: pmm_inv_def)
  then show ?thesis using p unfolding partition_inv_def same by blast
qed

lemma inner_alloc_top: "mem_usable_top (snd (inner_alloc count limit p s)) = mem_usable_top s"
proof (induction count limit p s rule: inner_alloc.induct)
  case (1 count limit p s)
  then show ?case by (subst inner_alloc.simps) (auto simp: Let_def set_pages_mem)
qed

lemma alloc_top:
  assumes "alloc c s = Inr (r, s')"
  shows "mem_usable_top s' = mem_usable_top s"
proof -
  obtain r1 s1 where 1: "inner_alloc c (mem_usable_top s div page_size) 0 s = (r1, s1)" by fastforce
  obtain r2 s2 where 2: "inner_alloc c (last_index s) 0 (s1\<lparr>last_index := 0\<rparr>) = (r2, s2)" by fastforce
  have "mem_usable_top s1 = mem_usable_top s" "mem_usable_top s2 = mem_usable_top s1"
    using inner_alloc_top [of c "mem_usable_top s div page_size" 0 s] inner_alloc_top [of c "last_index s" 0 "s1\<lparr>last_index := 0\<rparr>"] 1 2
    by simp_all
  then show ?thesis using assms unfolding alloc_def Let_def 1 by (auto simp: 2 split: if_splits)
qed

text \<open>Memory that was never handed out: from page \<open>f\<close> on, which the search has not passed, all pages
  are free. While it lasts, allocations succeed.\<close>

definition fresh :: "nat \<Rightarrow> 'a pmm_scheme \<Rightarrow> bool" where
  "fresh f s \<longleftrightarrow> unat (last_index s) \<le> f \<and> f \<le> page_limit s \<and> (\<forall>n. f \<le> n \<and> n < page_limit s \<longrightarrow> page_free s n)"

lemma fresh_cong:
  assumes "last_index s' = last_index s" and "mem_usable_top s' = mem_usable_top s" and "\<And>n. page_free s' n = page_free s n"
  shows "fresh f s' = fresh f s"
  using assms by (simp add: fresh_def)

lemma fresh_mono: "fresh f s \<Longrightarrow> f \<le> g \<Longrightarrow> g \<le> page_limit s \<Longrightarrow> fresh g s"
  by (auto simp: fresh_def)

lemma alloc_fresh:
  assumes inv: "pmm_inv M s" and c: "count \<noteq> 0" and f: "fresh f s" "f + unat count \<le> page_limit s"
  obtains ret s' where "alloc count s = Inr (ret, s')" "fresh (f + unat count) s'" "mem_usable_top s' = mem_usable_top s"
proof -
  let ?c = "unat count" and ?l = "unat (last_index s)"
  have c0: "0 < ?c" using c by (simp add: unat_gt_0)
  have run: "?l \<le> f" "\<And>i. f \<le> i \<Longrightarrow> i < f + ?c \<Longrightarrow> page_free s i" using f by (auto simp: fresh_def)
  have "find_run (page_free s) ?c ?l (page_limit s) \<noteq> None" unfolding find_run_None [OF c0] using run f(2) by blast
  then obtain a where a: "find_run (page_free s) ?c ?l (page_limit s) = Some a" by blast
  then have al: "alloc count s = Inr (of_nat a * page_size, take_run a count s)"
    using alloc_next_fit [OF c pmm_invD(3,2) [OF inv]] by (simp add: next_fit_def)
  note first = a [unfolded find_run_Some [OF c0]]
  have af: "a + ?c \<le> page_limit s" using first by blast
  have "a \<le> f"
  proof (rule ccontr)
    assume "\<not> a \<le> f"
    then obtain i where "f \<le> i" "i < f + ?c" "\<not> page_free s i" using first run(1) by (meson not_le)
    then show False using run(2) by blast
  qed
  have M: "{a..<a + ?c} \<subseteq> M"
  proof
    fix i assume "i \<in> {a..<a + ?c}"
    then have "i < page_limit s" "page_free s i" using first af by auto
    then show "i \<in> M" by (rule pmm_invD(4) [OF inv])
  qed
  note eff = take_run_effect(1) [OF inv M af c0]
  have "unat (of_nat a + count) = a + ?c"
    using af page_limit_bound [of s] by (subst unat_plus_nowrap) (simp_all add: unat_of_nat64)
  then have "fresh (f + ?c) (take_run a count s)"
    using f \<open>a \<le> f\<close> eff pmm_invD(1) [OF inv] by (auto simp: fresh_def)
  then show ?thesis using that [OF al] by simp
qed

text \<open>C3: No page is ever handed out twice and none is lost. Whatever sequence of allocations,
  releases of owned runs and stores into owned runs a client performs, its runs are pairwise
  disjoint and consist of managed pages, and a managed page is free exactly when it lies in no
  owned run.\<close>

theorem pmm_no_overlap:
  assumes "pmm_run s0 s owned" and "pmm_inv M s0" and "\<forall>n \<in> M. page_free s0 n"
  shows "(\<forall>a c. owned a = Some c \<longrightarrow> 0 < c \<and> {a..<a + c} \<subseteq> M)
    \<and> (\<forall>a c b d. owned a = Some c \<longrightarrow> owned b = Some d \<longrightarrow> a \<noteq> b \<longrightarrow> {a..<a + c} \<inter> {b..<b + d} = {})
    \<and> (\<forall>n \<in> M. page_free s n \<longleftrightarrow> (\<forall>a c. owned a = Some c \<longrightarrow> n \<notin> {a..<a + c}))
    \<and> pmm_inv M s"
proof -
  have "partition_inv M s owned"
    using assms(1)
  proof induction
    case start
    then show ?case using assms(2,3) by (simp add: partition_inv_def)
  next
    case alloc
    then show ?case by (intro partition_alloc)
  next
    case free
    then show ?case by (intro partition_free)
  next
    case store
    then show ?case by (intro partition_store)
  qed
  then show ?thesis unfolding partition_inv_def by blast
qed

theorem pmm_no_overlap_witness:
  "\<exists>s. pmm_run sixteen_pages s [2 \<mapsto> 2] \<and> \<not> page_free s 3 \<and> page_free s 4"
proof -
  obtain s' where s': "alloc 2 sixteen_pages = Inr (0x2000, s')"
    using alloc_next_fit [of 2 sixteen_pages] pmm_invD(2,3) [OF sixteen_pages_inv] sixteen_pages_fit
    by (simp add: sixteen_pages_simps)
  have run: "pmm_run sixteen_pages s' [2 \<mapsto> 2]"
    using pmm_run.alloc [OF pmm_run.start _ s'] by simp
  have "\<forall>n \<in> {2..<16}. page_free sixteen_pages n" by (auto simp: sixteen_pages_free)
  from pmm_no_overlap [OF run sixteen_pages_inv this]
  have "\<forall>n \<in> {2..<16}. page_free s' n \<longleftrightarrow> (\<forall>a c. [2 \<mapsto> 2] a = Some c \<longrightarrow> n \<notin> {a..<a + c})" by blast
  from bspec [OF this, of 3] bspec [OF this, of 4] have "\<not> page_free s' 3" "page_free s' 4"
    by (auto split: if_splits)
  then show ?thesis using run by blast
qed

lemma find_run_1:
  assumes "fr n" "lo \<le> n" "n < hi"
  shows "find_run fr 1 lo hi \<noteq> None"
proof
  assume "find_run fr 1 lo hi = None"
  then have "n + 1 \<le> hi \<longrightarrow> (\<exists>i. n \<le> i \<and> i < n + 1 \<and> \<not> fr i)"
    using assms(2) by (simp only: find_run_None [OF zero_less_one]) blast
  then obtain i where "n \<le> i" "i < n + 1" "\<not> fr i" using assms(3) by auto
  moreover from this have "i = n" by simp
  ultimately show False using assms(1) by simp
qed

lemma alloc_1_returns:
  assumes inv: "pmm_inv M s" and n: "n < page_limit s" "page_free s n"
  shows "\<not> halted (alloc 1 s)"
proof (cases "unat (last_index s) \<le> n")
  case True
  show ?thesis
    using alloc_next_fit [of 1 s] pmm_invD(2,3) [OF inv] find_run_1 [of "page_free s", OF n(2) True n(1)]
    by (auto simp: next_fit_def split: option.split)
next
  case False
  then show ?thesis
    using alloc_next_fit [of 1 s] pmm_invD(2,3) [OF inv]
      find_run_1 [of "page_free s" n 0 "unat (last_index s)"] n(2)
    by (auto simp: next_fit_def split: option.split)
qed

text \<open>C25: The search does not wrap around: a run of free pages that begins before the last position
  and ends after it is not found, so that the manager can panic although enough adjacent pages
  are free. A single page is always found when one is free.\<close>

theorem alloc_panics:
  assumes inv: "pmm_inv M s" and "count \<noteq> 0"
  shows "(halted (alloc count s) \<longleftrightarrow>
      (\<forall>a. a + unat count \<le> page_limit s \<and> (unat (last_index s) \<le> a \<or> a + unat count \<le> unat (last_index s))
        \<longrightarrow> (\<exists>i. a \<le> i \<and> i < a + unat count \<and> \<not> page_free s i)))
    \<and> (halted (alloc 1 s) \<longleftrightarrow> (\<forall>n < page_limit s. \<not> page_free s n))"
proof -
  have panics: "halted (alloc c s) \<longleftrightarrow>
      (\<forall>a. a + unat c \<le> page_limit s \<and> (unat (last_index s) \<le> a \<or> a + unat c \<le> unat (last_index s))
        \<longrightarrow> (\<exists>i. a \<le> i \<and> i < a + unat c \<and> \<not> page_free s i))" if c: "c \<noteq> 0" for c
  proof -
    have n: "0 < unat c" using c by (simp add: unat_gt_0)
    have "halted (alloc c s) \<longleftrightarrow> next_fit (page_free s) (unat c) (unat (last_index s)) (page_limit s) = None"
      using alloc_next_fit [OF c pmm_invD(3,2) [OF inv]] by (simp split: option.split)
    also have "\<dots> \<longleftrightarrow> find_run (page_free s) (unat c) (unat (last_index s)) (page_limit s) = None
      \<and> find_run (page_free s) (unat c) 0 (unat (last_index s)) = None"
      by (simp add: next_fit_def split: option.split)
    finally have "halted (alloc c s) \<longleftrightarrow>
        find_run (page_free s) (unat c) (unat (last_index s)) (page_limit s) = None
      \<and> find_run (page_free s) (unat c) 0 (unat (last_index s)) = None" .
    moreover have "(\<forall>a. lo \<le> a \<and> a + k \<le> hi \<longrightarrow> Q a) \<and> (\<forall>a. 0 \<le> a \<and> a + k \<le> lo \<longrightarrow> Q a) \<longleftrightarrow>
        (\<forall>a. a + k \<le> hi \<and> (lo \<le> a \<or> a + k \<le> lo) \<longrightarrow> Q a)" if "lo \<le> hi" for lo hi k :: nat and Q
      using that by (auto dest: order_trans [OF _ that])
    ultimately show ?thesis
      using pmm_invD(2) [OF inv] unfolding find_run_None [OF n] word_le_nat_alt by (simp only:)
  qed
  have "(\<forall>a. a + 1 \<le> page_limit s \<and> (unat (last_index s) \<le> a \<or> a + 1 \<le> unat (last_index s))
        \<longrightarrow> (\<exists>i. a \<le> i \<and> i < a + 1 \<and> \<not> page_free s i)) \<longleftrightarrow> (\<forall>n < page_limit s. \<not> page_free s n)"
  proof -
    have "unat (last_index s) \<le> a \<or> a + 1 \<le> unat (last_index s)" for a by linarith
    moreover have "(\<exists>i. a \<le> i \<and> i < a + 1 \<and> \<not> page_free s i) \<longleftrightarrow> \<not> page_free s a" for a
      using antisym_conv by (auto simp: less_Suc_eq_le)
    ultimately show ?thesis by (simp only: simp_thms Suc_eq_plus1 [symmetric] Suc_le_eq)
  qed
  then show ?thesis using panics [OF assms(2)] panics [of 1] by simp
qed

theorem alloc_panics_witness:
  "halted (alloc 10 (sixteen_pages\<lparr>last_index := 8\<rparr>)) \<and> {2..<16} \<subseteq> Collect (page_free (sixteen_pages\<lparr>last_index := 8\<rparr>))"
proof -
  let ?s = "sixteen_pages\<lparr>last_index := 8\<rparr>"
  have inv: "pmm_inv {2..<16} ?s"
    using sixteen_pages_inv by (simp add: pmm_inv_def sixteen_pages_simps word_le_nat_alt)
  have lim: "page_limit ?s = 16" "unat (last_index ?s) = 8" "unat (10 :: u64) = 10" "(10 :: u64) \<noteq> 0"
    by (simp_all add: sixteen_pages_simps)
  have "\<not> (a + 10 \<le> 16 \<and> (8 \<le> a \<or> a + 10 \<le> 8))" for a :: nat by arith
  then have "halted (alloc 10 ?s)"
    using alloc_panics [OF inv lim(4)] unfolding lim by blast
  then show ?thesis by (auto simp: sixteen_pages_free)
qed

section \<open>More than 2048 pages\<close>

text \<open>Marking a page from 2048 on changes nothing that a later search can see.\<close>

lemma page_free_high:
  assumes "2048 \<le> unat i" and "unat lim \<le> 524288" and "n < 2 ^ 31"
  shows "page_free (set_pages i lim v s) n = page_free s n"
proof -
  have high: "bitmap_get (bitmap_set m b (of_nat k) v) b (of_nat n) = bitmap_get m b (of_nat n)"
    if "2048 \<le> k" "k < 524288" for m b k
    using that assms(3) by (intro bitmap_high_write) simp_all
  have "bitmap_get (fold (\<lambda>k m. bitmap_set m b (of_nat k) v) ks m) b (of_nat n) = bitmap_get m b (of_nat n)"
    if "\<forall>k \<in> set ks. 2048 \<le> k \<and> k < 524288" for ks m b
    using that by (induction ks arbitrary: m) (simp_all add: high)
  then show ?thesis using assms(1,2) by (simp add: set_pages_mem page_free_def)
qed

text \<open>C26: With more than 2048 pages the manager hands out a page that is in use. Suppose the
  search starts at a used page \<open>q\<close> from 2048 on and finds page \<open>a\<close>. If then page \<open>q\<close> is freed, the
  next allocation returns page \<open>a\<close> again, although nobody has freed it.\<close>

theorem double_allocation:
  assumes "\<not> page_free s 0" and q: "last_index s = of_nat q" "2048 \<le> q" "\<not> page_free s q"
    and lim: "page_limit s \<le> 524288" and a: "find_run (page_free s) 1 q (page_limit s) = Some a"
    and "span (tohh (hhdm_offset s) (of_nat a * page_size)) 4096 \<inter> span (bm_buffer (bitmap s)) 256 = {}"
  shows "\<exists>s1 s2. alloc 1 s = Inr (of_nat a * page_size, s1)
    \<and> alloc 1 (free (of_nat q * page_size) 1 s1) = Inr (of_nat a * page_size, s2)"
proof -
  have aq: "q < a" "a < page_limit s"
    using a q(3) by (auto simp: find_run_Some le_less)
  have u: "unat (of_nat q :: u64) = q" "unat (of_nat a :: u64) = a" "unat (of_nat q + 1 :: u64) = q + 1"
    "unat (of_nat a + 1 :: u64) = a + 1"
    using aq lim by (simp_all add: unat_of_nat unat_plus_nowrap)
  define s1 where "s1 = take_run a 1 s"
  have last: "last_index s \<le> mem_usable_top s div page_size" using q aq u by (simp add: word_le_nat_alt)
  have a1: "alloc 1 s = Inr (of_nat a * page_size, s1)"
    using alloc_next_fit [OF _ assms(1) last, of 1] a q(1) u(1) by (simp add: next_fit_def s1_def)
  have pq: "unat (of_nat q * page_size) = q * 4096" using aq lim by (intro page_address) simp
  then have div: "of_nat q * page_size div page_size = of_nat q" and nz: "of_nat q * page_size \<noteq> 0"
    using q(2) by (simp_all add: word_unat_eq_iff [where 'a = 64] unat_div u)
  let ?t = "free (of_nat q * page_size) 1 s1"
  have t: "?t = (set_pages (of_nat q) (of_nat q + 1) False s1)
    \<lparr>last_index := of_nat q, used_memory := used_memory s1 - page_size\<rparr>"
    using nz aq u by (simp add: free_def Let_def div s1_def min_def word_le_nat_alt)
  have "page_free s1 n = page_free (set_pages (of_nat a) (of_nat a + 1) True (s\<lparr>last_index := of_nat a + 1\<rparr>)) n" for n
    using assms(7) by (intro page_free_cong) (auto simp: s1_def take_run_def Let_def memset_apply)
  then have same: "page_free ?t n = page_free s n" if "n < 2 ^ 31" for n
    using that aq q lim by (simp add: t page_free_high u)
  have fields: "mem_usable_top ?t = mem_usable_top s" "last_index ?t = of_nat q"
    unfolding t by (simp_all add: s1_def)
  have "find_run (page_free ?t) 1 q (page_limit s) = Some a"
    using a find_run_cong [of "page_limit s" "page_free ?t" "page_free s" 1 q] same lim by simp
  moreover have "\<not> page_free ?t 0" using same [of 0] assms(1) by simp
  ultimately have "alloc 1 ?t = Inr (of_nat a * page_size, take_run a 1 ?t)"
    using alloc_next_fit [of 1 ?t] last q(1) u(1) by (simp add: next_fit_def fields)
  then show ?thesis using a1 by blast
qed

text \<open>16 MiB of memory whose bitmap, in page 1, has all pages marked but page 5.\<close>

definition sixteen_megabytes :: pmm where
  "sixteen_megabytes = sixteen_pages\<lparr>mem := \<lambda>x. if x = 0x10001000 then unset_bit 5 (- 1) else - 1, hhdm_offset := 0x10000000,
     mem_usable_top := 0x1000000, last_index := 2052, bitmap := \<lparr>bm_buffer = 0x10001000, bm_size = 0x1000\<rparr>\<rparr>"

theorem double_allocation_witness:
  "\<exists>s1 s2. alloc 1 sixteen_megabytes = Inr (2053 * page_size, s1)
    \<and> alloc 1 (free (2052 * page_size) 1 s1) = Inr (2053 * page_size, s2)"
proof -
  let ?s = sixteen_megabytes
  have simps: "page_limit ?s = 4096" "hhdm_offset ?s = 0x10000000" "bm_buffer (bitmap ?s) = 0x10001000"
    "last_index ?s = of_nat 2052" by (simp_all add: sixteen_megabytes_def unat_div)
  have free: "page_free ?s n \<longleftrightarrow> n div 8 mod 256 = 0 \<and> n mod 8 = 5" if "n < 4096" for n
  proof -
    have k: "n div 8 mod 256 < 256" "n mod 8 < 8" by simp_all
    have at: "(0x10001000 :: u64) + of_nat (n div 8 mod 256) = 0x10001000 \<longleftrightarrow> n div 8 mod 256 = 0"
      using offset_eq_iff [of "n div 8 mod 256" 0 "0x10001000"] k by simp
    have "page_free ?s n \<longleftrightarrow> \<not> bit (mem ?s (bm_buffer (bitmap ?s) + of_nat (n div 8 mod 256))) (n mod 8)"
      using that by (simp add: page_free_def bitmap_get_bit)
    also have "\<dots> \<longleftrightarrow> n div 8 mod 256 = 0 \<and> n mod 8 = 5"
      using k at by (auto simp: sixteen_megabytes_def bit_unset_bit_iff)
    finally show ?thesis .
  qed
  have "find_run (page_free ?s) 1 2052 (page_limit ?s) = Some 2053"
    unfolding simps by (auto simp: find_run_Some free less_Suc_eq_le le_less)
  moreover have "span (tohh 0x10000000 (of_nat 2053 * page_size)) 4096 \<inter> span 0x10001000 256 = {}"
    by (rule span_disjoint_nat) (simp_all add: tohh_def ishh_def)
  ultimately show ?thesis
    using double_allocation [of ?s 2052 2053] by (simp add: simps free)
qed

section \<open>Initialisation establishes the invariant\<close>

text \<open>The pages of a usable entry.\<close>

definition pages_list :: "limine_memmap_entry \<Rightarrow> nat list" where
  "pages_list e = (if me_type e = LIMINE_MEMMAP_USABLE
     then [unat (me_base e) div 4096..<(unat (me_base e) + unat (me_length e)) div 4096] else [])"

text \<open>What the boot loader promises of a usable entry, within the 2048 pages the bitmap can
  tell apart: it is page aligned and does not contain page 0.\<close>

definition wf_entry :: "limine_memmap_entry \<Rightarrow> bool" where
  "wf_entry e \<longleftrightarrow> (me_type e = LIMINE_MEMMAP_USABLE \<longrightarrow>
     4096 dvd unat (me_base e) \<and> 4096 dvd unat (me_length e) \<and> 4096 \<le> unat (me_base e)
     \<and> unat (me_base e) + unat (me_length e) \<le> 0x800000)"

definition release :: "nat list \<Rightarrow> 'a pmm_scheme \<Rightarrow> 'a pmm_scheme" where
  "release ns s = s\<lparr>mem := fold (\<lambda>n m. bitmap_set m (bitmap s) (of_nat n) False) ns (mem s)\<rparr>"

lemma fold_set_page: "fold (\<lambda>i. set_page i False) ws s = release (map unat ws) s"
  by (induction ws arbitrary: s) (simp_all add: release_def set_page_mem del: of_nat_unat)

lemma release_append: "release ms (release ns s) = release (ns @ ms) s"
  by (simp add: release_def)

lemma release_Nil [simp]: "release [] s = s"
  by (simp add: release_def)

lemma page_free_release:
  assumes "n < 2048" and "\<forall>k \<in> set ns. k < 2048"
  shows "page_free (release ns s) n \<longleftrightarrow> page_free s n \<or> n \<in> set ns"
  using bm.get_put_set [OF assms, of "bitmap s" False "mem s"] by (simp add: page_free_def release_def)

lemma release_entry_pages:
  assumes "wf_entry e"
  shows "release_entry e s = Some (release (pages_list e) s)"
proof (cases "me_type e = LIMINE_MEMMAP_USABLE")
  case True
  let ?b = "unat (me_base e)" and ?l = "unat (me_length e)"
  have wf: "4096 dvd ?b" "4096 dvd ?l" "?b + ?l \<le> 0x800000" using assms True by (auto simp: wf_entry_def)
  then obtain p n where p: "?b = 4096 * p" and n: "?l = 4096 * n" by (auto elim!: dvdE)
  have cnt: "(?l - unat (0 :: u64) + unat page_size - 1) div unat page_size = n" by (simp add: n)
  have page: "unat ((me_base e + (0 + of_nat k * page_size)) div page_size) = p + k" if "k < n" for k
  proof -
    have k: "k < 2 ^ 52" "p * 4096 + k * 4096 < 2 ^ 64" using that wf(3) p n by simp_all
    then have "unat (me_base e + of_nat k * page_size) = (p + k) * 4096"
      using page_address(1) [of k] p by (subst unat_plus_nowrap) (simp_all add: algebra_simps)
    then show ?thesis by (simp add: unat_div)
  qed
  have "release_entry e s = Some (fold (\<lambda>t. set_page ((me_base e + t) div page_size) False)
      (map (\<lambda>k. 0 + of_nat k * page_size) [0..<n]) s)"
    using True wf(3) for_step_returns [of page_size "me_length e" 0, unfolded visits_def rounds_def cnt]
    by (simp add: release_entry_def)
  also have "\<dots> = Some (fold (\<lambda>i. set_page i False)
      (map (\<lambda>k. (me_base e + (0 + of_nat k * page_size)) div page_size) [0..<n]) s)"
    by (simp add: fold_map comp_def)
  also have "\<dots> = Some (release (map (\<lambda>k. p + k) [0..<n]) s)"
    unfolding fold_set_page map_map comp_def using page by (intro arg_cong [where f = Some] arg_cong2 [where f = release]) simp_all
  also have "map (\<lambda>k. p + k) [0..<n] = pages_list e"
  proof -
    have "(4096 * p + 4096 * n) div 4096 = p + n" by simp
    moreover have "map ((+) p) [0..<n] = [p..<p + n]" by (rule nth_equalityI) simp_all
    ultimately show ?thesis using True by (simp add: pages_list_def p n)
  qed
  finally show ?thesis .
qed (simp add: release_entry_def pages_list_def)

lemma release_entries_pages:
  "\<forall>e \<in> set es. wf_entry e \<Longrightarrow> release_entries es s = Some (release (concat (map pages_list es)) s)"
  by (induction es arbitrary: s) (simp_all add: release_entry_pages release_append)

text \<open>The survey computes the top of usable memory and leaves the rest of the state alone.\<close>

lemma survey_top:
  assumes "unat (mem_usable_top s) \<le> B"
    and "\<forall>e \<in> set es. me_type e = LIMINE_MEMMAP_USABLE \<longrightarrow> unat (me_base e) + unat (me_length e) \<le> B" and "B < 2 ^ 64"
  shows "unat (mem_usable_top (fold survey_entry es s)) \<le> B
    \<and> mem_usable_top s \<le> mem_usable_top (fold survey_entry es s)
    \<and> (\<forall>e \<in> set es. me_type e = LIMINE_MEMMAP_USABLE \<longrightarrow>
        unat (me_base e) + unat (me_length e) \<le> unat (mem_usable_top (fold survey_entry es s)))"
  using assms(1,2)
proof (induction es arbitrary: s)
  case (Cons e es)
  let ?s = "survey_entry e s"
  have top: "mem_usable_top ?s = (if me_type e = LIMINE_MEMMAP_USABLE
      then max (mem_usable_top s) (me_base e + me_length e) else mem_usable_top s)"
    by (simp add: survey_entry_def Let_def)
  have e: "unat (me_base e + me_length e) = unat (me_base e) + unat (me_length e)"
    if "me_type e = LIMINE_MEMMAP_USABLE"
    using that Cons.prems(2) assms(3) by (intro unat_plus_nowrap) auto
  have "unat (mem_usable_top ?s) \<le> B" using Cons.prems e by (auto simp: top max_def)
  note IH = Cons.IH [OF this]
  moreover have "mem_usable_top s \<le> mem_usable_top ?s" by (simp add: top)
  moreover have "unat (me_base e) + unat (me_length e) \<le> unat (mem_usable_top ?s)"
    if "me_type e = LIMINE_MEMMAP_USABLE"
    using that e by (auto simp: top max_def word_le_nat_alt)
  ultimately show ?case
    using Cons.prems by (auto simp: word_le_nat_alt intro: order_trans)
qed simp

lemma survey_fields [simp]:
  "mem (fold survey_entry es s) = mem s" "hhdm_offset (fold survey_entry es s) = hhdm_offset s"
  "last_index (fold survey_entry es s) = last_index s" "bitmap (fold survey_entry es s) = bitmap s"
  "memmaps (fold survey_entry es s) = memmaps s" "used_memory (fold survey_entry es s) = used_memory s"
  "pmm.more (fold survey_entry es s) = pmm.more s"
  by (induction es arbitrary: s) (simp_all add: survey_entry_def Let_def)

text \<open>The entry that gives room for the bitmap.\<close>

definition shrink :: "u64 \<Rightarrow> limine_memmap_entry \<Rightarrow> limine_memmap_entry" where
  "shrink k e = e\<lparr>me_length := me_length e - k, me_base := me_base e + k\<rparr>"

lemma place_bitmap_split:
  assumes "\<exists>e \<in> set es. me_type e = LIMINE_MEMMAP_USABLE \<and> k \<le> me_length e"
  shows "\<exists>es1 e es2 b. es = es1 @ e # es2 \<and> me_type e = LIMINE_MEMMAP_USABLE \<and> k \<le> me_length e
    \<and> bm_buffer b = tohh (hhdm_offset s) (me_base e) \<and> bm_size b = k
    \<and> place_bitmap k ds es s = s\<lparr>bitmap := b, mem := memset (mem s) (bm_buffer b) 0xFF k,
        memmaps := ds @ es1 @ shrink k e # es2, used_memory := used_memory s + k\<rparr>"
  using assms
proof (induction es arbitrary: ds)
  case (Cons e es)
  show ?case
  proof (cases "me_type e = LIMINE_MEMMAP_USABLE \<and> k \<le> me_length e")
    case True
    then show ?thesis
      by (intro exI [of _ "[]"] exI [of _ e] exI [of _ es]
          exI [of _ "reassign (tohh (hhdm_offset s) (me_base e)) k (bitmap s)"])
        (simp add: reassign_def shrink_def Let_def)
  next
    case False
    then have "\<exists>e \<in> set es. me_type e = LIMINE_MEMMAP_USABLE \<and> k \<le> me_length e" using Cons.prems by auto
    from Cons.IH [OF this, of "ds @ [e]"] obtain es1 f es2 b where "es = es1 @ f # es2" "me_type f = LIMINE_MEMMAP_USABLE" "k \<le> me_length f"
      "bm_buffer b = tohh (hhdm_offset s) (me_base f)" "bm_size b = k"
      "place_bitmap k (ds @ [e]) es s = s\<lparr>bitmap := b, mem := memset (mem s) (bm_buffer b) 0xFF k,
        memmaps := (ds @ [e]) @ es1 @ shrink k f # es2, used_memory := used_memory s + k\<rparr>"
      by blast
    then show ?thesis
      using False by (intro exI [of _ "e # es1"] exI [of _ f] exI [of _ es2] exI [of _ b]) auto
  qed
qed simp

lemma page_free_memset:
  assumes "256 \<le> unat k" and "n < 2048" and "mem s = memset m (bm_buffer (bitmap s)) 0xFF k"
  shows "\<not> page_free s n"
proof -
  have q: "n div 8 < 256" using assms(2) by linarith
  then have at: "unat (of_nat (n div 8) :: u64) < unat k" using assms(1) by (simp add: unat_of_nat)
  have "bit (0xFF :: u8) (n mod 8)"
    using bit_mask_iff [where 'a = u8, of 8 "n mod 8"] by (simp add: mask_eq_exp_minus_1)
  then show ?thesis
    using assms(2,3) at q by (simp add: page_free_def bitmap_get_bit memset_apply)
qed

lemma release_frame:
  assumes "\<forall>k \<in> set ns. k < 2048" and "x \<notin> span (bm_buffer (bitmap s)) 256"
  shows "mem (release ns s) x = mem s x"
proof -
  have "fold (\<lambda>n m. bitmap_set m (bitmap s) (of_nat n) False) ns m x = m x" for m
    using assms by (induction ns arbitrary: m) (simp_all add: bitmap_set_frame del: in_span)
  then show ?thesis by (simp add: release_def)
qed

lemma release_fields [simp]:
  "bitmap (release ns s) = bitmap s" "hhdm_offset (release ns s) = hhdm_offset s"
  "mem_usable_top (release ns s) = mem_usable_top s" "last_index (release ns s) = last_index s"
  "memmaps (release ns s) = memmaps s" "mem_top (release ns s) = mem_top s"
  by (simp_all add: release_def)

text \<open>Taking one page from a usable entry.\<close>

lemma shrink_page:
  assumes "wf_entry e" and "me_type e = LIMINE_MEMMAP_USABLE" and "page_size \<le> me_length e"
  shows "wf_entry (shrink page_size e)" "pages_list e = unat (me_base e) div 4096 # pages_list (shrink page_size e)"
proof -
  have l: "4096 \<le> unat (me_length e)" using assms(3) by (simp add: word_le_nat_alt)
  have wf: "4096 dvd unat (me_base e)" "4096 dvd unat (me_length e)" "4096 \<le> unat (me_base e)"
    "unat (me_base e) + unat (me_length e) \<le> 0x800000" using assms by (auto simp: wf_entry_def)
  have u: "unat (me_length e - page_size) = unat (me_length e) - 4096" "unat (me_base e + page_size) = unat (me_base e) + 4096"
    using assms(3) wf l by (simp_all add: unat_sub unat_plus_nowrap)
  then show "wf_entry (shrink page_size e)"
    using wf l by (simp add: wf_entry_def shrink_def)
  have "(unat (me_base e) + 4096 + (unat (me_length e) - 4096)) div 4096 = (unat (me_base e) + unat (me_length e)) div 4096"
    using l by simp
  moreover have "unat (me_base e) div 4096 < (unat (me_base e) + unat (me_length e)) div 4096"
    using div_le_mono [of "unat (me_base e) + 4096" "unat (me_base e) + unat (me_length e)" 4096] l by simp
  moreover have "(unat (me_base e) + 4096) div 4096 = Suc (unat (me_base e) div 4096)" by simp
  ultimately show "pages_list e = unat (me_base e) div 4096 # pages_list (shrink page_size e)"
    using assms(2) u by (simp add: pages_list_def shrink_def upt_conv_Cons)
qed

lemma bitmap_size_page:
  assumes "8 \<le> unat n" and "unat n \<le> 2048"
  shows "align_up (n div 8) page_size = page_size"
proof -
  have d: "unat (n div 8) = unat n div 8" by (simp add: unat_div)
  have "1 \<le> unat n div 8" "unat n div 8 \<le> 256" using assms by linarith+
  then have "(unat n div 8 + 4095) div 4096 = 1" by (intro div_nat_eqI) simp_all
  moreover have "unat (align_up (n div 8) (2 ^ 12)) = (unat (n div 8) + 2 ^ 12 - 1) div 2 ^ 12 * 2 ^ 12"
    using \<open>unat n div 8 \<le> 256\<close> by (intro unat_align_up) (simp_all add: d)
  ultimately have "unat (align_up (n div 8) page_size) = unat page_size" by (simp add: d)
  then show ?thesis by (simp only: word_unat_eq_iff)
qed

lemma pages_list_bounds:
  assumes "wf_entry e" and "n \<in> set (pages_list e)"
  shows "0 < n" "n < 2048" "Suc n * 4096 \<le> unat (me_base e) + unat (me_length e)" "me_type e = LIMINE_MEMMAP_USABLE"
proof -
  show u: "me_type e = LIMINE_MEMMAP_USABLE" using assms(2) by (simp add: pages_list_def split: if_splits)
  have wf: "4096 \<le> unat (me_base e)"
    "unat (me_base e) + unat (me_length e) \<le> 0x800000" using assms(1) u by (auto simp: wf_entry_def)
  have n: "unat (me_base e) div 4096 \<le> n" "n < (unat (me_base e) + unat (me_length e)) div 4096"
    using assms(2) u by (simp_all add: pages_list_def)
  have "1 \<le> unat (me_base e) div 4096" using div_le_mono [OF wf(1), of 4096] by simp
  then show "0 < n" using n(1) by simp
  show "Suc n * 4096 \<le> unat (me_base e) + unat (me_length e)"
    using n(2) by (simp only: less_eq_div_iff_mult_less_eq [symmetric] zero_less_numeral Suc_le_eq)
  then show "n < 2048" using wf(2) by simp
qed

text \<open>What initialisation relies on: the manager's globals are zero, the usable entries are well
  formed and share no page, there are at least eight pages and one page of room for the bitmap,
  and the direct map is above the memory it shows.\<close>

definition boot_map :: "'a pmm_scheme \<Rightarrow> bool" where
  "boot_map s \<longleftrightarrow> mem_usable_top s = 0 \<and> last_index s = 0 \<and> (\<forall>e \<in> set (memmaps s). wf_entry e)
     \<and> distinct (concat (map pages_list (memmaps s)))
     \<and> (\<exists>e \<in> set (memmaps s). me_type e = LIMINE_MEMMAP_USABLE \<and> 0x8000 \<le> unat (me_base e) + unat (me_length e))
     \<and> (\<exists>e \<in> set (memmaps s). me_type e = LIMINE_MEMMAP_USABLE \<and> page_size \<le> me_length e)
     \<and> 0x800000 \<le> unat (hhdm_offset s) \<and> unat (hhdm_offset s) + 0x800000 \<le> 2 ^ 64"

lemma boot_mapD:
  assumes "boot_map s"
  shows "mem_usable_top s = 0" "last_index s = 0" "\<forall>e \<in> set (memmaps s). wf_entry e"
    "distinct (concat (map pages_list (memmaps s)))"
    "\<exists>e \<in> set (memmaps s). me_type e = LIMINE_MEMMAP_USABLE \<and> 0x8000 \<le> unat (me_base e) + unat (me_length e)"
    "\<exists>e \<in> set (memmaps s). me_type e = LIMINE_MEMMAP_USABLE \<and> page_size \<le> me_length e"
    "0x800000 \<le> unat (hhdm_offset s)" "unat (hhdm_offset s) + 0x800000 \<le> 2 ^ 64"
  using assms unfolding boot_map_def by blast+

text \<open>The state in which the third loop starts, and the pages it releases.\<close>

lemma init_layout:
  assumes "mem_usable_top s = 0" and "last_index s = 0" and wf: "\<forall>e \<in> set (memmaps s). wf_entry e"
    and dist: "distinct (concat (map pages_list (memmaps s)))"
    and big: "\<exists>e \<in> set (memmaps s). me_type e = LIMINE_MEMMAP_USABLE \<and> 0x8000 \<le> unat (me_base e) + unat (me_length e)"
    and room: "\<exists>e \<in> set (memmaps s). me_type e = LIMINE_MEMMAP_USABLE \<and> page_size \<le> me_length e"
    and hhdm: "0x800000 \<le> unat (hhdm_offset s)" "unat (hhdm_offset s) + 0x800000 \<le> 2 ^ 64"
  shows "\<exists>s2 ns p. init_pages s = Some ((release ns s2)\<lparr>mem_top := align_up (mem_top s2) 0x40000000\<rparr>)
    \<and> page_limit s2 \<le> 2048 \<and> last_index s2 = 0 \<and> hhdm_offset s2 = hhdm_offset s
    \<and> mem s2 = memset (mem s) (bm_buffer (bitmap s2)) 0xFF page_size
    \<and> bm_buffer (bitmap s2) = hhdm_offset s + of_nat p * page_size
    \<and> insert p (set ns) = set (concat (map pages_list (memmaps s))) \<and> p \<notin> set ns
    \<and> (\<forall>n \<in> insert p (set ns). 0 < n \<and> n < page_limit s2) \<and> pmm.more s2 = pmm.more s"
proof -
  define s1 where "s1 = fold survey_entry (memmaps s) s"
  let ?top = "mem_usable_top s1"
  have "\<forall>e \<in> set (memmaps s). me_type e = LIMINE_MEMMAP_USABLE \<longrightarrow> unat (me_base e) + unat (me_length e) \<le> 0x800000"
    using wf by (auto simp: wf_entry_def)
  then have top: "unat ?top \<le> 0x800000"
    "\<And>e. e \<in> set (memmaps s) \<Longrightarrow> me_type e = LIMINE_MEMMAP_USABLE \<Longrightarrow> unat (me_base e) + unat (me_length e) \<le> unat ?top"
    using survey_top [of s "0x800000" "memmaps s"] assms(1) by (simp_all add: s1_def)
  have L: "8 \<le> page_limit s1" "page_limit s1 \<le> 2048"
    using top big div_le_mono [of "0x8000" "unat ?top" 4096] div_le_mono [OF top(1), of 4096] by (force simp: unat_div)+
  then have size: "align_up (?top div page_size div 8) page_size = page_size"
    by (intro bitmap_size_page) simp_all
  obtain es1 e es2 b where split: "memmaps s = es1 @ e # es2" "me_type e = LIMINE_MEMMAP_USABLE" "page_size \<le> me_length e"
    and b: "bm_buffer b = tohh (hhdm_offset s) (me_base e)" "bm_size b = page_size"
    and place: "place_bitmap page_size [] (memmaps s) s1 = s1\<lparr>bitmap := b, mem := memset (mem s) (bm_buffer b) 0xFF page_size,
        memmaps := es1 @ shrink page_size e # es2, used_memory := used_memory s + page_size\<rparr>" (is "_ = ?s2")
    using place_bitmap_split [where s = s1 and ds = "[]", OF room] by (auto simp: s1_def)
  have wfe: "wf_entry e" using wf split by simp
  define p ns where "p = unat (me_base e) div 4096" and "ns = concat (map pages_list (memmaps ?s2))"
  note sh = shrink_page [OF wfe split(2,3), folded p_def]
  have wf2: "\<forall>e \<in> set (memmaps ?s2). wf_entry e" using wf sh(1) split(1) by auto
  have cat: "set (concat (map pages_list (memmaps s))) = insert p (set ns)" and pn: "p \<notin> set ns"
    using dist unfolding split(1) ns_def by (auto simp: sh(2))
  have range: "\<forall>n \<in> insert p (set ns). 0 < n \<and> n < page_limit s1"
  proof
    fix n assume "n \<in> insert p (set ns)"
    then obtain f where f: "f \<in> set (memmaps s)" "n \<in> set (pages_list f)" using cat by auto
    note bounds = pages_list_bounds [OF _ f(2)]
    have wff: "wf_entry f" using wf f(1) by blast
    have "Suc n * 4096 \<le> unat ?top" using bounds(3,4) [OF wff] top(2) [OF f(1)] by linarith
    then have "Suc n \<le> unat ?top div 4096" by (simp only: less_eq_div_iff_mult_less_eq zero_less_numeral)
    then show "0 < n \<and> n < page_limit s1" using bounds(1) [OF wff] by (simp add: unat_div)
  qed
  have base: "unat (me_base e) = p * 4096" "p < 2048" "me_base e < hhdm_offset s"
    using wfe split(2,3) hhdm by (auto simp: wf_entry_def p_def word_less_nat_alt word_le_nat_alt)
  then have "me_base e = of_nat p * page_size"
    using page_address(1) [of p] by (simp add: word_unat_eq_iff [where 'a = 64])
  then have buf: "bm_buffer b = hhdm_offset s + of_nat p * page_size"
    using tohh_phys [OF base(3)] b(1) by (simp add: add.commute)
  have "init_pages s = Some ((release ns ?s2)\<lparr>mem_top := align_up (mem_top ?s2) 0x40000000\<rparr>)"
    using place release_entries_pages [OF wf2, of ?s2] size
    by (simp add: init_pages_def Let_def s1_def [symmetric] ns_def) (simp add: s1_def)
  then show ?thesis
    using cat pn range buf assms(2) L by (intro exI [of _ ?s2] exI [of _ ns] exI [of _ p]) (simp add: s1_def)
qed

lemma pmm_inv_release:
  assumes "page_limit s \<le> 2048" and "last_index s = 0"
    and "0x800000 \<le> unat (hhdm_offset s)" "unat (hhdm_offset s) + 0x800000 \<le> 2 ^ 64"
    and none: "\<And>n. n < 2048 \<Longrightarrow> \<not> page_free s n" and ns: "\<forall>n \<in> insert p (set ns). 0 < n \<and> n < page_limit s" "p \<notin> set ns"
    and buf: "bm_buffer (bitmap s) = hhdm_offset s + of_nat p * page_size"
  shows "pmm_inv (set ns) (release ns s)" and "\<And>n. n < 2048 \<Longrightarrow> page_free (release ns s) n \<longleftrightarrow> n \<in> set ns"
proof -
  have lt: "\<forall>k \<in> insert p (set ns). k < 2048" using ns(1) assms(1) by force
  then show fr: "page_free (release ns s) n \<longleftrightarrow> n \<in> set ns" if "n < 2048" for n
    using page_free_release [OF that, of ns s] none [OF that] by simp
  have "page_image (hhdm_offset s) n \<inter> span (bm_buffer (bitmap s)) 256 = {}" if "n \<in> set ns" for n
  proof -
    have "page_image (hhdm_offset s) n \<inter> page_image (hhdm_offset s) p = {}"
      using that ns(2) lt assms(4) by (intro page_images_disjoint [where k = 2048]) auto
    then show ?thesis unfolding buf using span_mono [of 256 4096] by (fastforce simp: page_image_def)
  qed
  then show "pmm_inv (set ns) (release ns s)"
    using assms(1-4) fr ns unfolding pmm_inv_def by (auto simp: word_le_nat_alt)
qed

lemma init_pages_effect:
  assumes boot: "boot_map s"
  shows "\<exists>s' p M. init_pages s = Some s' \<and> pmm_inv M s' \<and> (\<forall>n < page_limit s'. page_free s' n \<longleftrightarrow> n \<in> M)
    \<and> p \<notin> M \<and> insert p M = set (concat (map pages_list (memmaps s)))
    \<and> bm_buffer (bitmap s') = hhdm_offset s + of_nat p * page_size
    \<and> (\<forall>x. x \<notin> page_image (hhdm_offset s) p \<longrightarrow> mem s' x = mem s x)
    \<and> hhdm_offset s' = hhdm_offset s \<and> pmm.more s' = pmm.more s"
proof -
  obtain s2 ns p where init: "init_pages s = Some ((release ns s2)\<lparr>mem_top := align_up (mem_top s2) 0x40000000\<rparr>)" (is "_ = Some ?t")
    and s2: "page_limit s2 \<le> 2048" "last_index s2 = 0" "hhdm_offset s2 = hhdm_offset s"
      "mem s2 = memset (mem s) (bm_buffer (bitmap s2)) 0xFF page_size"
      "bm_buffer (bitmap s2) = hhdm_offset s + of_nat p * page_size"
    and ns: "insert p (set ns) = set (concat (map pages_list (memmaps s)))" "p \<notin> set ns"
      "\<forall>n \<in> insert p (set ns). 0 < n \<and> n < page_limit s2" and more: "pmm.more s2 = pmm.more s"
    using init_layout [OF boot_mapD [OF boot]] by blast
  note hhdm = boot_mapD(7,8) [OF boot]
  have none: "\<And>n. n < 2048 \<Longrightarrow> \<not> page_free s2 n"
    using page_free_memset [of page_size, OF _ _ s2(4)] by simp
  note inv = pmm_inv_release [OF s2(1,2) hhdm [folded s2(3)] none ns(3,2) s2(5) [folded s2(3)]]
  have "mem ?t x = mem s x" if "x \<notin> page_image (hhdm_offset s) p" for x
  proof -
    have "\<forall>k \<in> set ns. k < 2048" using ns(3) s2(1) by force
    moreover have "x \<notin> span (bm_buffer (bitmap s2)) 256" "x \<notin> span (bm_buffer (bitmap s2)) 4096"
      using that span_mono [of 256 4096] unfolding s2(5) page_image_def by auto
    ultimately show ?thesis using release_frame [of ns x s2] by (simp add: s2(4) memset_apply del: in_span)
  qed
  moreover have "pmm_inv (set ns) ?t" using inv(1) by (simp add: pmm_inv_def)
  moreover have "\<forall>n < page_limit ?t. page_free ?t n \<longleftrightarrow> n \<in> set ns" using inv(2) s2(1) by simp
  ultimately show ?thesis
    using init ns(1,2) s2(3,5) more by (intro exI [of _ ?t] exI [of _ p] exI [of _ "set ns"]) (simp add: release_def)
qed

text \<open>C9: \<^verbatim>\<open>physical::init\<close>, up to the slab allocator, ends and establishes the invariant on a memory
  map of page-aligned, disjoint usable entries below 8 MiB that do not contain page 0, with at
  least eight pages and one page of room for the bitmap: one usable page is taken for the bitmap
  and exactly the other usable pages are free; nothing outside the page of the bitmap is
  written.\<close>

theorem init_pages_correct:
  assumes "boot_map s"
  shows "\<exists>s' p M. init_pages s = Some s' \<and> pmm_inv M s' \<and> (\<forall>n < page_limit s'. page_free s' n \<longleftrightarrow> n \<in> M)
    \<and> p \<notin> M \<and> insert p M = set (concat (map pages_list (memmaps s)))
    \<and> bm_buffer (bitmap s') = hhdm_offset s + of_nat p * page_size
    \<and> (\<forall>x. x \<notin> page_image (hhdm_offset s) p \<longrightarrow> mem s' x = mem s x)"
  using init_pages_effect [OF assms] by blast

theorem init_pages_correct_witness:
  "\<exists>s'. init_pages \<lparr>mem = \<lambda>_. 7, hhdm_offset = 0x1000000, mem_usable_top = 0, last_index = 0,
       bitmap = \<lparr>bm_buffer = 0, bm_size = 0\<rparr>, usable_memory = 0, total_memory = 0, used_memory = 0, mem_top = 0,
       memmaps = [\<lparr>me_base = 0, me_length = 0x1000, me_type = 1\<rparr>, \<lparr>me_base = 0x1000, me_length = 0xF000, me_type = 0\<rparr>]\<rparr>
     = Some s' \<and> mem s' 0x1010000 = 7" (is "\<exists>s'. init_pages ?s = _ \<and> _")
proof -
  have pages: "set (concat (map pages_list (memmaps ?s))) = {1..<16}" "distinct (concat (map pages_list (memmaps ?s)))"
    by (simp_all add: pages_list_def LIMINE_MEMMAP_USABLE_def)
  have "boot_map ?s" using pages(2) by (simp add: boot_map_def wf_entry_def LIMINE_MEMMAP_USABLE_def)
  from init_pages_correct [OF this]
  obtain s' p M where s': "init_pages ?s = Some s'" "p \<notin> M" "insert p M = {1..<16}"
    "bm_buffer (bitmap s') = 0x1000000 + of_nat p * page_size" "\<forall>x. x \<notin> page_image 0x1000000 p \<longrightarrow> mem s' x = 7"
    unfolding pages(1) by (auto simp: LIMINE_MEMMAP_USABLE_def word_le_nat_alt)
  have p: "p < 16" using s'(3) by auto
  have "(0x1010000 :: u64) = 0x1000000 + of_nat 16 * page_size" by simp
  then have "(0x1010000 :: u64) \<in> page_image 0x1000000 16" by (simp add: page_image_def)
  moreover have "page_image 0x1000000 16 \<inter> page_image 0x1000000 p = {}"
    using p by (intro page_images_disjoint [where k = 17]) simp_all
  ultimately show ?thesis using s'(1,5) by blast
qed

end
