(* ===== verification/Ice_Pages.thy ===== *)
theory Ice_Pages
  imports Ice_Physical
begin

text \<open>
  The page manager as an allocator in the sense of \<open>Ice_Regions\<close>. All callers reach the pages they are given through the
  direct map, \<^verbatim>\<open>tohh(alloc(n))\<close>, and give them back with \<^verbatim>\<open>free(fromhh(p), n)\<close>; seen that way the manager gives out zeroed
  regions, and the pages of a client keep their contents.
\<close>

section \<open>Pages through the direct map\<close>

definition take_pages :: "u64 \<Rightarrow> 'a pmm_scheme \<Rightarrow> (u64, 'a pmm_scheme) run" where
  "take_pages count s = (case alloc count s of Inl s' \<Rightarrow> Inl s' | Inr (r, s') \<Rightarrow> Inr (tohh (hhdm_offset s') r, s'))"

definition give_pages :: "u64 \<Rightarrow> nat \<Rightarrow> 'a pmm_scheme \<Rightarrow> 'a pmm_scheme" where
  "give_pages x k s = free (fromhh (hhdm_offset s) x) (of_nat (k div 4096)) s"

abbreviation page_at :: "'a pmm_scheme \<Rightarrow> nat \<Rightarrow> u64" where
  "page_at s a \<equiv> hhdm_offset s + of_nat a * page_size"

definition page_blocks :: "(nat \<rightharpoonup> nat) \<Rightarrow> 'a pmm_scheme \<Rightarrow> (u64 \<times> nat) set" where
  "page_blocks owned s = {(page_at s a, c * 4096) | a c. owned a = Some c}"

lemma page_blocksE:
  assumes "(x, k) \<in> page_blocks owned s"
  obtains a c where "owned a = Some c" "x = page_at s a" "k = c * 4096"
  using assms by (auto simp: page_blocks_def)

lemma page_at_eq:
  assumes "a < 2 ^ 52" and "b < 2 ^ 52"
  shows "page_at s a = page_at s b \<longleftrightarrow> a = b"
proof
  assume "page_at s a = page_at s b"
  then have "unat (of_nat a * page_size) = unat (of_nat b * page_size)" by simp
  then show "a = b" unfolding page_address(1) [OF assms(1)] page_address(1) [OF assms(2)] by simp
qed simp

lemma owned_run:
  assumes "partition_inv M s owned" and "owned a = Some c"
  shows "0 < c" "{a..<a + c} \<subseteq> M" "a + c \<le> page_limit s" "0 < a" "a < 2 ^ 52" "c * 4096 \<le> 2 ^ 64" "pmm_inv M s"
    "span (page_at s a) (c * 4096) \<inter> span (bm_buffer (bitmap s)) 256 = {}"
proof -
  have c: "0 < c" and run: "{a..<a + c} \<subseteq> M" and inv: "pmm_inv M s" using assms by (auto simp: partition_inv_def)
  then have "a + c - 1 \<in> M" "a \<in> M" by auto
  then show "0 < c" "{a..<a + c} \<subseteq> M" "a + c \<le> page_limit s" "0 < a" "a < 2 ^ 52" "c * 4096 \<le> 2 ^ 64" "pmm_inv M s"
    using c run inv pmm_invD(1,5) [OF inv] by force+
  show "span (page_at s a) (c * 4096) \<inter> span (bm_buffer (bitmap s)) 256 = {}" by (rule managed_run(1) [OF inv run])
qed

lemma runs_apart:
  assumes inv: "pmm_inv M s" and "{a..<a + c} \<subseteq> M" and "{b..<b + d} \<subseteq> M" and "{a..<a + c} \<inter> {b..<b + d} = {}"
  shows "span (page_at s a) (c * 4096) \<inter> span (page_at s b) (d * 4096) = {}"
proof (rule ccontr)
  assume "span (page_at s a) (c * 4096) \<inter> span (page_at s b) (d * 4096) \<noteq> {}"
  then obtain x where "x \<in> span (page_at s a) (c * 4096)" "x \<in> span (page_at s b) (d * 4096)" by blast
  then obtain n m where n: "n \<in> {a..<a + c}" "x \<in> page_image (hhdm_offset s) n" and m: "m \<in> {b..<b + d}" "x \<in> page_image (hhdm_offset s) m"
    using run_images [of x "hhdm_offset s"] by (metis atLeastLessThan_iff)
  then have "n \<noteq> m" "n < page_limit s" "m < page_limit s" using assms pmm_invD(5) [OF inv] by blast+
  from page_images_disjoint [OF this pmm_invD(7) [OF inv]] show False using n m by blast
qed

lemma managed_address:
  assumes "pmm_inv M s" and "a \<in> M"
  shows "tohh (hhdm_offset s) (of_nat a * page_size) = page_at s a" "fromhh (hhdm_offset s) (page_at s a) = of_nat a * page_size"
    "page_at s a \<noteq> 0"
proof -
  have a: "a < page_limit s" "a < 2 ^ 52" "0 < a" using pmm_invD(1,5) [OF assms(1)] assms(2) by force+
  show t: "tohh (hhdm_offset s) (of_nat a * page_size) = page_at s a" using managed_run(2) [OF assms(1), of a 0] a(1) by simp
  note u = page_address(1) [OF a(2)]
  have lt: "a * 4096 < unat (hhdm_offset s)" "a * 4096 + unat (hhdm_offset s) < 2 ^ 64" using pmm_invD(6,7) [OF assms(1)] a(1) by linarith+
  then show "fromhh (hhdm_offset s) (page_at s a) = of_nat a * page_size"
    using fromhh_tohh [of "of_nat a * page_size" "hhdm_offset s"] unfolding t by (simp add: word_less_nat_alt u)
  have "unat (page_at s a) = unat (hhdm_offset s) + a * 4096" using lt u by (subst unat_plus_nowrap) simp_all
  then show "page_at s a \<noteq> 0" using a(3) by (metis add_eq_0_iff_both_eq_0 less_numeral_extra(3) mult_eq_0_iff unat_0 zero_neq_numeral)
qed

section \<open>The laws of an allocator\<close>

lemma take_pages_law:
  assumes p: "partition_inv M s owned" and c: "count \<noteq> 0" and run: "take_pages count s = Inr (x, s')"
  shows "\<exists>owned' k. partition_inv M s' owned' \<and> unat count * 4096 = k \<and> (x, k) \<notin> page_blocks owned s
    \<and> page_blocks owned' s' = insert (x, k) (page_blocks owned s) \<and> keeps (page_blocks owned s) s s' \<and> (\<forall>b \<in> span x k. mem s' b = 0)"
proof -
  have inv: "pmm_inv M s" using p by (simp add: partition_inv_def)
  obtain r where r: "alloc count s = Inr (r, s')" "x = tohh (hhdm_offset s') r" using run by (auto simp: take_pages_def split: sum.splits)
  obtain a where a: "r = of_nat a * page_size" "s' = take_run a count s" "unat r div 4096 = a"
    "{a..<a + unat count} \<subseteq> M" "a + unat count \<le> page_limit s" "0 < unat count" "\<And>i. a \<le> i \<Longrightarrow> i < a + unat count \<Longrightarrow> page_free s i"
    using alloc_cases [OF inv c r(1)] by blast
  note eff = take_run_effect [OF inv a(4-6)]
  have x: "x = page_at s a" using managed_address(1) [OF inv, of a] a(4,6) by (simp add: r(2) a(1,2) subset_eq)
  have new: "{a..<a + unat count} \<inter> {b..<b + d} = {}" if "owned b = Some d" for b d
  proof -
    have "\<not> page_free s n" if "n \<in> {b..<b + d}" for n using p that \<open>owned b = Some d\<close> unfolding partition_inv_def by blast
    then show ?thesis using a(7) by fastforce
  qed
  have none: "owned a = None" using new [of a] owned_run(1) [OF p] a(6) by (cases "owned a") fastforce+
  have a52: "a < 2 ^ 52" using a(5) pmm_invD(1) [OF inv] by simp
  have "(x, k) \<notin> page_blocks owned s" for k
    using page_at_eq [OF a52 owned_run(5) [OF p], of _ _ s] none by (auto simp: x elim!: page_blocksE)
  moreover have "page_blocks (owned(a \<mapsto> unat count)) s' = insert (x, unat count * 4096) (page_blocks owned s)"
    using none by (auto simp: page_blocks_def x a(2) split: if_splits)
  moreover have "keeps (page_blocks owned s) s s'"
  proof (rule keepsI)
    fix y k b assume y: "(y, k) \<in> page_blocks owned s" "b \<in> span y k"
    then obtain e d where e: "owned e = Some d" "y = page_at s e" "k = d * 4096" by (elim page_blocksE)
    have "b \<notin> span (page_at s a) (unat count * 4096)" "b \<notin> span (bm_buffer (bitmap s)) 256"
      using runs_apart [OF inv a(4) owned_run(2) [OF p e(1)] new [OF e(1)]] owned_run(8) [OF p e(1)] y(2) e(2,3) by blast+
    then show "mem s' b = mem s b" unfolding a(2) by (rule eff(3))
  qed
  moreover have "\<forall>b \<in> span x (unat count * 4096). mem s' b = 0" using eff(2) unfolding x a(2) by blast
  moreover have "partition_inv M s' (owned(a \<mapsto> unat count))" using partition_alloc [OF p c r(1)] by (simp only: a(3))
  ultimately show ?thesis by blast
qed

lemma give_pages_law:
  assumes p: "partition_inv M s owned" and l: "(x, k) \<in> page_blocks owned s"
  shows "\<exists>owned'. partition_inv M (give_pages x k s) owned' \<and> page_blocks owned' (give_pages x k s) = page_blocks owned s - {(x, k)}
    \<and> keeps (page_blocks owned s - {(x, k)}) s (give_pages x k s)"
proof -
  obtain a c where a: "owned a = Some c" "x = page_at s a" "k = c * 4096" using l by (elim page_blocksE)
  note o = owned_run [OF p a(1)]
  have "a \<in> M" using o(1,2) by auto
  then have g: "give_pages x k s = free (of_nat a * page_size) (of_nat c) s"
    using managed_address(2) [OF o(7)] by (simp add: give_pages_def a(2,3))
  have uc: "unat (of_nat c :: u64) = c" using o(3) page_limit_bound [of s] by (intro unat_of_nat64) simp
  note eff = free_effect [OF o(7), of a "of_nat c", unfolded uc, OF o(2,1,3)]
  have h: "hhdm_offset (free (of_nat a * page_size) (of_nat c) s) = hhdm_offset s" by (simp add: free_def Let_def set_pages_mem)
  have "page_blocks (owned(a := None)) (give_pages x k s) = {(page_at s b, d * 4096) | b d. b \<noteq> a \<and> owned b = Some d}"
    unfolding g page_blocks_def h by auto
  also have "\<dots> = page_blocks owned s - {(x, k)}"
    using a page_at_eq [OF owned_run(5) [OF p] o(5), of _ _ s] by (auto simp: page_blocks_def) (metis option.inject)
  finally have "page_blocks (owned(a := None)) (give_pages x k s) = page_blocks owned s - {(x, k)}" .
  moreover have "keeps (page_blocks owned s - {(x, k)}) s (give_pages x k s)"
  proof (rule keepsI)
    fix y l b assume "(y, l) \<in> page_blocks owned s - {(x, k)}" "b \<in> span y l"
    then obtain e d where "owned e = Some d" "b \<in> span (page_at s e) (d * 4096)" by (auto elim!: page_blocksE simp del: in_span)
    then have "b \<notin> span (bm_buffer (bitmap s)) 256" using owned_run(8) [OF p] by blast
    then show "mem (give_pages x k s) b = mem s b" unfolding g by (rule eff(2))
  qed
  moreover have "partition_inv M (give_pages x k s) (owned(a := None))" unfolding g by (rule partition_free [OF p a(1)])
  ultimately show ?thesis by blast
qed

interpretation pages: allocator "\<lambda>owned s. partition_inv M s owned" page_blocks "\<lambda>c. c \<noteq> 0" "\<lambda>c :: u64. unat c * 4096" "(=)"
  take_pages give_pages for M :: "nat set"
proof (unfold_locales, goal_cases)
  case (1 owned s c x s')
  then show ?case by (rule take_pages_law)
next
  case (2 owned s x k)
  then show ?case by (rule give_pages_law)
next
  case (3 owned s x k a v)
  then obtain b c where "owned b = Some c" "x = page_at s b" "k = c * 4096" by (elim page_blocksE)
  then show ?case using partition_store [OF 3(1), of b c a v] 3(3) by (auto simp: page_blocks_def simp del: in_span)
next
  case (4 owned s x k y l)
  then obtain a c b d where a: "owned a = Some c" "x = page_at s a" "k = c * 4096" and b: "owned b = Some d" "y = page_at s b" "l = d * 4096"
    by (elim page_blocksE)
  then have "a \<noteq> b" using 4(4) by auto
  then have "{a..<a + c} \<inter> {b..<b + d} = {}" using 4(1) a(1) b(1) unfolding partition_inv_def by blast
  then show ?case unfolding a(2,3) b(2,3) by (intro runs_apart [OF owned_run(7,2) [OF 4(1) a(1)] owned_run(2) [OF 4(1) b(1)]])
next
  case (5 owned s x k)
  then obtain a c where a: "owned a = Some c" "x = page_at s a" "k = c * 4096" by (elim page_blocksE)
  note o = owned_run [OF 5(1) a(1)]
  have "a \<in> M" using o(1,2) by auto
  then show ?case using o managed_address(3) [OF o(7)] by (simp add: a(2,3))
qed simp

section \<open>The pages as a store\<close>

text \<open>What clients do with pages: take runs, write into them, give each run back once.\<close>

inductive page_client :: "'a pmm_scheme \<Rightarrow> 'a pmm_scheme \<Rightarrow> blocks \<Rightarrow> bool" for s0 where
  start: "page_client s0 s0 Map.empty"
| take: "page_client s0 s B \<Longrightarrow> count \<noteq> 0 \<Longrightarrow> take_pages count s = Inr (x, s')
    \<Longrightarrow> page_client s0 s' (B(x \<mapsto> replicate (unat count * 4096) 0))"
| give: "page_client s0 s B \<Longrightarrow> B x = Some bs \<Longrightarrow> page_client s0 (give_pages x (length bs) s) (B(x := None))"
| put: "page_client s0 s B \<Longrightarrow> B x = Some bs \<Longrightarrow> i < length bs
    \<Longrightarrow> page_client s0 (s\<lparr>mem := (mem s)(x + of_nat i := v)\<rparr>) (B(x \<mapsto> bs[i := v]))"

lemma page_client_holds:
  assumes "page_client s0 s B" and "pmm_inv M s0" and "\<forall>n \<in> M. page_free s0 n"
  shows "\<exists>owned. pages.holds M owned s B"
  using assms(1)
proof induction
  case start
  have "partition_inv M s0 Map.empty" "page_blocks Map.empty s0 = {}" using assms(2,3) by (simp_all add: partition_inv_def page_blocks_def)
  then show ?case using pages.holds_start by blast
next
  case take
  then show ?case using pages.holds_acquire by blast
next
  case (give s B x bs)
  then obtain owned where h: "pages.holds M owned s B" by blast
  from h give.hyps(2) obtain k where "(x, k) \<in> page_blocks owned s" "length bs = k" by (rule pages.holds_block)
  then show ?case using pages.holds_release [OF h] by blast
next
  case put
  then show ?case using pages.holds_write by blast
qed

text \<open>C12: The page manager refines a store of blocks. Whatever sequence of allocations through the direct map, writes into owned
  runs and releases a client performs, every run it owns reads back exactly what was written to it (zero where nothing was), and
  the runs are apart from each other.\<close>

theorem pages_refine_store:
  assumes "page_client s0 s B" and "pmm_inv M s0" and "\<forall>n \<in> M. page_free s0 n"
  shows "(\<forall>x bs. B x = Some bs \<longrightarrow> x \<noteq> 0 \<and> map (\<lambda>i. mem s (x + of_nat i)) [0..<length bs] = bs)
    \<and> (\<forall>x y bs cs. B x = Some bs \<longrightarrow> B y = Some cs \<longrightarrow> x \<noteq> y \<longrightarrow> span x (length bs) \<inter> span y (length cs) = {})"
proof -
  obtain owned where "pages.holds M owned s B" using page_client_holds [OF assms] by blast
  from pages.holds_store [OF this] show ?thesis by (simp add: contents_map)
qed

theorem pages_refine_store_witness:
  "\<exists>s. page_client sixteen_pages s [0x102000 \<mapsto> (replicate 8192 0)[5 := 9]] \<and> mem s 0x102005 = 9 \<and> mem s 0x102006 = 0"
proof -
  obtain s1 where s1: "alloc 2 sixteen_pages = Inr (0x2000, s1)"
    using alloc_next_fit [of 2 sixteen_pages] pmm_invD(2,3) [OF sixteen_pages_inv] sixteen_pages_fit by (simp add: sixteen_pages_simps)
  then have "hhdm_offset s1 = 0x100000"
    using alloc_next_fit [of 2 sixteen_pages] pmm_invD(2,3) [OF sixteen_pages_inv] sixteen_pages_fit by (auto simp: sixteen_pages_simps)
  then have t: "take_pages 2 sixteen_pages = Inr (0x102000, s1)" using s1 by (simp add: take_pages_def tohh_def ishh_def)
  have c: "page_client sixteen_pages (s1\<lparr>mem := (mem s1)(0x102000 + of_nat 5 := 9)\<rparr>) [0x102000 \<mapsto> (replicate 8192 0)[5 := 9]]"
    (is "page_client _ ?s ?B")
    using page_client.put [OF page_client.take [OF page_client.start _ t], of "0x102000" "replicate 8192 0" 5 9] by simp
  have "\<forall>n \<in> {2..<16}. page_free sixteen_pages n" by (auto simp: sixteen_pages_free)
  from pages_refine_store [OF c sixteen_pages_inv this]
  have "map (\<lambda>i. mem ?s (0x102000 + of_nat i)) [0..<length ((replicate 8192 (0 :: u8))[5 := 9])] = (replicate 8192 0)[5 := 9]"
    by (metis fun_upd_same)
  then have m: "map (\<lambda>i. mem ?s (0x102000 + of_nat i)) [0..<8192] = (replicate 8192 0)[5 := 9]" by (simp only: length_list_update length_replicate)
  from arg_cong [OF m, of "\<lambda>xs. xs ! 5"] arg_cong [OF m, of "\<lambda>xs. xs ! 6"] have "mem ?s 0x102005 = 9" "mem ?s 0x102006 = 0" by simp_all
  then show ?thesis using c by blast
qed

end
