(* ===== verification/Ice_Slab.thy ===== *)
theory Ice_Slab
  imports Ice_Physical
begin

text \<open>
  The kernel heap, \<^verbatim>\<open>kernel/memory/memory.cpp\<close>: ten slabs of objects of fixed sizes, each a linked
  list of free objects threaded through their first words, and page-granular allocations for
  everything larger, with their size in a page in front. A \<^verbatim>\<open>slab_t\<close> is a structure in memory, its
  \<^verbatim>\<open>head\<close> at offset 0 and its \<^verbatim>\<open>size\<close> at offset 8; the page of a slab starts with a \<^verbatim>\<open>slab_header\<close>,
  the address of its \<^verbatim>\<open>slab_t\<close>. \<open>slabs_addr\<close> is the address of the array \<^verbatim>\<open>slabs\<close> of the global
  allocator. (A slab of size 0, on which the code divides by zero, is never created.)
\<close>

unbundle bit_operations_syntax

section \<open>State\<close>

record heap = pmm +
  slabs_addr :: u64

definition slab_head :: "memory \<Rightarrow> u64 \<Rightarrow> u64" where
  "slab_head m slab = load64 m slab"

definition slab_size :: "memory \<Rightarrow> u64 \<Rightarrow> u64" where
  "slab_size m slab = load64 m (slab + 8)"

definition set_head :: "memory \<Rightarrow> u64 \<Rightarrow> u64 \<Rightarrow> memory" where
  "set_head m slab v = store64 m slab v"

definition set_size :: "memory \<Rightarrow> u64 \<Rightarrow> u64 \<Rightarrow> memory" where
  "set_size m slab v = store64 m (slab + 8) v"

section \<open>Slabs\<close>

text \<open>\<^verbatim>\<open>for (i = 0; i < max; i++) array[i * count] = &array[(i + 1) * count]\<close>.\<close>

function link_loop :: "u64 \<Rightarrow> u64 \<Rightarrow> u64 \<Rightarrow> u64 \<Rightarrow> memory \<Rightarrow> memory" where
  "link_loop array count mx i m =
     (if i < mx
      then link_loop array count mx (i + 1) (store64 m (array + 8 * (i * count)) (array + 8 * ((i + 1) * count)))
      else m)"
  by pat_completeness auto
termination
  by (relation "measure (\<lambda>(array, count, mx, i, m). unat mx - unat i)")
    (auto simp: unat_plus_one word_less_nat_alt)

definition sizeof_slab_header :: u64 where
  "sizeof_slab_header = 8"

definition sizeof_slab_t :: u64 where
  "sizeof_slab_t = 16"

definition slab_init :: "u64 \<Rightarrow> u64 \<Rightarrow> 'a heap_scheme \<Rightarrow> (unit, 'a heap_scheme) run" where
  "slab_init this sz s =
     bind_run (alloc 1 (s\<lparr>mem := set_size (mem s) this sz\<rparr>)) (\<lambda>ret s.
       let page = tohh (hhdm_offset s) ret;
           m1 = set_head (mem s) this page;
           available = 0x1000 - align_up sizeof_slab_header (slab_size m1 this);
           slab_ptr = slab_head m1 this;
           m2 = store64 m1 slab_ptr this;
           m3 = set_head m2 this (slab_head m2 this + align_up sizeof_slab_header (slab_size m2 this));
           array = slab_head m3 this;
           mx = available div slab_size m3 this - 1;
           count = slab_size m3 this div 8;
           m4 = link_loop array count mx 0 m3
       in Inr ((), s\<lparr>mem := store64 m4 (array + 8 * (mx * count)) 0\<rparr>))"

definition slab_alloc :: "u64 \<Rightarrow> 'a heap_scheme \<Rightarrow> (u64, 'a heap_scheme) run" where
  "slab_alloc this s =
     bind_run (if slab_head (mem s) this = 0 then slab_init this (slab_size (mem s) this) s else Inr ((), s))
       (\<lambda>_ s.
          let old_free = slab_head (mem s) this;
              m1 = set_head (mem s) this (load64 (mem s) old_free)
          in Inr (old_free, s\<lparr>mem := memset m1 old_free 0 (slab_size m1 this)\<rparr>))"

definition slab_free :: "u64 \<Rightarrow> u64 \<Rightarrow> 'a heap_scheme \<Rightarrow> 'a heap_scheme" where
  "slab_free this ptr s =
     (if ptr = 0 then s
      else let m1 = store64 (mem s) ptr (slab_head (mem s) this) in s\<lparr>mem := set_head m1 this ptr\<rparr>)"

section \<open>The allocator\<close>

definition slab_sizes :: "u64 list" where
  "slab_sizes = [16, 32, 48, 80, 128, 192, 288, 448, 672, 1024]"

definition slab_at :: "'a heap_scheme \<Rightarrow> nat \<Rightarrow> u64" where
  "slab_at s i = slabs_addr s + of_nat i * sizeof_slab_t"

fun init_slabs :: "nat \<Rightarrow> u64 list \<Rightarrow> 'a heap_scheme \<Rightarrow> (unit, 'a heap_scheme) run" where
  "init_slabs i [] s = Inr ((), s)"
| "init_slabs i (sz # sizes) s = bind_run (slab_init (slab_at s i) sz s) (\<lambda>_. init_slabs (Suc i) sizes)"

text \<open>The constructor \<^verbatim>\<open>slab_allocator::slab_allocator\<close>, run by \<^verbatim>\<open>allocator.initialize()\<close>.\<close>

definition slab_allocator :: "'a heap_scheme \<Rightarrow> (unit, 'a heap_scheme) run" where
  "slab_allocator s = init_slabs 0 slab_sizes s"

text \<open>\<^verbatim>\<open>physical::init\<close> as a whole.\<close>

definition physical_init :: "'a heap_scheme \<Rightarrow> (unit, 'a heap_scheme) run option" where
  "physical_init s = (case init_pages s of None \<Rightarrow> None | Some s' \<Rightarrow> Some (slab_allocator s'))"

text \<open>The first slab whose objects are large enough, or the null pointer.\<close>

fun get_slab_loop :: "u64 \<Rightarrow> u64 \<Rightarrow> nat \<Rightarrow> memory \<Rightarrow> u64" where
  "get_slab_loop slab sz 0 m = 0"
| "get_slab_loop slab sz (Suc k) m =
     (if slab_size m slab \<ge> sz then slab else get_slab_loop (slab + sizeof_slab_t) sz k m)"

definition get_slab :: "u64 \<Rightarrow> 'a heap_scheme \<Rightarrow> u64" where
  "get_slab sz s = get_slab_loop (slabs_addr s) sz 10 (mem s)"

subsection \<open>Large blocks\<close>

text \<open>The structure \<^verbatim>\<open>big_alloc_meta\<close>: \<^verbatim>\<open>pages\<close> at offset 0, \<^verbatim>\<open>size\<close> at offset 8.\<close>

definition big_malloc :: "u64 \<Rightarrow> 'a heap_scheme \<Rightarrow> (u64, 'a heap_scheme) run" where
  "big_malloc sz s =
     (let pages = div_roundup sz 0x1000 in
      bind_run (alloc (pages + 1) s) (\<lambda>ret s.
        let ptr = tohh (hhdm_offset s) ret;
            m = store64 (store64 (mem s) ptr pages) (ptr + 8) sz
        in Inr (ptr + 0x1000, s\<lparr>mem := m\<rparr>)))"

definition big_free :: "u64 \<Rightarrow> 'a heap_scheme \<Rightarrow> 'a heap_scheme" where
  "big_free ptr s =
     (let meta_data = ptr - 0x1000
      in free (fromhh (hhdm_offset s) meta_data) (load64 (mem s) meta_data + 1) s)"

definition big_alloc_size :: "u64 \<Rightarrow> 'a heap_scheme \<Rightarrow> u64" where
  "big_alloc_size ptr s = load64 (mem s) (ptr - 0x1000 + 8)"

subsection \<open>malloc and free\<close>

definition malloc :: "u64 \<Rightarrow> 'a heap_scheme \<Rightarrow> (u64, 'a heap_scheme) run" where
  "malloc sz s =
     (let slab = get_slab sz s in if slab = 0 then big_malloc sz s else slab_alloc slab s)"

definition header_slab :: "u64 \<Rightarrow> 'a heap_scheme \<Rightarrow> u64" where
  "header_slab ptr s = load64 (mem s) (ptr AND NOT 0xFFF)"

definition heap_free :: "u64 \<Rightarrow> 'a heap_scheme \<Rightarrow> 'a heap_scheme" where
  "heap_free ptr s =
     (if ptr = 0 then s
      else if ptr AND 0xFFF = 0 then big_free ptr s
      else slab_free (header_slab ptr s) ptr s)"

definition calloc :: "u64 \<Rightarrow> u64 \<Rightarrow> 'a heap_scheme \<Rightarrow> (u64, 'a heap_scheme) run" where
  "calloc num sz s =
     bind_run (malloc (num * sz) s) (\<lambda>ptr s.
       if ptr = 0 then Inr (0, s) else Inr (ptr, s\<lparr>mem := memset (mem s) ptr 0 (num * sz)\<rparr>))"

text \<open>The common tail of the two reallocations: allocate, copy, free the old block.\<close>

definition move_block :: "u64 \<Rightarrow> u64 \<Rightarrow> u64 \<Rightarrow> 'a heap_scheme \<Rightarrow> (u64, 'a heap_scheme) run" where
  "move_block old_ptr old_size sz s =
     (if sz = 0 then Inr (0, heap_free old_ptr s)
      else
        let old_size = (if sz < old_size then sz else old_size) in
        bind_run (malloc sz s) (\<lambda>new_ptr s.
          if new_ptr = 0 then Inr (old_ptr, s)
          else Inr (new_ptr, heap_free old_ptr (s\<lparr>mem := memcpy (mem s) new_ptr old_ptr old_size\<rparr>))))"

definition big_realloc :: "u64 \<Rightarrow> u64 \<Rightarrow> 'a heap_scheme \<Rightarrow> (u64, 'a heap_scheme) run" where
  "big_realloc old_ptr sz s =
     (if old_ptr = 0 then malloc sz s
      else
        let meta_data = old_ptr - 0x1000; old_size = load64 (mem s) (meta_data + 8) in
        if div_roundup old_size 0x1000 = div_roundup sz 0x1000
        then Inr (0, s\<lparr>mem := store64 (mem s) (meta_data + 8) sz\<rparr>)
        else move_block old_ptr old_size sz s)"

definition realloc :: "u64 \<Rightarrow> u64 \<Rightarrow> 'a heap_scheme \<Rightarrow> (u64, 'a heap_scheme) run" where
  "realloc old_ptr sz s =
     (if old_ptr = 0 then malloc sz s
      else if old_ptr AND 0xFFF = 0 then big_realloc old_ptr sz s
      else move_block old_ptr (slab_size (mem s) (header_slab old_ptr s)) sz s)"

definition alloc_size :: "u64 \<Rightarrow> 'a heap_scheme \<Rightarrow> u64" where
  "alloc_size ptr s =
     (if ptr = 0 then 0
      else if ptr AND 0xFFF = 0 then big_alloc_size ptr s
      else slab_size (mem s) (header_slab ptr s))"

declare link_loop.simps [simp del]


section \<open>Free lists\<close>

text \<open>The list of objects threaded through memory from a head, as in the heap model of linked
  structures: each object's first word is the address of the next one, 0 ends the list.\<close>

fun free_list :: "memory \<Rightarrow> u64 \<Rightarrow> u64 list \<Rightarrow> bool" where
  "free_list m h [] \<longleftrightarrow> h = 0"
| "free_list m h (x # xs) \<longleftrightarrow> h = x \<and> x \<noteq> 0 \<and> free_list m (load64 m x) xs"

lemma free_list_cong:
  assumes "\<And>x a. x \<in> set xs \<Longrightarrow> a \<in> span x 8 \<Longrightarrow> m' a = m a"
  shows "free_list m' h xs = free_list m h xs"
  using assms
proof (induction xs arbitrary: h)
  case (Cons x xs)
  have "load64 m' x = load64 m x" using Cons.prems by (intro load64_cong) (meson list.set_intros(1))
  moreover have "free_list m' h' xs = free_list m h' xs" for h'
    using Cons.prems by (intro Cons.IH) (meson list.set_intros(2))
  ultimately show ?case by simp
qed simp

lemma free_list_0: "free_list m h xs \<Longrightarrow> h = 0 \<longleftrightarrow> xs = []"
  by (cases xs) auto

lemma free_list_nth:
  assumes "\<And>i. i < n \<Longrightarrow> load64 m (c i) = (if Suc i < n then c (Suc i) else 0)" and "\<And>i. i < n \<Longrightarrow> c i \<noteq> 0" and "k \<le> n"
  shows "free_list m (if k < n then c k else 0) (map c [k..<n])"
  using assms(3)
proof (induction "n - k" arbitrary: k)
  case (Suc d)
  then have "k < n" "d = n - Suc k" by simp_all
  then show ?case
    using Suc(1) [of "Suc k"] assms(1) [of k] assms(2) [of k] by (simp add: upt_conv_Cons)
qed simp

text \<open>A sequence of stores to disjoint cells.\<close>

lemma fold_store64:
  assumes "\<And>i j. i < n \<Longrightarrow> j < n \<Longrightarrow> i \<noteq> j \<Longrightarrow> span (c i) 8 \<inter> span (c j) 8 = {}"
    and "set js \<subseteq> {..<n}" and "distinct js" and "k < n"
  shows "load64 (fold (\<lambda>j m. store64 m (c j) (v j)) js m) (c k) = (if k \<in> set js then v k else load64 m (c k))"
  using assms(2,3)
proof (induction js arbitrary: m)
  case (Cons j js)
  have "k \<noteq> j \<Longrightarrow> load64 (store64 m (c j) (v j)) (c k) = load64 m (c k)"
    using Cons.prems assms(1,4) by (intro load64_store64_disjoint) auto
  then show ?case using Cons by auto
qed simp

lemma fold_store64_outside:
  assumes "\<And>j. j \<in> set js \<Longrightarrow> x \<notin> span (c j) 8"
  shows "fold (\<lambda>j m. store64 m (c j) (v j)) js m x = m x"
  using assms by (induction js arbitrary: m) (auto simp: store64_outside simp del: in_span)

lemma link_loop_fold:
  "link_loop array count mx i m =
    fold (\<lambda>j m. store64 m (array + 8 * (of_nat j * count)) (array + 8 * (of_nat (Suc j) * count))) [unat i..<unat mx] m"
proof (induction array count mx i m rule: link_loop.induct)
  case (1 array count mx i m)
  show ?case
  proof (cases "i < mx")
    case True
    then have "[unat i..<unat mx] = unat i # [unat (i + 1)..<unat mx]"
      by (simp add: unat_plus_one word_less_nat_alt upt_conv_Cons)
    moreover have "of_nat (Suc (unat i)) = i + 1" by simp
    ultimately show ?thesis
      using 1 True by (simp add: link_loop.simps [of array count mx i] add.commute [of 1])
  next
    case False
    then show ?thesis by (simp add: link_loop.simps [of array count mx i] word_less_nat_alt)
  qed
qed

text \<open>What the loop and the store after it leave behind.\<close>

lemma link_loop_list:
  fixes array count mx :: u64 and m :: memory
  defines "cell \<equiv> \<lambda>j. array + 8 * (of_nat j * count)" and "n \<equiv> Suc (unat mx)"
  defines "m' \<equiv> store64 (link_loop array count mx 0 m) (array + 8 * (mx * count)) 0"
  assumes disj: "\<And>i j. i < n \<Longrightarrow> j < n \<Longrightarrow> i \<noteq> j \<Longrightarrow> span (cell i) 8 \<inter> span (cell j) 8 = {}"
    and nz: "\<And>i. i < n \<Longrightarrow> cell i \<noteq> 0"
  shows "free_list m' array (map cell [0..<n])"
    and "\<And>x. (\<And>i. i < n \<Longrightarrow> x \<notin> span (cell i) 8) \<Longrightarrow> m' x = m x"
proof -
  let ?js = "[0..<n]" and ?v = "\<lambda>j. if Suc j < n then cell (Suc j) else 0"
  have "m' = store64 (fold (\<lambda>j m. store64 m (cell j) (?v j)) [0..<unat mx] m) (cell (unat mx)) (?v (unat mx))"
  proof -
    have "fold (\<lambda>j m. store64 m (cell j) (cell (Suc j))) [0..<unat mx] m =
      fold (\<lambda>j m. store64 m (cell j) (?v j)) [0..<unat mx] m"
      by (intro fold_cong) (auto simp: n_def)
    then show ?thesis by (simp add: m'_def link_loop_fold cell_def n_def)
  qed
  then have m': "m' = fold (\<lambda>j m. store64 m (cell j) (?v j)) ?js m" by (simp add: n_def)
  have "load64 m' (cell i) = ?v i" if "i < n" for i
  proof -
    have sub: "set ?js \<subseteq> {..<n}" by auto
    show ?thesis unfolding m' using fold_store64 [where c = cell and n = n and v = ?v and m = m, OF disj sub _ that] that by simp
  qed
  from free_list_nth [of n m' cell 0, OF this nz]
  show "free_list m' array (map cell [0..<n])" by (simp add: n_def cell_def del: upt_Suc)
  show "m' x = m x" if "\<And>i. i < n \<Longrightarrow> x \<notin> span (cell i) 8" for x
    unfolding m' using that by (intro fold_store64_outside) auto
qed


section \<open>The layout of a slab\<close>

text \<open>Offset of the first object of a page and number of objects, as the code computes them.\<close>

definition obj_offset :: "u64 \<Rightarrow> u64" where
  "obj_offset sz = align_up sizeof_slab_header sz"

definition obj_count :: "u64 \<Rightarrow> nat" where
  "obj_count sz = unat ((0x1000 - obj_offset sz) div sz)"

lemma slab_geometry:
  assumes "sz \<in> set slab_sizes"
  shows "8 \<le> unat (obj_offset sz)" "unat (obj_offset sz) + obj_count sz * unat sz \<le> 4096"
    "8 dvd unat sz" "16 \<le> unat sz" "unat sz \<le> 1024" "2 \<le> obj_count sz" "unat (obj_offset sz) < 4096"
  using assms
  by (auto simp: slab_sizes_def obj_offset_def obj_count_def align_up_def align_down_def sizeof_slab_header_def unat_div)


definition obj :: "u64 \<Rightarrow> u64 \<Rightarrow> nat \<Rightarrow> u64" where
  "obj pg sz k = pg + obj_offset sz + of_nat k * sz"

lemma cell_obj:
  assumes "sz \<in> set slab_sizes"
  shows "pg + obj_offset sz + 8 * (of_nat j * (sz div 8)) = obj pg sz j"
proof -
  have "8 * (sz div 8) = sz" using assms by (auto simp: slab_sizes_def)
  then have "8 * (of_nat j * (sz div 8)) = of_nat j * sz" by (metis mult.left_commute)
  then show ?thesis by (simp add: obj_def)
qed

lemma unat_obj:
  assumes sz: "sz \<in> set slab_sizes" and k: "k < obj_count sz" and pg: "unat pg + 4096 \<le> 2 ^ 64"
  shows "unat (obj pg sz k) = unat pg + unat (obj_offset sz) + k * unat sz"
    and "unat (obj_offset sz) + k * unat sz + unat sz \<le> 4096"
proof -
  note g = slab_geometry [OF sz]
  have "Suc k * unat sz \<le> obj_count sz * unat sz" using k by (intro mult_le_mono1) simp
  then show le: "unat (obj_offset sz) + k * unat sz + unat sz \<le> 4096" using g(2) by simp
  then have lt: "k * unat sz < 4096" using g(4) by linarith
  have "k \<le> k * unat sz" using g(4) by simp
  then have uk: "unat (of_nat k :: u64) = k" using lt by (intro unat_of_nat64) (rule le_less_trans, assumption, simp)
  have "unat (of_nat k * sz) = k * unat sz" using lt uk by (subst unat_mult_nowrap) simp_all
  moreover have "unat (pg + obj_offset sz) = unat pg + unat (obj_offset sz)"
    using pg g(7) by (intro unat_plus_nowrap) linarith
  ultimately show "unat (obj pg sz k) = unat pg + unat (obj_offset sz) + k * unat sz"
    unfolding obj_def using pg le g(4) by (subst unat_plus_nowrap) linarith+
qed

lemma obj_in_page:
  assumes "sz \<in> set slab_sizes" and "k < obj_count sz" and "unat pg + 4096 \<le> 2 ^ 64"
  shows "span (obj pg sz k) (unat sz) \<subseteq> span pg 4096" and "span (obj pg sz k) (unat sz) \<inter> span pg 8 = {}"
    and "obj pg sz k \<noteq> 0"
proof -
  note u = unat_obj [OF assms] and g = slab_geometry [OF assms(1)]
  have nowrap: "unat (obj pg sz k) + unat sz \<le> 2 ^ 64" using u assms(3) by linarith
  show "span (obj pg sz k) (unat sz) \<subseteq> span pg 4096"
    using u by (auto simp: span_nat [OF nowrap] span_nat [OF assms(3)] simp del: in_span)
  show "span (obj pg sz k) (unat sz) \<inter> span pg 8 = {}"
    using nowrap u g(1) assms(3) by (intro span_disjoint_nat) linarith+
  show "obj pg sz k \<noteq> 0" using u(1) g(1) by auto
qed

lemma obj_disjoint:
  assumes "sz \<in> set slab_sizes" and "k < obj_count sz" and "j < obj_count sz" and "unat pg + 4096 \<le> 2 ^ 64" and "k \<noteq> j"
  shows "span (obj pg sz k) (unat sz) \<inter> span (obj pg sz j) (unat sz) = {}"
proof -
  note uk = unat_obj [OF assms(1,2,4)] and uj = unat_obj [OF assms(1,3,4)]
  have "Suc k * unat sz \<le> j * unat sz \<or> Suc j * unat sz \<le> k * unat sz"
    using assms(5) by (meson Suc_leI mult_le_mono1 nat_neq_iff)
  then show ?thesis
    using uk uj assms(4) by (intro span_disjoint_nat) (linarith, linarith, auto)
qed


text \<open>The two words of a \<^verbatim>\<open>slab_t\<close>.\<close>

lemma slab_t_words:
  fixes p :: u64
  assumes "unat p + 16 \<le> 2 ^ 64"
  shows "span p 8 \<subseteq> span p 16" "span (p + 8) 8 \<subseteq> span p 16" "span p 8 \<inter> span (p + 8) 8 = {}"
proof -
  have u: "unat (p + 8) = unat p + 8" using assms by (subst unat_plus_nowrap) simp_all
  show "span p 8 \<subseteq> span p 16" by (rule span_mono) simp
  show "span (p + 8) 8 \<subseteq> span p 16" using span_shift [of 8 8 16 p] by simp
  show "span p 8 \<inter> span (p + 8) 8 = {}" using assms u by (intro span_disjoint_nat) simp_all
qed

lemma slab_size_set_head: "unat p + 16 \<le> 2 ^ 64 \<Longrightarrow> slab_size (set_head m p v) p = slab_size m p"
  unfolding slab_size_def set_head_def by (intro load64_store64_disjoint slab_t_words)

lemma slab_head_set_head [simp]: "slab_head (set_head m p v) p = v"
  by (simp add: slab_head_def set_head_def)

lemma slab_size_set_size [simp]: "slab_size (set_size m p v) p = v"
  by (simp add: slab_size_def set_size_def)

lemma slab_store_outside:
  assumes "unat p + 16 \<le> 2 ^ 64" and "span p 16 \<inter> span a 8 = {}"
  shows "slab_size (store64 m a v) p = slab_size m p" "slab_head (store64 m a v) p = slab_head m p"
  unfolding slab_size_def slab_head_def
  by (intro load64_store64_disjoint; use slab_t_words(1,2) [OF assms(1)] assms(2) in blast)+

lemma slab_fields_cong:
  assumes "unat p + 16 \<le> 2 ^ 64" and "\<And>x. x \<in> span p 16 \<Longrightarrow> m' x = m x"
  shows "slab_size m' p = slab_size m p" "slab_head m' p = slab_head m p"
  unfolding slab_size_def slab_head_def
  by (intro load64_cong; use slab_t_words(1,2) [OF assms(1)] assms(2) in blast)+

text \<open>The page the initialisation of a slab is given, the list it builds there, and what it
  leaves alone.\<close>

lemma slab_init_effect:
  assumes sz: "sz \<in> set slab_sizes"
    and alloc: "alloc 1 (s\<lparr>mem := set_size (mem s) p sz\<rparr>) = Inr (ret, s1)"
    and pg: "pg = tohh (hhdm_offset s1) ret" "unat pg + 4096 \<le> 2 ^ 64" "span p 16 \<inter> span pg 4096 = {}"
    and p: "unat p + 16 \<le> 2 ^ 64" and size1: "slab_size (mem s1) p = sz"
  shows "\<exists>m'. slab_init p sz s = Inr ((), s1\<lparr>mem := m'\<rparr>) \<and> slab_size m' p = sz
    \<and> slab_head m' p = obj pg sz 0 \<and> load64 m' pg = p
    \<and> free_list m' (obj pg sz 0) (map (obj pg sz) [0..<obj_count sz])
    \<and> (\<forall>x. x \<notin> span p 8 \<and> x \<notin> span pg 4096 \<longrightarrow> m' x = mem s1 x)"
proof -
  note g = slab_geometry [OF sz] and w = slab_t_words [OF p]
  have page: "span pg 8 \<subseteq> span pg 4096" by (rule span_mono) simp
  then have d: "span p 16 \<inter> span pg 8 = {}" using pg(3) by blast
  define m1 m2 m3 where "m1 = set_head (mem s1) p pg" and "m2 = store64 m1 pg p"
    and "m3 = set_head m2 p (pg + obj_offset sz)"
  have l: "slab_size m1 p = sz" "slab_size m2 p = sz" "slab_head m2 p = pg" "slab_head m1 p = pg"
    "slab_size m3 p = sz" "slab_head m3 p = obj pg sz 0"
    using slab_store_outside [OF p d] size1
    by (simp_all add: m1_def m2_def m3_def slab_size_set_head [OF p] obj_def)
  define mx m' where "mx = (0x1000 - obj_offset sz) div sz - 1"
    and "m' = store64 (link_loop (pg + obj_offset sz) (sz div 8) mx 0 m3) (pg + obj_offset sz + 8 * (mx * (sz div 8))) 0"
  have run: "slab_init p sz s = Inr ((), s1\<lparr>mem := m'\<rparr>)"
    using l
    by (simp add: slab_init_def alloc Let_def flip: pg(1) m1_def m2_def m3_def obj_offset_def)
      (simp add: m'_def mx_def obj_def)
  have n: "Suc (unat mx) = obj_count sz"
    using g(6) by (simp add: mx_def obj_count_def unat_minus_one word_unat_eq_iff)
  have cells: "span (obj pg sz i) 8 \<subseteq> span (obj pg sz i) (unat sz)" for i using g(4) by (intro span_mono) simp
  have "span (obj pg sz i) 8 \<inter> span (obj pg sz j) 8 = {}" if "i < obj_count sz" "j < obj_count sz" "i \<noteq> j" for i j
    using obj_disjoint [OF sz that(1,2) pg(2) that(3)] cells by blast
  then have list: "free_list m' (pg + obj_offset sz) (map (obj pg sz) [0..<obj_count sz])"
    and out: "\<And>x. (\<And>i. i < obj_count sz \<Longrightarrow> x \<notin> span (obj pg sz i) 8) \<Longrightarrow> m' x = m3 x"
    using link_loop_list [where array = "pg + obj_offset sz" and count = "sz div 8" and mx = mx and m = m3,
        folded m'_def, unfolded n cell_obj [OF sz]] obj_in_page(3) [OF sz _ pg(2)] by blast+
  have objs: "x \<notin> span (obj pg sz i) 8" if "x \<notin> span pg 4096 \<or> x \<in> span pg 8" "i < obj_count sz" for x i
    using obj_in_page(1,2) [OF sz that(2) pg(2)] cells [of i] that(1) by blast
  have "m' x = mem s1 x" if "x \<notin> span p 8" "x \<notin> span pg 4096" for x
  proof -
    have "x \<notin> span pg 8" using that(2) page by blast
    then have "m3 x = mem s1 x"
      using that(1) by (simp add: m3_def m2_def m1_def set_head_def store64_outside del: in_span)
    then show ?thesis using out [OF objs [OF disjI1]] that(2) by simp
  qed
  moreover have eq: "m' x = m3 x" if "x \<in> span p 16" for x
  proof -
    have "x \<notin> span pg 4096" using that pg(3) by blast
    then show ?thesis using objs by (intro out) blast
  qed
  have "slab_size m' p = sz" "slab_head m' p = obj pg sz 0"
    using slab_fields_cong(1) [OF p eq] slab_fields_cong(2) [OF p eq] by (simp_all only: l(5,6))
  moreover have lp: "load64 m' pg = load64 m3 pg" by (intro load64_cong out objs) simp_all
  have "span p 8 \<inter> span pg 8 = {}" using d w(1) by blast
  then have "load64 m' pg = p"
    by (simp add: lp m3_def m2_def set_head_def load64_store64_disjoint)
  ultimately show ?thesis using run list by (auto simp: obj_def)
qed

end
