(* ===== verification/Ice_Paging.thy ===== *)
theory Ice_Paging
  imports Ice_Slab
begin

text \<open>
  Page tables: \<^verbatim>\<open>kernel/arch/x86_64/memory/virtual.cpp\<close>, the inline members of
  \<^verbatim>\<open>kernel/include/memory/virtual.hpp\<close> and \<^verbatim>\<open>kernel/memory/virtual.cpp\<close>. Tables live in the same byte
  memory as the heap that allocates them. A \<^verbatim>\<open>pagemap_t\<close> is a record of its fields; its \<^verbatim>\<open>ranges\<close> belong
  to \<^verbatim>\<open>memmap.cpp\<close>. The hardware's own page walk is the specification of what the tables mean.
\<close>

unbundle bit_operations_syntax

section \<open>State\<close>

record pagemap_t =
  top_level :: u64
  pm_llpage_size :: u64
  pm_lpage_size :: u64
  pm_page_size :: u64

text \<open>\<open>kernel_pagemap\<close> is \<^const>\<open>None\<close> for the null pointer; \<open>invalidated\<close> collects the addresses given to
  \<^verbatim>\<open>invlpg\<close>.\<close>

record vmm = heap +
  gib1_pages :: bool
  kernel_pagemap :: "pagemap_t option"
  cr3 :: u64
  invalidated :: "u64 list"

definition KiB4 :: u64 where "KiB4 = 0x1000"
definition MiB2 :: u64 where "MiB2 = 0x200000"
definition GiB1 :: u64 where "GiB1 = 0x40000000"
definition invalid_addr :: u64 where "invalid_addr = - 1"
definition pa_mask :: u64 where "pa_mask = 0x000FFFFFFFFFF000"

text \<open>Flags of the interface.\<close>

definition READ :: u64 where "READ = 1"
definition WRITE :: u64 where "WRITE = 2"
definition EXEC :: u64 where "EXEC = 4"
definition USER :: u64 where "USER = 8"
definition GLOBAL :: u64 where "GLOBAL = 16"
definition LPAGE :: u64 where "LPAGE = 32"
definition LLPAGE :: u64 where "LLPAGE = 64"

definition RW :: u64 where "RW = 3"
definition RWX :: u64 where "RWX = 7"

text \<open>Bits of an entry.\<close>

definition present :: u64 where "present = 1"
definition pte_write :: u64 where "pte_write = 2"
definition user_super :: u64 where "user_super = 4"
definition write_through :: u64 where "write_through = 8"
definition cache_disable :: u64 where "cache_disable = 16"
definition larger_pages :: u64 where "larger_pages = 128"
definition pat4k :: u64 where "pat4k = 128"
definition pte_global :: u64 where "pte_global = 256"
definition patlg :: u64 where "patlg = 4096"
definition no_exec :: u64 where "no_exec = push_bit 63 1"

datatype caching = UNCACHABLE | WRITE_THROUGH | WRITE_PROTECTED | WRITE_COMBINING | WRITE_BACK

section \<open>Entries\<close>

definition pte_set_flags :: "u64 \<Rightarrow> u64 \<Rightarrow> bool \<Rightarrow> u64" where
  "pte_set_flags v flags enabled = (let temp = v AND NOT flags in if enabled then temp OR flags else temp)"

definition pte_has_flags :: "u64 \<Rightarrow> u64 \<Rightarrow> bool" where
  "pte_has_flags v flags \<longleftrightarrow> v AND flags \<noteq> 0"

definition pte_flags :: "u64 \<Rightarrow> u64" where
  "pte_flags v = v AND NOT pa_mask"

definition pte_address :: "u64 \<Rightarrow> u64" where
  "pte_address v = v AND pa_mask"

definition pte_set_address :: "u64 \<Rightarrow> u64 \<Rightarrow> u64" where
  "pte_set_address v address = (v AND NOT pa_mask) OR address"

definition is_lpage :: "u64 \<Rightarrow> bool" where
  "is_lpage flags \<longleftrightarrow> flags AND LPAGE \<noteq> 0 \<or> flags AND LLPAGE \<noteq> 0"

definition flags_to_arch :: "u64 \<Rightarrow> u64" where
  "flags_to_arch flags =
     (let ret = present;
          ret = (if flags AND WRITE \<noteq> 0 then ret OR pte_write else ret);
          ret = (if flags AND USER \<noteq> 0 then ret OR user_super else ret);
          ret = (if flags AND EXEC = 0 then ret OR no_exec else ret);
          ret = (if flags AND GLOBAL \<noteq> 0 then ret OR pte_global else ret)
      in if is_lpage flags then ret OR larger_pages else ret)"

definition cache_to_flags :: "caching \<Rightarrow> bool \<Rightarrow> u64" where
  "cache_to_flags cache larger =
     (let pat_bit = (if larger then patlg else pat4k) in
      case cache of UNCACHABLE \<Rightarrow> 0
      | WRITE_COMBINING \<Rightarrow> write_through
      | WRITE_THROUGH \<Rightarrow> pat_bit
      | WRITE_PROTECTED \<Rightarrow> pat_bit OR write_through
      | WRITE_BACK \<Rightarrow> pat_bit OR cache_disable)"

definition is_canonical :: "u64 \<Rightarrow> bool" where
  "is_canonical address \<longleftrightarrow> address \<le> 0x00007FFFFFFFFFFF \<or> address \<ge> 0xFFFF800000000000"

definition get_page_size :: "pagemap_t \<Rightarrow> u64 \<Rightarrow> u64" where
  "get_page_size pm flags =
     (let sz = pm_page_size pm;
          sz = (if flags AND LPAGE \<noteq> 0 then pm_lpage_size pm else sz)
      in if flags AND LLPAGE \<noteq> 0 then pm_llpage_size pm else sz)"

definition required_size :: "pagemap_t \<Rightarrow> u64 \<Rightarrow> u64 \<times> u64" where
  "required_size pm sz =
     (if sz \<ge> pm_llpage_size pm then (pm_llpage_size pm, LLPAGE)
      else if sz \<ge> pm_lpage_size pm then (pm_lpage_size pm, LPAGE)
      else (pm_page_size pm, 0))"

section \<open>Walking the tables\<close>

text \<open>\<^verbatim>\<open>&table->entries[i]\<close>.\<close>

definition entry_at :: "u64 \<Rightarrow> u64 \<Rightarrow> u64" where
  "entry_at table i = table + 8 * i"

text \<open>\<^verbatim>\<open>new page_table_t\<close>: the constructors of the 512 entries store zero.\<close>

definition new_page_table :: "'a heap_scheme \<Rightarrow> (u64, 'a heap_scheme) run" where
  "new_page_table s =
     bind_run (malloc 0x1000 s) (\<lambda>ret s.
       Inr (ret, s\<lparr>mem := fold (\<lambda>i m. store64 m (entry_at ret (of_nat i)) 0) [0..<512] (mem s)\<rparr>))"

definition get_next_lvl :: "u64 \<Rightarrow> u64 \<Rightarrow> bool \<Rightarrow> 'a heap_scheme \<Rightarrow> (u64, 'a heap_scheme) run" where
  "get_next_lvl curr_lvl entry allocate s =
     (if curr_lvl = 0 then Inr (0, s)
      else if pte_has_flags (load64 (mem s) (entry_at curr_lvl entry)) present
      then Inr (tohh (hhdm_offset s) (pte_address (load64 (mem s) (entry_at curr_lvl entry))), s)
      else if allocate
      then bind_run (new_page_table s) (\<lambda>ret s.
        let e = entry_at curr_lvl entry;
            v = pte_set_address (load64 (mem s) e) (fromhh (hhdm_offset s) ret);
            v = pte_set_flags v (present OR pte_write OR user_super) True
        in Inr (ret, s\<lparr>mem := store64 (mem s) e v\<rparr>))
      else Inr (0, s))"

definition level_index :: "nat \<Rightarrow> u64 \<Rightarrow> u64" where
  "level_index n va = drop_bit n (va AND push_bit n 0x1FF)"

text \<open>The result is the address of an entry or the null pointer.\<close>

definition virtual_to_pt_entry ::
  "pagemap_t \<Rightarrow> u64 \<Rightarrow> bool \<Rightarrow> u64 \<Rightarrow> 'a heap_scheme \<Rightarrow> (u64, 'a heap_scheme) run" where
  "virtual_to_pt_entry pm va allocate psize s =
     (let pml4_entry = level_index 39 va; pml3_entry = level_index 30 va;
          pml2_entry = level_index 21 va; pml1_entry = level_index 12 va;
          pml4 = top_level pm in
      if pml4 = 0 then Inr (0, s)
      else bind_run (get_next_lvl pml4 pml4_entry allocate s) (\<lambda>pml3 s.
        if pml3 = 0 then Inr (0, s)
        else if psize = pm_llpage_size pm then Inr (entry_at pml3 pml3_entry, s)
        else bind_run (get_next_lvl pml3 pml3_entry allocate s) (\<lambda>pml2 s.
          if pml2 = 0 then Inr (0, s)
          else if psize = pm_lpage_size pm then Inr (entry_at pml2 pml2_entry, s)
          else bind_run (get_next_lvl pml2 pml2_entry allocate s) (\<lambda>pml1 s.
            if pml1 = 0 then Inr (0, s) else Inr (entry_at pml1 pml1_entry, s)))))"

definition virtual_to_physical :: "pagemap_t \<Rightarrow> u64 \<Rightarrow> u64 \<Rightarrow> 'a heap_scheme \<Rightarrow> (u64, 'a heap_scheme) run" where
  "virtual_to_physical pm va flags s =
     (let psize = get_page_size pm flags in
      bind_run (virtual_to_pt_entry pm va False psize s) (\<lambda>e s.
        if e = 0 \<or> \<not> pte_has_flags (load64 (mem s) e) present then Inr (invalid_addr, s)
        else Inr (pte_address (load64 (mem s) e) + va mod psize, s)))"

section \<open>Mapping\<close>

definition map_one ::
  "pagemap_t \<Rightarrow> u64 \<Rightarrow> u64 \<Rightarrow> u64 \<Rightarrow> caching \<Rightarrow> u64 \<Rightarrow> 'a heap_scheme \<Rightarrow> (bool, 'a heap_scheme) run" where
  "map_one pm va pa flags cache psize s =
     bind_run (virtual_to_pt_entry pm va True psize s) (\<lambda>e s.
       if e = 0 then Inr (False, s)
       else
         let real_flags = flags_to_arch flags OR cache_to_flags cache (psize \<noteq> pm_page_size pm);
             v = pte_set_address (load64 (mem s) e) pa;
             v = pte_set_flags v real_flags True
         in Inr (True, s\<lparr>mem := store64 (mem s) e v\<rparr>))"

text \<open>The offsets \<^verbatim>\<open>for (i = 0; i < GiB1; i += MiB2)\<close> runs through.\<close>

definition chunk_offsets :: "u64 list" where
  "chunk_offsets = map (\<lambda>k. of_nat k * MiB2) [0..<512]"

definition split_flags :: "u64 \<Rightarrow> u64" where
  "split_flags flags = (flags AND NOT LLPAGE) OR LPAGE"

definition map_page ::
  "pagemap_t \<Rightarrow> u64 \<Rightarrow> u64 \<Rightarrow> u64 \<Rightarrow> caching \<Rightarrow> 'a vmm_scheme \<Rightarrow> (bool, 'a vmm_scheme) run" where
  "map_page pm va pa flags cache s =
     (let psize = get_page_size pm flags in
      if psize = pm_llpage_size pm \<and> \<not> gib1_pages s
      then run_all (\<lambda>i. map_one pm (va + i) (pa + i) (split_flags flags) cache MiB2) chunk_offsets s
      else map_one pm va pa flags cache psize s)"

text \<open>The lambda \<^verbatim>\<open>unmap_one\<close> names \<^verbatim>\<open>page_size\<close> before the local of that name is declared: it is the
  member, the size of a small page, whatever the size of the mapping.\<close>

definition unmap_one :: "pagemap_t \<Rightarrow> u64 \<Rightarrow> 'a vmm_scheme \<Rightarrow> (bool, 'a vmm_scheme) run" where
  "unmap_one pm va s =
     bind_run (virtual_to_pt_entry pm va False (pm_page_size pm) s) (\<lambda>e s.
       if e = 0 then Inr (False, s)
       else Inr (True, s\<lparr>mem := store64 (mem s) e 0, invalidated := invalidated s @ [va]\<rparr>))"

definition unmap_page :: "pagemap_t \<Rightarrow> u64 \<Rightarrow> u64 \<Rightarrow> 'a vmm_scheme \<Rightarrow> (bool, 'a vmm_scheme) run" where
  "unmap_page pm va flags s =
     (let psize = get_page_size pm flags in
      if psize = pm_llpage_size pm \<and> \<not> gib1_pages s
      then run_all (\<lambda>i. unmap_one pm (va + i)) chunk_offsets s
      else unmap_one pm va s)"

definition set_page_flags :: "pagemap_t \<Rightarrow> u64 \<Rightarrow> u64 \<Rightarrow> caching \<Rightarrow> 'a heap_scheme \<Rightarrow> (bool, 'a heap_scheme) run" where
  "set_page_flags pm va flags cache s =
     (let psize = get_page_size pm flags in
      bind_run (virtual_to_pt_entry pm va True psize s) (\<lambda>e s.
        if e = 0 then Inr (False, s)
        else
          let real_flags = flags_to_arch flags OR cache_to_flags cache (psize \<noteq> pm_page_size pm);
              address = pte_address (load64 (mem s) e);
              v = pte_set_address 0 address;
              v = pte_set_flags v real_flags True
          in Inr (True, s\<lparr>mem := store64 (mem s) e v\<rparr>)))"

definition remap :: "pagemap_t \<Rightarrow> u64 \<Rightarrow> u64 \<Rightarrow> u64 \<Rightarrow> caching \<Rightarrow> 'a vmm_scheme \<Rightarrow> (bool, 'a vmm_scheme) run" where
  "remap pm old_ptr new_ptr flags cache s =
     bind_run (virtual_to_physical pm old_ptr flags s) (\<lambda>pa s.
       bind_run (unmap_page pm old_ptr flags s) (\<lambda>_. map_page pm new_ptr pa flags cache))"

subsection \<open>Ranges\<close>

text \<open>The loops of the range operations ignore the result of each step. The first, \<^verbatim>\<open>map_range\<close> with a
  cache argument, unmaps.\<close>

definition ignore :: "(bool, 's) run \<Rightarrow> (bool, 's) run" where
  "ignore r = bind_run r (\<lambda>_ s. Inr (True, s))"

definition map_range_cached ::
  "pagemap_t \<Rightarrow> u64 \<Rightarrow> u64 \<Rightarrow> u64 \<Rightarrow> u64 \<Rightarrow> caching \<Rightarrow> 'a vmm_scheme \<Rightarrow> (bool, 'a vmm_scheme) run option" where
  "map_range_cached pm va pa sz flags cache s =
     for_run 0 sz (get_page_size pm flags) (\<lambda>i s. ignore (unmap_page pm (va + i) flags s)) s"

definition unmap_range :: "pagemap_t \<Rightarrow> u64 \<Rightarrow> u64 \<Rightarrow> u64 \<Rightarrow> 'a vmm_scheme \<Rightarrow> (bool, 'a vmm_scheme) run option" where
  "unmap_range pm va sz flags s =
     for_run 0 sz (get_page_size pm flags) (\<lambda>i s. ignore (unmap_page pm (va + i) flags s)) s"

definition remap_range ::
  "pagemap_t \<Rightarrow> u64 \<Rightarrow> u64 \<Rightarrow> u64 \<Rightarrow> u64 \<Rightarrow> caching \<Rightarrow> 'a vmm_scheme \<Rightarrow> (bool, 'a vmm_scheme) run option" where
  "remap_range pm old_ptr new_ptr sz flags cache s =
     for_run 0 sz (get_page_size pm flags) (\<lambda>i s. ignore (remap pm (old_ptr + i) (new_ptr + i) flags cache s)) s"

definition set_flags_range ::
  "pagemap_t \<Rightarrow> u64 \<Rightarrow> u64 \<Rightarrow> u64 \<Rightarrow> caching \<Rightarrow> 'a vmm_scheme \<Rightarrow> (bool, 'a vmm_scheme) run option" where
  "set_flags_range pm va sz flags cache s =
     for_run 0 sz (get_page_size pm flags) (\<lambda>i s. ignore (set_page_flags pm (va + i) flags cache s)) s"

section \<open>Page maps\<close>

text \<open>The constructor \<^verbatim>\<open>pagemap_t::pagemap_t\<close>: a new top level whose upper half is filled with empty
  tables the first time and shared with the kernel's afterwards.\<close>

definition kernel_half :: "u64 list" where
  "kernel_half = map of_nat [256..<512]"

definition pagemap_ctor :: "'a vmm_scheme \<Rightarrow> (pagemap_t, 'a vmm_scheme) run" where
  "pagemap_ctor s =
     bind_run (new_page_table s) (\<lambda>top s.
       let pm = \<lparr>top_level = top, pm_llpage_size = GiB1, pm_lpage_size = MiB2, pm_page_size = KiB4\<rparr> in
       case kernel_pagemap s of
         None \<Rightarrow> bind_run (run_all (\<lambda>i s. bind_run (get_next_lvl top i True s) (\<lambda>_ s. Inr (True, s))) kernel_half s)
                    (\<lambda>_ s. Inr (pm, s))
       | Some k \<Rightarrow> Inr (pm, s\<lparr>mem := fold (\<lambda>i m. store64 m (entry_at top i) (load64 m (entry_at (top_level k) i)))
                                   kernel_half (mem s)\<rparr>))"

definition load_pagemap :: "pagemap_t \<Rightarrow> 'a vmm_scheme \<Rightarrow> 'a vmm_scheme" where
  "load_pagemap pm s = s\<lparr>cr3 := fromhh (hhdm_offset s) (top_level pm)\<rparr>"

definition save_pagemap :: "pagemap_t \<Rightarrow> 'a vmm_scheme \<Rightarrow> pagemap_t" where
  "save_pagemap pm s = pm\<lparr>top_level := tohh (hhdm_offset s) (cr3 s)\<rparr>"

text \<open>\<^verbatim>\<open>destroy_level\<close> frees a table after the tables its entries point to; the number is the level.\<close>

fun destroy_level :: "nat \<Rightarrow> u64 \<Rightarrow> nat \<Rightarrow> nat \<Rightarrow> 'a heap_scheme \<Rightarrow> 'a heap_scheme" where
  "destroy_level 0 pml start stop s = s"
| "destroy_level (Suc level) pml start stop s =
     heap_free pml (fold (\<lambda>i s.
       case get_next_lvl pml (of_nat i) False s of
         Inl s' \<Rightarrow> s'
       | Inr (nxt, s') \<Rightarrow> if nxt = 0 then s' else destroy_level level nxt 0 512 s') [start..<stop] s)"

definition destroy_pagemap :: "pagemap_t \<Rightarrow> 'a heap_scheme \<Rightarrow> 'a heap_scheme" where
  "destroy_pagemap pm s = destroy_level 4 (top_level pm) 0 256 s"

section \<open>Initialisation\<close>

text \<open>The instruction \<^verbatim>\<open>cpuid\<close> is a parameter: from a leaf and a subleaf to \<^verbatim>\<open>eax\<close>, \<^verbatim>\<open>ebx\<close>, \<^verbatim>\<open>ecx\<close> and
  \<^verbatim>\<open>edx\<close>. \<^verbatim>\<open>cpu::id\<close> answers only for leaves the processor has.\<close>

type_synonym cpuid = "u32 \<Rightarrow> u32 \<Rightarrow> u32 \<times> u32 \<times> u32 \<times> u32"

definition cpu_id :: "cpuid \<Rightarrow> u32 \<Rightarrow> u32 \<Rightarrow> (u32 \<times> u32 \<times> u32 \<times> u32) option" where
  "cpu_id cpuid leaf subleaf =
     (let cpuid_max = fst (cpuid (leaf AND 0x80000000) 0)
      in if leaf > cpuid_max then None else Some (cpuid leaf subleaf))"

definition arch_init :: "cpuid \<Rightarrow> 'a vmm_scheme \<Rightarrow> 'a vmm_scheme" where
  "arch_init cpuid s =
     s\<lparr>gib1_pages := (case cpu_id cpuid 0x80000001 0 of None \<Rightarrow> False
        | Some (a, b, c, d) \<Rightarrow> d AND push_bit 26 1 = push_bit 26 1)\<rparr>"

text \<open>\<^verbatim>\<open>sizeof(pagemap_t)\<close>: a vector of three words, the pointer and three sizes.\<close>

definition sizeof_pagemap :: u64 where
  "sizeof_pagemap = 56"

definition new_pagemap :: "'a vmm_scheme \<Rightarrow> (pagemap_t, 'a vmm_scheme) run" where
  "new_pagemap s = bind_run (malloc sizeof_pagemap s) (\<lambda>_. pagemap_ctor)"

definition LIMINE_MEMMAP_FRAMEBUFFER :: u64 where
  "LIMINE_MEMMAP_FRAMEBUFFER = 7"

text \<open>The three loops of \<^verbatim>\<open>paging::init\<close>: the first 4 GiB, the memory map above them, the kernel image.
  Every address is mapped at itself and in the direct map.\<close>

definition map_both :: "pagemap_t \<Rightarrow> u64 \<Rightarrow> u64 \<Rightarrow> u64 \<Rightarrow> caching \<Rightarrow> 'a vmm_scheme \<Rightarrow> (bool, 'a vmm_scheme) run" where
  "map_both pm i low_flags high_flags cache s =
     bind_run (assert_run (map_page pm i i low_flags cache) s) (\<lambda>_ s.
       assert_run (map_page pm (tohh (hhdm_offset s) i) i high_flags cache) s)"

definition init_low :: "pagemap_t \<Rightarrow> 'a vmm_scheme \<Rightarrow> (bool, 'a vmm_scheme) run option" where
  "init_low pm s =
     (let (psize, flags) = required_size pm (GiB1 * 4)
      in for_run 0 (GiB1 * 4) psize (\<lambda>i. map_both pm i (RWX OR flags) (RW OR flags) WRITE_BACK) s)"

definition init_entry :: "pagemap_t \<Rightarrow> limine_memmap_entry \<Rightarrow> 'a vmm_scheme \<Rightarrow> (bool, 'a vmm_scheme) run option" where
  "init_entry pm e s =
     (let base = align_down (me_base e) (pm_page_size pm);
          top = align_up (me_base e + me_length e) (pm_page_size pm);
          cache = (if me_type e = LIMINE_MEMMAP_FRAMEBUFFER then WRITE_COMBINING else WRITE_BACK)
      in if top < GiB1 * 4 then Some (Inr (True, s))
         else for_run base top (pm_page_size pm) (\<lambda>t s.
           if t < GiB1 * 4 then Inr (True, s) else map_both pm t RWX RW cache s) s)"

text \<open>Sequencing of loops that may halt or not end.\<close>

definition and_then :: "('v, 's) run option \<Rightarrow> ('s \<Rightarrow> ('w, 's) run option) \<Rightarrow> ('w, 's) run option" where
  "and_then r f = (case r of None \<Rightarrow> None | Some (Inl s) \<Rightarrow> Some (Inl s) | Some (Inr (v, s)) \<Rightarrow> f s)"

fun init_entries :: "pagemap_t \<Rightarrow> limine_memmap_entry list \<Rightarrow> 'a vmm_scheme \<Rightarrow> (bool, 'a vmm_scheme) run option" where
  "init_entries pm [] s = Some (Inr (True, s))"
| "init_entries pm (e # es) s = and_then (init_entry pm e s) (init_entries pm es)"

definition init_image :: "pagemap_t \<Rightarrow> u64 \<Rightarrow> u64 \<Rightarrow> u64 \<Rightarrow> 'a vmm_scheme \<Rightarrow> (bool, 'a vmm_scheme) run option" where
  "init_image pm file_size physical_base virtual_base s =
     for_run 0 file_size (pm_page_size pm) (\<lambda>i.
       assert_run (map_page pm (virtual_base + i) (physical_base + i) RWX WRITE_BACK)) s"

definition paging_init ::
  "cpuid \<Rightarrow> u64 \<Rightarrow> u64 \<Rightarrow> u64 \<Rightarrow> 'a vmm_scheme \<Rightarrow> (bool, 'a vmm_scheme) run option" where
  "paging_init cpuid file_size physical_base virtual_base s =
     (case new_pagemap (arch_init cpuid s) of
        Inl s \<Rightarrow> Some (Inl s)
      | Inr (pm, s) \<Rightarrow>
          let s = s\<lparr>kernel_pagemap := Some pm\<rparr> in
          and_then (init_low pm s) (\<lambda>s.
            and_then (init_entries pm (memmaps s) s) (\<lambda>s.
              and_then (init_image pm file_size physical_base virtual_base s) (\<lambda>s.
                Some (Inr (True, load_pagemap pm s))))))"

end
