(* ===== verification/Ice_Heap.thy ===== *)
theory Ice_Heap
  imports Ice_Slab
begin

text \<open>
  The correctness of the kernel heap of \<open>Ice_Slab\<close>. Ghost state records which block a page
  belongs to and the free list of each slab; the invariant ties it to memory. From it follow the
  properties of \<^verbatim>\<open>malloc\<close> and \<^verbatim>\<open>free\<close>: blocks in use do not overlap each other, the structures of the
  heap or the bitmap, and keep their contents.
\<close>

section \<open>Ghost state and invariant\<close>

text \<open>A page belongs to a slab or to a large block, given by its first page, its number of pages
  with the one in front, and the size it was requested with.\<close>

datatype owner = Slab nat | Big nat nat u64

definition page_addr :: "'a heap_scheme \<Rightarrow> nat \<Rightarrow> u64" where
  "page_addr s n = hhdm_offset s + of_nat n * page_size"

definition objs :: "(nat \<rightharpoonup> owner) \<Rightarrow> 'a heap_scheme \<Rightarrow> nat \<Rightarrow> u64 set" where
  "objs own s i = {obj (page_addr s n) (slab_sizes ! i) k | n k. own n = Some (Slab i) \<and> k < obj_count (slab_sizes ! i)}"

text \<open>The array of slabs lies outside the bitmap and the managed pages, the direct map is page
  aligned, and owned pages are managed and marked.\<close>

definition heap_env :: "nat set \<Rightarrow> (nat \<rightharpoonup> owner) \<Rightarrow> 'a heap_scheme \<Rightarrow> bool" where
  "heap_env M own s \<longleftrightarrow> pmm_inv M s \<and> 4096 dvd unat (hhdm_offset s) \<and> slabs_addr s \<noteq> 0 \<and> unat (slabs_addr s) + 160 \<le> 2 ^ 64
     \<and> span (slabs_addr s) 160 \<inter> span (bm_buffer (bitmap s)) 256 = {}
     \<and> (\<forall>n \<in> M. page_image (hhdm_offset s) n \<inter> span (slabs_addr s) 160 = {})
     \<and> (\<forall>n w. own n = Some w \<longrightarrow> n \<in> M \<and> \<not> page_free s n)"

definition page_ok :: "(nat \<rightharpoonup> owner) \<Rightarrow> 'a heap_scheme \<Rightarrow> nat \<Rightarrow> bool" where
  "page_ok own s n \<longleftrightarrow> (case own n of None \<Rightarrow> True
     | Some (Slab i) \<Rightarrow> i < 10 \<and> load64 (mem s) (page_addr s n) = slab_at s i
     | Some (Big a c z) \<Rightarrow> a \<le> n \<and> n < a + c \<and> 2 \<le> c \<and> (\<forall>k \<in> {a..<a + c}. own k = Some (Big a c z))
         \<and> load64 (mem s) (page_addr s a) = of_nat (c - 1) \<and> load64 (mem s) (page_addr s a + 8) = z
         \<and> unat z \<le> (c - 1) * 4096)"

definition slab_ok :: "(nat \<rightharpoonup> owner) \<Rightarrow> 'a heap_scheme \<Rightarrow> nat \<Rightarrow> u64 list \<Rightarrow> bool" where
  "slab_ok own s i xs \<longleftrightarrow> slab_size (mem s) (slab_at s i) = slab_sizes ! i
     \<and> free_list (mem s) (slab_head (mem s) (slab_at s i)) xs \<and> distinct xs \<and> set xs \<subseteq> objs own s i"

text \<open>The invariant with the slabs of a set \<open>K\<close> initialised; in normal operation all ten are.\<close>

definition heap_part :: "nat set \<Rightarrow> nat set \<Rightarrow> (nat \<rightharpoonup> owner) \<Rightarrow> (nat \<Rightarrow> u64 list) \<Rightarrow> 'a heap_scheme \<Rightarrow> bool" where
  "heap_part K M own fl s \<longleftrightarrow> K \<subseteq> {..<10} \<and> heap_env M own s \<and> (\<forall>n. page_ok own s n) \<and> (\<forall>i \<in> K. slab_ok own s i (fl i))"

abbreviation heap_inv :: "nat set \<Rightarrow> (nat \<rightharpoonup> owner) \<Rightarrow> (nat \<Rightarrow> u64 list) \<Rightarrow> 'a heap_scheme \<Rightarrow> bool" where
  "heap_inv \<equiv> heap_part {..<10}"

text \<open>The blocks in use: an address and a number of bytes.\<close>

definition live :: "(nat \<rightharpoonup> owner) \<Rightarrow> (nat \<Rightarrow> u64 list) \<Rightarrow> 'a heap_scheme \<Rightarrow> (u64 \<times> nat) set" where
  "live own fl s =
     {(x, unat (slab_sizes ! i)) | x i. i < 10 \<and> x \<in> objs own s i \<and> x \<notin> set (fl i)}
     \<union> {(page_addr s (a + 1), (c - 1) * 4096) | a c z. own a = Some (Big a c z)}"

section \<open>Addresses\<close>

lemma slab_sizes_length [simp]: "length slab_sizes = 10"
  by (simp add: slab_sizes_def)

lemma nth_slab_sizes [simp]: "i < 10 \<Longrightarrow> slab_sizes ! i \<in> set slab_sizes"
  by simp

lemma heap_envD:
  assumes "heap_env M own s"
  shows "pmm_inv M s" "slabs_addr s \<noteq> 0" "unat (slabs_addr s) + 160 \<le> 2 ^ 64"
    "span (slabs_addr s) 160 \<inter> span (bm_buffer (bitmap s)) 256 = {}"
    "\<And>n. n \<in> M \<Longrightarrow> page_image (hhdm_offset s) n \<inter> span (slabs_addr s) 160 = {}"
    "\<And>n w. own n = Some w \<Longrightarrow> n \<in> M \<and> \<not> page_free s n"
    "4096 dvd unat (hhdm_offset s)"
  using assms unfolding heap_env_def by blast+

lemma page_image_addr: "page_image (hhdm_offset s) n = span (page_addr s n) 4096"
  by (simp add: page_image_def page_addr_def)

lemma managed_page:
  assumes "pmm_inv M s" and "n \<in> M"
  shows "unat (page_addr s n) + 4096 \<le> 2 ^ 64" "unat (page_addr s n) = unat (hhdm_offset s) + n * 4096"
proof -
  have n: "n < page_limit s" and h: "unat (hhdm_offset s) + page_limit s * 4096 \<le> 2 ^ 64"
    using pmm_invD [OF assms(1)] assms(2) by auto
  then have "unat (of_nat n * page_size) = n * 4096"
    using page_limit_bound [of s] by (intro page_address) simp
  then show u: "unat (page_addr s n) = unat (hhdm_offset s) + n * 4096"
    unfolding page_addr_def using n h by (subst unat_plus_nowrap) simp_all
  have "Suc n * 4096 \<le> page_limit s * 4096" using n by (intro mult_le_mono1) simp
  then show "unat (page_addr s n) + 4096 \<le> 2 ^ 64" using u h by simp
qed

lemma managed_pages_disjoint:
  assumes "pmm_inv M s" and "n \<in> M" and "k \<in> M" and "n \<noteq> k"
  shows "span (page_addr s n) 4096 \<inter> span (page_addr s k) 4096 = {}"
  using page_images_disjoint [OF assms(4), of "page_limit s" "hhdm_offset s"] pmm_invD(5,7) [OF assms(1)] assms(2,3)
  by (simp add: page_image_addr)

lemma run_bounds:
  assumes "pmm_inv M s" and "{a..<a + c} \<subseteq> M" and "0 < c"
  shows "a + c \<le> page_limit s" "unat (page_addr s a) + c * 4096 \<le> 2 ^ 64"
proof -
  have "a + c - 1 \<in> M" "a \<in> M" using assms(2,3) by auto
  then show le: "a + c \<le> page_limit s" using pmm_invD(5) [OF assms(1), of "a + c - 1"] assms(3) by arith
  then have "(a + c) * 4096 \<le> page_limit s * 4096" by simp
  then show "unat (page_addr s a) + c * 4096 \<le> 2 ^ 64"
    using managed_page(2) [OF assms(1) \<open>a \<in> M\<close>] pmm_invD(7) [OF assms(1)] by (simp add: algebra_simps)
qed

lemma slab_at_inside:
  assumes "heap_env M own s" and "i < 10"
  shows "span (slab_at s i) 16 \<subseteq> span (slabs_addr s) 160" "unat (slab_at s i) + 16 \<le> 2 ^ 64"
    "unat (slab_at s i) = unat (slabs_addr s) + 16 * i"
proof -
  have "unat (of_nat i * 16 :: u64) = i * 16" using assms(2) by (subst unat_mult_nowrap) (simp_all add: unat_of_nat)
  then show u: "unat (slab_at s i) = unat (slabs_addr s) + 16 * i"
    unfolding slab_at_def sizeof_slab_t_def using assms heap_envD(3) [OF assms(1)]
    by (subst unat_plus_nowrap) simp_all
  show le: "unat (slab_at s i) + 16 \<le> 2 ^ 64" using u assms(2) heap_envD(3) [OF assms(1)] by simp
  show "span (slab_at s i) 16 \<subseteq> span (slabs_addr s) 160"
    using u assms(2) by (auto simp: span_nat [OF le] span_nat [OF heap_envD(3) [OF assms(1)]] simp del: in_span)
qed

lemma slab_at_disjoint:
  assumes "heap_env M own s" and "i < 10" and "j < 10" and "i \<noteq> j"
  shows "span (slab_at s i) 16 \<inter> span (slab_at s j) 16 = {}"
  using slab_at_inside [OF assms(1,2)] slab_at_inside [OF assms(1,3)] assms(4)
  by (intro span_disjoint_nat) auto

lemma page_addr_aligned:
  assumes "heap_env M own s" and "n \<in> M"
  shows "page_addr s n AND 0xFFF = 0"
proof -
  have "unat (page_addr s n) mod 4096 = 0"
    using managed_page(2) [OF heap_envD(1) [OF assms(1)] assms(2)] heap_envD(7) [OF assms(1)]
    by (simp add: mod_add_left_eq [symmetric])
  then show ?thesis using page_parts(1) [of "page_addr s n"] by (simp add: word_unat_eq_iff)
qed

text \<open>Where objects are.\<close>

lemma objE:
  assumes "x \<in> objs own s i"
  obtains n k where "x = obj (page_addr s n) (slab_sizes ! i) k" "own n = Some (Slab i)" "k < obj_count (slab_sizes ! i)"
  using assms by (auto simp: objs_def)

lemma obj_place:
  assumes env: "heap_env M own s" and i: "i < 10" and x: "x \<in> objs own s i"
  shows "\<exists>n. own n = Some (Slab i) \<and> n \<in> M \<and> span x (unat (slab_sizes ! i)) \<subseteq> span (page_addr s n) 4096
    \<and> span x (unat (slab_sizes ! i)) \<inter> span (page_addr s n) 8 = {} \<and> x AND NOT 0xFFF = page_addr s n
    \<and> x AND 0xFFF \<noteq> 0 \<and> x \<noteq> 0"
proof -
  let ?sz = "slab_sizes ! i"
  obtain n k where nk: "x = obj (page_addr s n) ?sz k" "own n = Some (Slab i)" "k < obj_count ?sz"
    using x by (rule objE)
  have sz: "?sz \<in> set slab_sizes" using i by simp
  have M: "n \<in> M" using heap_envD(6) [OF env nk(2)] by blast
  note pg = managed_page [OF heap_envD(1) [OF env] M]
  note u = unat_obj [OF sz nk(3) pg(1)] and g = slab_geometry [OF sz]
  let ?d = "unat (obj_offset ?sz) + k * unat ?sz"
  have d: "0 < ?d" "?d < 4096" "unat x = unat (page_addr s n) + ?d" using u g(1,4) nk(1) by simp_all
  have al: "4096 dvd unat (page_addr s n)" using heap_envD(7) [OF env] pg(2) by simp
  have "unat (x AND 0xFFF) = ?d" "unat (x AND NOT 0xFFF) = unat (page_addr s n)"
    unfolding page_parts using al d by auto
  then have "x AND NOT 0xFFF = page_addr s n" "x AND 0xFFF \<noteq> 0" using d(1) by (auto simp only: word_unat_eq_iff unat_0)
  then show ?thesis
    using nk M obj_in_page [OF sz nk(3) pg(1)] by (intro exI [of _ n]) simp
qed

lemma objs_apart:
  assumes env: "heap_env M own s" and ij: "i < 10" "j < 10" and x: "x \<in> objs own s i" and y: "y \<in> objs own s j"
    and ne: "i \<noteq> j \<or> x \<noteq> y"
  shows "span x (unat (slab_sizes ! i)) \<inter> span y (unat (slab_sizes ! j)) = {}"
proof -
  obtain n k where nk: "x = obj (page_addr s n) (slab_sizes ! i) k" "own n = Some (Slab i)" "k < obj_count (slab_sizes ! i)"
    using x by (rule objE)
  obtain n' k' where nk': "y = obj (page_addr s n') (slab_sizes ! j) k'" "own n' = Some (Slab j)" "k' < obj_count (slab_sizes ! j)"
    using y by (rule objE)
  have M: "n \<in> M" "n' \<in> M" using heap_envD(6) [OF env] nk(2) nk'(2) by blast+
  note pmm = heap_envD(1) [OF env]
  show ?thesis
  proof (cases "n = n'")
    case True
    then have "i = j" "k \<noteq> k'" using nk nk' ne by auto
    then show ?thesis
      using obj_disjoint [OF nth_slab_sizes [OF ij(1)] nk(3)] nk'(3) managed_page(1) [OF pmm M(1)] nk(1) nk'(1) True by simp
  next
    case False
    then have "span (page_addr s n) 4096 \<inter> span (page_addr s n') 4096 = {}"
      by (intro managed_pages_disjoint [OF pmm M])
    then show ?thesis
      using obj_in_page(1) [OF nth_slab_sizes [OF ij(1)] nk(3) managed_page(1) [OF pmm M(1)]]
        obj_in_page(1) [OF nth_slab_sizes [OF ij(2)] nk'(3) managed_page(1) [OF pmm M(2)]] nk(1) nk'(1) by blast
  qed
qed

section \<open>What the invariant depends on\<close>

text \<open>The bytes of the heap's own data: the heads of owned pages, the structures of the slabs and
  the links in free objects.\<close>

definition headers :: "(nat \<rightharpoonup> owner) \<Rightarrow> 'a heap_scheme \<Rightarrow> u64 set" where
  "headers own s = (\<Union>n \<in> {n. \<exists>i. own n = Some (Slab i)}. span (page_addr s n) 8)
     \<union> (\<Union>a \<in> {a. \<exists>c z. own a = Some (Big a c z)}. span (page_addr s a) 16)"

definition slab_bytes :: "'a heap_scheme \<Rightarrow> nat \<Rightarrow> u64 list \<Rightarrow> u64 set" where
  "slab_bytes s i xs = span (slab_at s i) 16 \<union> (\<Union>x \<in> set xs. span x 8)"

lemma pmm_inv_cong:
  assumes "pmm_inv M s" and "\<And>x. x \<in> span (bm_buffer (bitmap s)) 256 \<Longrightarrow> m x = mem s x"
  shows "pmm_inv M (s\<lparr>mem := m\<rparr>)" "page_free (s\<lparr>mem := m\<rparr>) n = page_free s n"
proof -
  show same: "page_free (s\<lparr>mem := m\<rparr>) n = page_free s n" for n
    using assms(2) by (intro page_free_cong) auto
  show "pmm_inv M (s\<lparr>mem := m\<rparr>)" using assms(1) by (simp add: pmm_inv_def same)
qed

lemma heap_env_cong:
  assumes "heap_env M own s" and "\<And>x. x \<in> span (bm_buffer (bitmap s)) 256 \<Longrightarrow> m x = mem s x"
  shows "heap_env M own (s\<lparr>mem := m\<rparr>)"
  using assms(1) pmm_inv_cong [OF heap_envD(1) [OF assms(1)] assms(2)] by (simp add: heap_env_def)

lemma addr_simps [simp]:
  "page_addr (s\<lparr>mem := m\<rparr>) n = page_addr s n" "slab_at (s\<lparr>mem := m\<rparr>) i = slab_at s i"
  "objs own (s\<lparr>mem := m\<rparr>) i = objs own s i" "headers own (s\<lparr>mem := m\<rparr>) = headers own s"
  "slab_bytes (s\<lparr>mem := m\<rparr>) i xs = slab_bytes s i xs"
  by (simp_all add: page_addr_def slab_at_def objs_def headers_def slab_bytes_def)

lemma page_ok_cong:
  assumes ok: "\<And>n. page_ok own s n" and same: "\<And>x. x \<in> headers own s \<Longrightarrow> m x = mem s x"
  shows "page_ok own (s\<lparr>mem := m\<rparr>) n"
proof (cases "own n")
  case None
  then show ?thesis by (simp add: page_ok_def)
next
  case (Some w)
  show ?thesis
  proof (cases w)
    case (Slab i)
    have "load64 m (page_addr s n) = load64 (mem s) (page_addr s n)"
      using Some Slab by (intro load64_cong same) (auto simp: headers_def simp del: in_span)
    then show ?thesis using ok [of n] Some Slab by (simp add: page_ok_def)
  next
    case (Big a c z)
    have a: "own a = Some (Big a c z)"
      using ok [of n] Some Big by (auto simp: page_ok_def)
    have sub: "span (page_addr s a) 8 \<subseteq> span (page_addr s a) 16" "span (page_addr s a + 8) 8 \<subseteq> span (page_addr s a) 16"
      using span_shift [of 8 8 16 "page_addr s a"] by (auto intro: span_mono)
    have "span (page_addr s a) 16 \<subseteq> headers own s" using a unfolding headers_def by blast
    then have "load64 m (page_addr s a) = load64 (mem s) (page_addr s a)"
      "load64 m (page_addr s a + 8) = load64 (mem s) (page_addr s a + 8)"
      using sub by (auto intro!: load64_cong same simp del: in_span)
    then show ?thesis using ok [of n] Some Big by (simp add: page_ok_def)
  qed
qed

lemma slab_ok_cong:
  assumes env: "heap_env M own s" and i: "i < 10" and ok: "slab_ok own s i xs"
    and same: "\<And>x. x \<in> slab_bytes s i xs \<Longrightarrow> m x = mem s x"
  shows "slab_ok own (s\<lparr>mem := m\<rparr>) i xs"
proof -
  note p = slab_at_inside(2) [OF env i]
  have "slab_size m (slab_at s i) = slab_size (mem s) (slab_at s i)" "slab_head m (slab_at s i) = slab_head (mem s) (slab_at s i)"
    using same by (auto intro!: slab_fields_cong [OF p] simp: slab_bytes_def simp del: in_span)
  moreover have "free_list m h xs = free_list (mem s) h xs" for h
    using same by (intro free_list_cong) (auto simp: slab_bytes_def simp del: in_span)
  ultimately show ?thesis using ok by (simp add: slab_ok_def)
qed

lemma heap_partD:
  assumes "heap_part K M own fl s"
  shows "heap_env M own s" "\<And>n. page_ok own s n" "\<And>i. i \<in> K \<Longrightarrow> slab_ok own s i (fl i)" "\<And>i. i \<in> K \<Longrightarrow> i < 10" "K \<subseteq> {..<10}"
  using assms by (auto simp: heap_part_def)

lemma heap_invD:
  assumes "heap_inv M own fl s"
  shows "heap_env M own s" "\<And>n. page_ok own s n" "\<And>i. i < 10 \<Longrightarrow> slab_ok own s i (fl i)"
  using heap_partD [OF assms] by simp_all

text \<open>The pieces of memory of the heap and their separation.\<close>

lemma headers_in_pages:
  assumes "x \<in> headers own s" and "heap_env M own s"
  shows "\<exists>n \<in> M. own n \<noteq> None \<and> x \<in> span (page_addr s n) 4096"
proof -
  have sub: "span p 8 \<subseteq> span p 4096" "span p 16 \<subseteq> span p 4096" for p by (simp_all add: span_mono)
  from assms(1) obtain n w where "own n = Some w" "x \<in> span (page_addr s n) 8 \<or> x \<in> span (page_addr s n) 16"
    unfolding headers_def by blast
  then show ?thesis using heap_envD(6) [OF assms(2)] sub by blast
qed

lemma slab_array_apart:
  assumes "heap_env M own s" and "i < 10"
  shows "span (slab_at s i) 16 \<inter> span (bm_buffer (bitmap s)) 256 = {}"
    "n \<in> M \<Longrightarrow> span (slab_at s i) 16 \<inter> span (page_addr s n) 4096 = {}"
    "span (slab_at s i) 16 \<inter> headers own s = {}"
proof -
  note sub = slab_at_inside(1) [OF assms]
  show "span (slab_at s i) 16 \<inter> span (bm_buffer (bitmap s)) 256 = {}" using sub heap_envD(4) [OF assms(1)] by blast
  show pages: "span (slab_at s i) 16 \<inter> span (page_addr s n) 4096 = {}" if "n \<in> M" for n
    using sub heap_envD(5) [OF assms(1) that] unfolding page_image_addr by blast
  show "span (slab_at s i) 16 \<inter> headers own s = {}" using pages headers_in_pages [OF _ assms(1)] by blast
qed

lemma obj_apart:
  assumes env: "heap_env M own s" and i: "i < 10" and x: "x \<in> objs own s i"
  shows "span x (unat (slab_sizes ! i)) \<inter> span (bm_buffer (bitmap s)) 256 = {}"
    "span x (unat (slab_sizes ! i)) \<inter> headers own s = {}"
    "j < 10 \<Longrightarrow> span x (unat (slab_sizes ! i)) \<inter> span (slab_at s j) 16 = {}"
proof -
  obtain n where n: "own n = Some (Slab i)" "n \<in> M" "span x (unat (slab_sizes ! i)) \<subseteq> span (page_addr s n) 4096"
    "span x (unat (slab_sizes ! i)) \<inter> span (page_addr s n) 8 = {}"
    using obj_place [OF env i x] by blast
  note pmm = heap_envD(1) [OF env]
  show "span x (unat (slab_sizes ! i)) \<inter> span (bm_buffer (bitmap s)) 256 = {}"
    using n(2,3) pmm_invD(8) [OF pmm n(2)] unfolding page_image_addr by blast
  show "span x (unat (slab_sizes ! i)) \<inter> span (slab_at s j) 16 = {}" if "j < 10"
    using slab_array_apart(2) [OF env that n(2)] n(3) by blast
  show "span x (unat (slab_sizes ! i)) \<inter> headers own s = {}"
  proof (rule ccontr)
    assume "span x (unat (slab_sizes ! i)) \<inter> headers own s \<noteq> {}"
    then obtain y where y: "y \<in> span x (unat (slab_sizes ! i))" "y \<in> headers own s" by blast
    have other: False if "k \<noteq> n" "k \<in> M" "y \<in> span (page_addr s k) 4096" for k
      using managed_pages_disjoint [OF pmm n(2) that(2)] that n(3) y(1) by blast
    have sub: "span p 8 \<subseteq> span p 4096" "span p 16 \<subseteq> span p 4096" for p by (simp_all add: span_mono)
    from y(2) consider k j where "own k = Some (Slab j)" "y \<in> span (page_addr s k) 8"
      | a c z where "own a = Some (Big a c z)" "y \<in> span (page_addr s a) 16" unfolding headers_def by blast
    then show False
    proof cases
      case 1
      then have "k \<noteq> n" using n(4) y(1) by blast
      then show False using other [of k] heap_envD(6) [OF env 1(1)] 1(2) sub by blast
    next
      case 2
      then have "a \<noteq> n" using n(1) by auto
      then show False using other [of a] heap_envD(6) [OF env 2(1)] 2(2) sub by blast
    qed
  qed
qed

lemma heap_part_cong:
  assumes inv: "heap_part K M own fl s" and bm: "\<And>x. x \<in> span (bm_buffer (bitmap s)) 256 \<Longrightarrow> m x = mem s x"
    and hd: "\<And>x. x \<in> headers own s \<Longrightarrow> m x = mem s x" and sl: "\<And>j x. j \<in> K \<Longrightarrow> x \<in> slab_bytes s j (fl j) \<Longrightarrow> m x = mem s x"
  shows "heap_part K M own fl (s\<lparr>mem := m\<rparr>)"
proof -
  note env = heap_partD(1) [OF inv]
  have "slab_ok own (s\<lparr>mem := m\<rparr>) j (fl j)" if "j \<in> K" for j
    using sl [OF that] by (rule slab_ok_cong [OF env heap_partD(4) [OF inv that] heap_partD(3) [OF inv that]])
  moreover have "page_ok own (s\<lparr>mem := m\<rparr>) n" for n using page_ok_cong [OF heap_partD(2) [OF inv] hd] .
  ultimately show ?thesis
    using heap_env_cong [OF env bm] heap_partD(5) [OF inv] by (simp add: heap_part_def)
qed

lemma heap_part_mono: "heap_part K M own fl s \<Longrightarrow> L \<subseteq> K \<Longrightarrow> heap_part L M own fl s"
  by (auto simp: heap_part_def)

text \<open>The bytes of a slab are in its structure and in its objects.\<close>

lemma slab_bytes_parts:
  assumes inv: "heap_part K M own fl s" and j: "j \<in> K" and x: "x \<in> slab_bytes s j (fl j)"
  shows "x \<in> span (slab_at s j) 16 \<or> (\<exists>y \<in> objs own s j. x \<in> span y (unat (slab_sizes ! j)))"
proof -
  have "set (fl j) \<subseteq> objs own s j" using heap_partD(3) [OF inv j] by (simp add: slab_ok_def)
  moreover have "span y 8 \<subseteq> span y (unat (slab_sizes ! j))" for y
    using slab_geometry(4) [OF nth_slab_sizes [OF heap_partD(4) [OF inv j]]] by (intro span_mono) simp
  ultimately show ?thesis using x unfolding slab_bytes_def by blast
qed

text \<open>Changing the bytes of one slab and of its objects leaves the rest of the heap alone.\<close>

lemma heap_part_except:
  assumes inv: "heap_part K M own fl s" and i: "i < 10"
    and same: "\<And>x. x \<notin> span (slab_at s i) 16 \<Longrightarrow> (\<And>y. y \<in> objs own s i \<Longrightarrow> x \<notin> span y (unat (slab_sizes ! i))) \<Longrightarrow> m x = mem s x"
  shows "heap_part (K - {i}) M own fl (s\<lparr>mem := m\<rparr>)"
proof (rule heap_part_cong)
  note env = heap_partD(1) [OF inv]
  show inv': "heap_part (K - {i}) M own fl s" using inv by (rule heap_part_mono) blast
  show "m x = mem s x" if "x \<in> span (bm_buffer (bitmap s)) 256" for x
    using same [of x] that slab_array_apart(1) [OF env i] obj_apart(1) [OF env i] by blast
  show "m x = mem s x" if "x \<in> headers own s" for x
    using same [of x] that slab_array_apart(3) [OF env i] obj_apart(2) [OF env i] by blast
  fix j x assume j: "j \<in> K - {i}" and "x \<in> slab_bytes s j (fl j)"
  from slab_bytes_parts [OF inv' this]
  consider "x \<in> span (slab_at s j) 16" | y where "y \<in> objs own s j" "x \<in> span y (unat (slab_sizes ! j))" by blast
  moreover have k: "j < 10" "j \<noteq> i" using j heap_partD(4) [OF inv] by blast+
  ultimately show "m x = mem s x"
  proof cases
    case 1
    then show ?thesis
      using same [of x] slab_at_disjoint [OF env k(1) i k(2)] obj_apart(3) [OF env i _ k(1)] by blast
  next
    case 2
    then show ?thesis
      using same [of x] obj_apart(3) [OF env k(1) 2(1) i] objs_apart [OF env k(1) i 2(1)] k(2) by blast
  qed
qed

lemma heap_part_slab:
  assumes "heap_part K M own fl s" and "i < 10"
    and "\<And>x. x \<notin> span (slab_at s i) 16 \<Longrightarrow> (\<And>y. y \<in> objs own s i \<Longrightarrow> x \<notin> span y (unat (slab_sizes ! i))) \<Longrightarrow> m x = mem s x"
    and "slab_ok own (s\<lparr>mem := m\<rparr>) i xs"
  shows "heap_part (insert i K) M own (fl(i := xs)) (s\<lparr>mem := m\<rparr>)"
  using heap_part_except [OF assms(1-3)] assms(2,4) by (auto simp: heap_part_def)

lemma heap_inv_slab:
  assumes "heap_inv M own fl s" and "i < 10"
    and "\<And>x. x \<notin> span (slab_at s i) 16 \<Longrightarrow> (\<And>y. y \<in> objs own s i \<Longrightarrow> x \<notin> span y (unat (slab_sizes ! i))) \<Longrightarrow> m x = mem s x"
    and "slab_ok own (s\<lparr>mem := m\<rparr>) i xs"
  shows "heap_inv M own (fl(i := xs)) (s\<lparr>mem := m\<rparr>)"
proof -
  have "insert i {..<10} = {..<10}" using assms(2) by auto
  then show ?thesis using heap_part_slab [OF assms] by simp
qed

section \<open>Taking and returning an object\<close>

lemma slab_pop:
  assumes inv: "heap_inv M own fl s" and i: "i < 10" and fl: "fl i = x # xs"
  shows "\<exists>m. slab_alloc (slab_at s i) s = Inr (x, s\<lparr>mem := m\<rparr>) \<and> heap_inv M own (fl(i := xs)) (s\<lparr>mem := m\<rparr>)
    \<and> (\<forall>a \<in> span x (unat (slab_sizes ! i)). m a = 0)
    \<and> (\<forall>a. a \<notin> span x (unat (slab_sizes ! i)) \<and> a \<notin> span (slab_at s i) 16 \<longrightarrow> m a = mem s a)"
proof -
  let ?p = "slab_at s i" and ?sz = "slab_sizes ! i"
  note env = heap_invD(1) [OF inv] and p = slab_at_inside(2) [OF heap_invD(1) [OF inv] i]
  note w = slab_t_words [OF p]
  have ok: "slab_size (mem s) ?p = ?sz" "slab_head (mem s) ?p = x" "x \<noteq> 0" "free_list (mem s) (load64 (mem s) x) xs"
    "x \<notin> set xs" "distinct xs" "x \<in> objs own s i" "set xs \<subseteq> objs own s i"
    using heap_invD(3) [OF inv i] fl by (auto simp: slab_ok_def)
  define m1 m where "m1 = set_head (mem s) ?p (load64 (mem s) x)" and "m = memset m1 x 0 ?sz"
  have run: "slab_alloc ?p s = Inr (x, s\<lparr>mem := m\<rparr>)"
    using ok by (simp add: slab_alloc_def Let_def slab_size_set_head [OF p] m1_def m_def)
  have zero: "\<forall>a \<in> span x (unat ?sz). m a = 0" by (simp add: m_def memset_apply del: in_span)
  have out: "m a = mem s a" if "a \<notin> span x (unat ?sz)" "a \<notin> span ?p 16" for a
  proof -
    have "a \<notin> span ?p 8" using that(2) w(1) by blast
    then show ?thesis using that(1) by (simp add: m_def m1_def memset_apply set_head_def store64_outside del: in_span)
  qed
  have "m a = m1 a" if "a \<in> span ?p 16" for a
  proof -
    have "a \<notin> span x (unat ?sz)" using that obj_apart(3) [OF env i ok(7) i] by blast
    then show ?thesis by (simp add: m_def memset_apply del: in_span)
  qed
  then have head: "slab_size m ?p = ?sz" "slab_head m ?p = load64 (mem s) x"
    using slab_fields_cong [OF p, of m m1] ok(1) by (simp_all only: m1_def slab_size_set_head [OF p] slab_head_set_head)
  have "m a = mem s a" if "y \<in> set xs" "a \<in> span y 8" for y a
  proof -
    have "a \<in> span y (unat ?sz)" using that(2) slab_geometry(4) [OF nth_slab_sizes [OF i]] by simp
    moreover have "y \<in> objs own s i" "x \<noteq> y" using that(1) ok(5,8) by auto
    ultimately show ?thesis
      using out [of a] objs_apart [OF env i i ok(7), of y] obj_apart(3) [OF env i _ i, of y] by blast
  qed
  then have "free_list m (load64 (mem s) x) xs" using ok(4) free_list_cong [of xs m "mem s"] by blast
  then have "slab_ok own (s\<lparr>mem := m\<rparr>) i xs" using head ok by (simp add: slab_ok_def)
  then have "heap_inv M own (fl(i := xs)) (s\<lparr>mem := m\<rparr>)"
    using out ok(7) by (intro heap_inv_slab [OF inv i]) blast+
  then show ?thesis using run zero out by blast
qed

lemma slab_push:
  assumes inv: "heap_inv M own fl s" and i: "i < 10" and x: "x \<in> objs own s i" "x \<notin> set (fl i)"
  shows "\<exists>m. slab_free (slab_at s i) x s = s\<lparr>mem := m\<rparr> \<and> heap_inv M own (fl(i := x # fl i)) (s\<lparr>mem := m\<rparr>)
    \<and> (\<forall>a. a \<notin> span x (unat (slab_sizes ! i)) \<and> a \<notin> span (slab_at s i) 16 \<longrightarrow> m a = mem s a)"
proof -
  let ?p = "slab_at s i" and ?sz = "slab_sizes ! i"
  note env = heap_invD(1) [OF inv] and p = slab_at_inside(2) [OF heap_invD(1) [OF inv] i]
  note w = slab_t_words [OF p]
  have ok: "slab_size (mem s) ?p = ?sz" "free_list (mem s) (slab_head (mem s) ?p) (fl i)" "distinct (fl i)" "set (fl i) \<subseteq> objs own s i"
    using heap_invD(3) [OF inv i] by (auto simp: slab_ok_def)
  have x0: "x \<noteq> 0" using obj_place [OF env i x(1)] by blast
  have cell: "span y 8 \<subseteq> span y (unat ?sz)" for y
    using slab_geometry(4) [OF nth_slab_sizes [OF i]] by (intro span_mono) simp
  have apart: "span ?p 16 \<inter> span x 8 = {}" using obj_apart(3) [OF env i x(1) i] cell by blast
  define m1 m where "m1 = store64 (mem s) x (slab_head (mem s) ?p)" and "m = set_head m1 ?p x"
  have run: "slab_free ?p x s = s\<lparr>mem := m\<rparr>" using x0 by (simp add: slab_free_def Let_def m1_def m_def)
  have out8: "m a = mem s a" if "a \<notin> span x 8" "a \<notin> span ?p 16" for a
  proof -
    have "a \<notin> span ?p 8" using that(2) w(1) by blast
    then show ?thesis using that(1) by (simp add: m_def m1_def set_head_def store64_outside del: in_span)
  qed
  have head: "slab_size m ?p = ?sz" "slab_head m ?p = x"
    using slab_store_outside [OF p apart] ok(1) by (simp_all add: m_def m1_def slab_size_set_head [OF p])
  have "span ?p 8 \<inter> span x 8 = {}" using apart w(1) by blast
  then have link: "load64 m x = slab_head (mem s) ?p"
    by (simp add: m_def set_head_def load64_store64_disjoint m1_def)
  have "m a = mem s a" if "y \<in> set (fl i)" "a \<in> span y 8" for y a
  proof -
    have y: "y \<in> objs own s i" "y \<noteq> x" using that(1) ok(4) x(2) by auto
    have "a \<in> span y (unat ?sz)" using that(2) cell by blast
    then show ?thesis
      using out8 [of a] objs_apart [OF env i i y(1) x(1)] obj_apart(3) [OF env i y(1) i] cell [of x] y(2) by blast
  qed
  then have "free_list m (slab_head (mem s) ?p) (fl i)" using ok(2) free_list_cong [of "fl i" m "mem s"] by blast
  then have "slab_ok own (s\<lparr>mem := m\<rparr>) i (x # fl i)" using head ok x x0 link by (simp add: slab_ok_def)
  moreover have out: "m a = mem s a" if "a \<notin> span x (unat ?sz)" "a \<notin> span ?p 16" for a
    using out8 that cell by blast
  ultimately have "heap_inv M own (fl(i := x # fl i)) (s\<lparr>mem := m\<rparr>)"
    using x(1) by (intro heap_inv_slab [OF inv i]) blast+
  then show ?thesis using run out by blast
qed

section \<open>Pages for the heap\<close>

text \<open>The heap's view of a state: memory, direct map and the address of its slabs.\<close>

lemma heap_view:
  assumes "hhdm_offset s' = hhdm_offset s" and "slabs_addr s' = slabs_addr s"
  shows "page_addr s' n = page_addr s n" "slab_at s' i = slab_at s i" "objs own s' i = objs own s i"
    "page_ok own s' n = page_ok own (s\<lparr>mem := mem s'\<rparr>) n" "slab_ok own s' i xs = slab_ok own (s\<lparr>mem := mem s'\<rparr>) i xs"
proof -
  show "page_addr s' n = page_addr s n" "slab_at s' i = slab_at s i" for n i
    using assms by (simp_all add: page_addr_def slab_at_def)
  then show "objs own s' i = objs own s i" "page_ok own s' n = page_ok own (s\<lparr>mem := mem s'\<rparr>) n"
    "slab_ok own s' i xs = slab_ok own (s\<lparr>mem := mem s'\<rparr>) i xs"
    by (simp_all add: objs_def page_ok_def slab_ok_def cong: option.case_cong owner.case_cong)
qed

lemma owned_parts:
  assumes "heap_env M own s" and "i < 10" and "x \<in> headers own s \<or> (\<exists>y \<in> objs own s i. x \<in> span y (unat (slab_sizes ! i)))"
  shows "\<exists>n \<in> M. own n \<noteq> None \<and> x \<in> page_image (hhdm_offset s) n"
  using headers_in_pages [OF _ assms(1), of x] obj_place [OF assms(1,2)] assms(3) unfolding page_image_addr by blast

text \<open>A change of the page bitmap and of unowned pages does not touch the heap.\<close>

lemma heap_part_pages:
  assumes inv: "heap_part K M own fl s" and view: "hhdm_offset s' = hhdm_offset s" "slabs_addr s' = slabs_addr s"
    and pmm: "pmm_inv M s'" "bitmap s' = bitmap s" "\<And>n w. own n = Some w \<Longrightarrow> \<not> page_free s' n"
    and same: "\<And>x. x \<notin> span (bm_buffer (bitmap s)) 256 \<Longrightarrow> (\<And>n. n \<in> M \<Longrightarrow> own n = None \<Longrightarrow> x \<notin> page_image (hhdm_offset s) n)
      \<Longrightarrow> mem s' x = mem s x"
  shows "heap_part K M own fl s'"
proof -
  note env = heap_partD(1) [OF inv]
  have owned: "mem s' x = mem s x" if "n \<in> M" "own n \<noteq> None" "x \<in> page_image (hhdm_offset s) n" for x n
  proof (rule same)
    show "x \<notin> span (bm_buffer (bitmap s)) 256" using pmm_invD(8) [OF heap_envD(1) [OF env] that(1,3)] .
    fix k assume k: "k \<in> M" "own k = None"
    then have "k \<noteq> n" using that(2) by auto
    then show "x \<notin> page_image (hhdm_offset s) k"
      using managed_pages_disjoint [OF heap_envD(1) [OF env] k(1) that(1)] that(3) unfolding page_image_addr by blast
  qed
  have array: "mem s' x = mem s x" if "i < 10" "x \<in> span (slab_at s i) 16" for x i
    using same [of x] slab_array_apart(1,2) [OF env that(1)] that(2) unfolding page_image_addr by blast
  have "heap_env M own s'"
    using env pmm view unfolding heap_env_def by simp
  moreover have "page_ok own s' n" for n
    unfolding heap_view(4) [OF view]
    using owned_parts [OF env, of 0] owned by (intro page_ok_cong [OF heap_partD(2) [OF inv]]) fastforce
  moreover have "slab_ok own s' i (fl i)" if k: "i \<in> K" for i
    unfolding heap_view(5) [OF view]
  proof (rule slab_ok_cong [OF env heap_partD(4) [OF inv k] heap_partD(3) [OF inv k]])
    have i: "i < 10" using k by (rule heap_partD(4) [OF inv])
    have sub: "set (fl i) \<subseteq> objs own s i" using heap_partD(3) [OF inv k] by (simp add: slab_ok_def)
    have cell: "span y 8 \<subseteq> span y (unat (slab_sizes ! i))" for y
      using slab_geometry(4) [OF nth_slab_sizes [OF i]] by (intro span_mono) simp
    fix x assume "x \<in> slab_bytes s i (fl i)"
    then consider "x \<in> span (slab_at s i) 16" | "\<exists>y \<in> objs own s i. x \<in> span y (unat (slab_sizes ! i))"
      unfolding slab_bytes_def using sub cell by blast
    then show "mem s' x = mem s x"
      using array [OF i] owned_parts [OF env i, of x] owned by cases blast+
  qed
  ultimately show ?thesis using heap_partD(5) [OF inv] by (simp add: heap_part_def)
qed

lemma take_run_heap [simp]: "slabs_addr (take_run a c s) = slabs_addr s"
  by (simp add: take_run_def Let_def set_pages_mem)

lemma heap_page_alloc:
  assumes inv: "heap_part K M own fl s" and "c \<noteq> 0" and alloc: "alloc c s = Inr (ret, s1)"
  obtains a where "{a..<a + unat c} \<subseteq> M" "\<And>n. n \<in> {a..<a + unat c} \<Longrightarrow> own n = None \<and> \<not> page_free s1 n" "0 < unat c"
    "heap_part K M own fl s1" "hhdm_offset s1 = hhdm_offset s" "slabs_addr s1 = slabs_addr s" "bitmap s1 = bitmap s"
    "tohh (hhdm_offset s1) ret = page_addr s a"
    "\<And>x. x \<in> span (page_addr s a) (unat c * 4096) \<Longrightarrow> mem s1 x = 0"
    "\<And>x. x \<notin> span (page_addr s a) (unat c * 4096) \<Longrightarrow> x \<notin> span (bm_buffer (bitmap s)) 256 \<Longrightarrow> mem s1 x = mem s x"
    "\<And>n. n < 2048 \<Longrightarrow> page_free s1 n = (page_free s n \<and> n \<notin> {a..<a + unat c})" "page_free s a"
proof -
  note env = heap_partD(1) [OF inv]
  note pmm = heap_envD(1) [OF env]
  obtain a where a: "ret = of_nat a * page_size" "s1 = take_run a c s"
    "{a..<a + unat c} \<subseteq> M" "a + unat c \<le> page_limit s" "0 < unat c"
    "\<And>i. a \<le> i \<Longrightarrow> i < a + unat c \<Longrightarrow> page_free s i"
    using alloc_cases [OF pmm assms(2,3)] by blast
  note eff = take_run_effect [OF pmm a(3-5), folded a(2), folded page_addr_def]
  have M: "n < 2048" if "n \<in> M" for n using pmm_invD(1,5) [OF pmm] that by force
  have unowned: "own n = None" if "n \<in> {a..<a + unat c}" for n
    using a(6) [of n] that heap_envD(6) [OF env, of n] by (cases "own n") auto
  have inv1: "heap_part K M own fl s1"
  proof (rule heap_part_pages [OF inv])
    show "hhdm_offset s1 = hhdm_offset s" "slabs_addr s1 = slabs_addr s" "bitmap s1 = bitmap s" "pmm_inv M s1"
      using eff(4) by (simp_all add: a(2))
    show "\<not> page_free s1 n" if "own n = Some w" for n w
      using eff(1) [OF M] heap_envD(6) [OF env that] by blast
    fix x assume x: "x \<notin> span (bm_buffer (bitmap s)) 256" "\<And>n. n \<in> M \<Longrightarrow> own n = None \<Longrightarrow> x \<notin> page_image (hhdm_offset s) n"
    have "x \<notin> span (page_addr s a) (unat c * 4096)"
      using run_images [of x "hhdm_offset s" a "unat c"] x(2) a(3) unowned unfolding page_addr_def by fastforce
    then show "mem s1 x = mem s x" using eff(3) x(1) by blast
  qed
  have "tohh (hhdm_offset s1) ret = page_addr s a"
    using managed_run(2) [OF pmm a(3)] a(4,5) by (simp add: a(1,2) page_addr_def)
  moreover have "\<not> page_free s1 n" if "n \<in> {a..<a + unat c}" for n using eff(1) [OF M] that a(3) by blast
  moreover have "hhdm_offset s1 = hhdm_offset s" "slabs_addr s1 = slabs_addr s" "bitmap s1 = bitmap s" by (simp_all add: a(2))
  ultimately show ?thesis
    using that [OF a(3) _ a(5) inv1] unowned eff(1-3) a(5,6) by fastforce
qed

text \<open>Handing an unowned, marked page over to the heap.\<close>

lemma heap_env_own:
  assumes "heap_env M own s" and "\<And>n. own' n \<noteq> None \<Longrightarrow> own' n = own n \<or> n \<in> M \<and> \<not> page_free s n"
  shows "heap_env M own' s"
  using assms heap_envD(6) [OF assms(1)] unfolding heap_env_def by (metis option.discI option.inject)

lemma page_ok_own:
  assumes ok: "\<And>k. page_ok own s k" and un: "own n = None" and i: "i < 10" and hdr: "load64 (mem s) (page_addr s n) = slab_at s i"
  shows "page_ok (own(n \<mapsto> Slab i)) s k"
proof (cases "k = n")
  case True
  then show ?thesis using i hdr by (simp add: page_ok_def)
next
  case False
  then show ?thesis using ok [of k] un by (auto simp: page_ok_def split: option.splits owner.splits)
qed

lemma objs_own:
  "objs (own(n \<mapsto> Slab i)) s i = objs (own(n := None)) s i \<union> obj (page_addr s n) (slab_sizes ! i) ` {..<obj_count (slab_sizes ! i)}"
  "j \<noteq> i \<Longrightarrow> objs (own(n \<mapsto> Slab i)) s j = objs (own(n := None)) s j"
  by (auto simp: objs_def split: if_splits)

lemma heap_part_own:
  assumes inv: "heap_part K M own fl s" and i: "i < 10" "i \<notin> K" and n: "n \<in> M" "own n = None" "\<not> page_free s n"
    and hdr: "load64 m (page_addr s n) = slab_at s i"
    and same: "\<And>x. x \<notin> span (slab_at s i) 16 \<Longrightarrow> x \<notin> span (page_addr s n) 4096 \<Longrightarrow> m x = mem s x"
  shows "heap_part K M (own(n \<mapsto> Slab i)) fl (s\<lparr>mem := m\<rparr>)"
proof -
  note env = heap_partD(1) [OF inv]
  note pmm = heap_envD(1) [OF env]
  have other: "x \<notin> span (page_addr s n) 4096" if "k \<in> M" "own k \<noteq> None" "x \<in> span (page_addr s k) 4096" for k x
  proof -
    have "k \<noteq> n" using that(2) n(2) by auto
    then show ?thesis using managed_pages_disjoint [OF pmm that(1) n(1)] that(3) by blast
  qed
  have inv': "heap_part K M own fl (s\<lparr>mem := m\<rparr>)"
  proof (rule heap_part_cong [OF inv])
    show "m x = mem s x" if "x \<in> span (bm_buffer (bitmap s)) 256" for x
      using same [of x] that slab_array_apart(1) [OF env i(1)] pmm_invD(8) [OF pmm n(1), of x] unfolding page_image_addr by blast
    show "m x = mem s x" if "x \<in> headers own s" for x
      using same [of x] that slab_array_apart(3) [OF env i(1)] headers_in_pages [OF that env] other by blast
    fix j x assume j: "j \<in> K" and "x \<in> slab_bytes s j (fl j)"
    note parts = slab_bytes_parts [OF inv this]
    have k: "j < 10" "j \<noteq> i" using j i heap_partD(4) [OF inv] by blast+
    have "x \<notin> span (page_addr s n) 4096"
      using parts slab_array_apart(2) [OF env k(1) n(1)] obj_place [OF env k(1)] other by blast
    moreover have "x \<notin> span (slab_at s i) 16"
      using parts slab_at_disjoint [OF env k(1) i(1) k(2)] obj_apart(3) [OF env k(1) _ i(1)] by blast
    ultimately show "m x = mem s x" using same by blast
  qed
  have "heap_env M (own(n \<mapsto> Slab i)) (s\<lparr>mem := m\<rparr>)"
  proof (rule heap_env_own [OF heap_partD(1) [OF inv']])
    have "page_free (s\<lparr>mem := m\<rparr>) n = page_free s n"
      using same slab_array_apart(1) [OF env i(1)] pmm_invD(8) [OF pmm n(1)] unfolding page_image_addr
      by (intro pmm_inv_cong(2) [OF pmm]) blast
    then show "(own(n \<mapsto> Slab i)) k = own k \<or> k \<in> M \<and> \<not> page_free (s\<lparr>mem := m\<rparr>) k" for k
      using n(1,3) by simp
  qed
  moreover have "page_ok (own(n \<mapsto> Slab i)) (s\<lparr>mem := m\<rparr>) k" for k
    using page_ok_own [OF heap_partD(2) [OF inv'] n(2) i(1)] hdr by simp
  moreover have "slab_ok (own(n \<mapsto> Slab i)) (s\<lparr>mem := m\<rparr>) j (fl j)" if "j \<in> K" for j
  proof -
    have "own(n := None) = own" "j \<noteq> i" using n(2) that i(2) by auto
    then show ?thesis using heap_partD(3) [OF inv' that] objs_own(2) [of j i own n s] by (simp add: slab_ok_def)
  qed
  ultimately show ?thesis using heap_partD(5) [OF inv] by (simp add: heap_part_def)
qed

lemma distinct_objs:
  assumes sz: "sz \<in> set slab_sizes" and pg: "unat a + 4096 \<le> 2 ^ 64"
  shows "distinct (map (obj a sz) [0..<obj_count sz])"
proof -
  have "obj a sz k \<noteq> obj a sz j" if "k < obj_count sz" "j < obj_count sz" "k \<noteq> j" for k j
    using unat_obj(1) [OF sz that(1) pg] unat_obj(1) [OF sz that(2) pg] that(3) slab_geometry(4) [OF sz] by auto
  then have "inj_on (obj a sz) (set [0..<obj_count sz])" unfolding inj_on_def by (metis atLeast_upt lessThan_iff)
  then show ?thesis by (simp add: distinct_map)
qed

text \<open>Initialising a slab, whose old list is lost, adds a page of free objects to it.\<close>

lemma slab_refill:
  assumes inv: "heap_part K M own fl s" and i: "i < 10"
    and run: "slab_init (slab_at s i) (slab_sizes ! i) s = Inr ((), s')"
  defines "sz \<equiv> slab_sizes ! i"
  shows "\<exists>n. own n = None \<and> n \<in> M
    \<and> heap_part (insert i K) M (own(n \<mapsto> Slab i)) (fl(i := map (obj (page_addr s n) sz) [0..<obj_count sz])) s'
    \<and> hhdm_offset s' = hhdm_offset s \<and> slabs_addr s' = slabs_addr s \<and> bitmap s' = bitmap s
    \<and> (\<forall>x. x \<notin> span (slab_at s i) 16 \<and> x \<notin> span (page_addr s n) 4096 \<and> x \<notin> span (bm_buffer (bitmap s)) 256
        \<longrightarrow> mem s' x = mem s x)
    \<and> (\<forall>k < 2048. page_free s' k = (page_free s k \<and> k \<noteq> n)) \<and> page_free s n
    \<and> mem_usable_top s' = mem_usable_top s \<and> (\<forall>f. fresh f s \<longrightarrow> f + 1 \<le> page_limit s \<longrightarrow> fresh (f + 1) s')"
proof -
  let ?p = "slab_at s i" and ?s0 = "s\<lparr>mem := set_size (mem s) (slab_at s i) sz\<rparr>"
  note env = heap_partD(1) [OF inv] and p = slab_at_inside(2) [OF heap_partD(1) [OF inv] i]
  have sz: "sz \<in> set slab_sizes" using i by (simp add: sz_def)
  have out0: "mem ?s0 x = mem s x" if "x \<notin> span ?p 16" for x
  proof -
    have "x \<notin> span (?p + 8) 8" using that slab_t_words(2) [OF p] by blast
    then show ?thesis by (simp add: set_size_def store64_outside del: in_span)
  qed
  then have inv0: "heap_part (K - {i}) M own fl ?s0" by (intro heap_part_except [OF inv i]) simp
  obtain ret s1 where alloc: "alloc 1 ?s0 = Inr (ret, s1)"
    using run by (cases "alloc 1 ?s0") (auto simp: slab_init_def sz_def)
  obtain n where n: "n \<in> M" "own n = None" "\<not> page_free s1 n" "heap_part (K - {i}) M own fl s1"
    "hhdm_offset s1 = hhdm_offset s" "slabs_addr s1 = slabs_addr s" "bitmap s1 = bitmap s"
    "tohh (hhdm_offset s1) ret = page_addr s n"
    "\<And>x. x \<notin> span (page_addr s n) 4096 \<Longrightarrow> x \<notin> span (bm_buffer (bitmap s)) 256 \<Longrightarrow> mem s1 x = mem ?s0 x"
    "\<And>k. k < 2048 \<Longrightarrow> page_free s1 k = (page_free ?s0 k \<and> k \<noteq> n)" "page_free ?s0 n"
    by (rule heap_page_alloc [OF inv0 _ alloc]) (auto simp del: in_span)
  note apart = slab_array_apart [OF env i]
  have size1: "slab_size (mem s1) ?p = sz"
  proof -
    have "slab_size (mem s1) ?p = slab_size (mem ?s0) ?p"
      using n(9) apart(1) apart(2) [OF n(1)] by (intro slab_fields_cong(1) [OF p]) blast
    then show ?thesis by simp
  qed
  have pg: "unat (page_addr s n) + 4096 \<le> 2 ^ 64" using managed_page(1) [OF heap_envD(1) [OF env] n(1)] .
  obtain m' where m': "s' = s1\<lparr>mem := m'\<rparr>" "slab_size m' ?p = sz" "slab_head m' ?p = obj (page_addr s n) sz 0"
    "load64 m' (page_addr s n) = ?p"
    "free_list m' (obj (page_addr s n) sz 0) (map (obj (page_addr s n) sz) [0..<obj_count sz])"
    "\<And>x. x \<notin> span ?p 8 \<Longrightarrow> x \<notin> span (page_addr s n) 4096 \<Longrightarrow> m' x = mem s1 x"
    using slab_init_effect [OF sz alloc n(8) [symmetric] pg apart(2) [OF n(1)] p size1] run [folded sz_def] by auto
  have w: "span ?p 8 \<subseteq> span ?p 16" by (rule slab_t_words(1) [OF p])
  have part: "heap_part (K - {i}) M (own(n \<mapsto> Slab i)) fl s'"
    unfolding m'(1) using n(1-3,5,6) m'(4) m'(6) w
    by (intro heap_part_own [OF n(4) i]) (auto simp: heap_view(1,2) [OF n(5,6)] simp del: in_span)
  note distinct_objs [OF sz pg]
  moreover have "set (map (obj (page_addr s n) sz) [0..<obj_count sz]) \<subseteq> objs (own(n \<mapsto> Slab i)) s' i"
    using objs_own(1) [of own n i s'] by (auto simp: m'(1) heap_view(1) [OF n(5,6)] sz_def)
  ultimately have "slab_ok (own(n \<mapsto> Slab i)) s' i (map (obj (page_addr s n) sz) [0..<obj_count sz])"
    using m'(2,3,5) by (simp add: slab_ok_def m'(1) heap_view(2) [OF n(5,6)] sz_def)
  then have "heap_part (insert i K) M (own(n \<mapsto> Slab i)) (fl(i := map (obj (page_addr s n) sz) [0..<obj_count sz])) s'"
    using part i by (auto simp: heap_part_def)
  moreover have "mem s' x = mem s x"
    if "x \<notin> span ?p 16" "x \<notin> span (page_addr s n) 4096" "x \<notin> span (bm_buffer (bitmap s)) 256" for x
    using that m'(6) [of x] w n(9) [of x] out0 [of x] m'(1) by auto
  moreover have pf: "page_free ?s0 k = page_free s k" "page_free s' k = page_free s1 k" for k
  proof -
    show "page_free ?s0 k = page_free s k"
      using out0 apart(1) by (intro page_free_cong) (simp, blast)
    have "m' x = mem s1 x" if "x \<in> span (bm_buffer (bitmap s)) 256" for x
      using that m'(6) [of x] apart(1) w pmm_invD(8) [OF heap_envD(1) [OF env] n(1), of x] unfolding page_image_addr by blast
    then show "page_free s' k = page_free s1 k"
      unfolding m'(1) by (intro page_free_cong) (simp_all add: n(7) del: in_span)
  qed
  have "\<forall>k < 2048. page_free s' k = (page_free s k \<and> k \<noteq> n)" "page_free s n" using n(10,11) pf by simp_all
  moreover have "mem_usable_top s' = mem_usable_top s" using alloc_top [OF alloc] by (simp add: m'(1))
  moreover have "fresh (f + 1) s'" if f: "fresh f s" "f + 1 \<le> page_limit s" for f
  proof -
    have "fresh f ?s0" "f + unat (1 :: u64) \<le> page_limit ?s0" using f fresh_cong [of ?s0 s] pf(1) by simp_all
    then have "fresh (f + 1) s1"
      using alloc_fresh [OF heap_envD(1) [OF heap_partD(1) [OF inv0]], of 1 f] alloc by auto
    then show ?thesis using fresh_cong [of s' s1] pf(2) by (simp add: m'(1))
  qed
  moreover have "hhdm_offset s' = hhdm_offset s" "slabs_addr s' = slabs_addr s" "bitmap s' = bitmap s"
    using n(5-7) by (simp_all add: m'(1))
  ultimately show ?thesis using n(1,2) by blast
qed

section \<open>Blocks in use\<close>

text \<open>A byte of a block in use lies in a page with its owner: a slab, and then in an object that is
  not free, or a large block, and then not in its first page.\<close>

lemma live_byte:
  assumes inv: "heap_inv M own fl s" and l: "(y, len) \<in> live own fl s" and b: "b \<in> span y len"
  obtains (small) i n where "i < 10" "y \<in> objs own s i" "y \<notin> set (fl i)" "len = unat (slab_sizes ! i)"
      "own n = Some (Slab i)" "n \<in> M" "b \<in> span (page_addr s n) 4096"
    | (big) a c z n where "y = page_addr s (a + 1)" "len = (c - 1) * 4096" "own a = Some (Big a c z)"
      "own n = Some (Big a c z)" "a < n" "n \<in> M" "b \<in> span (page_addr s n) 4096"
proof -
  note env = heap_invD(1) [OF inv]
  from l consider i where "i < 10" "y \<in> objs own s i" "y \<notin> set (fl i)" "len = unat (slab_sizes ! i)"
    | a c z where "y = page_addr s (a + 1)" "len = (c - 1) * 4096" "own a = Some (Big a c z)"
    unfolding live_def by blast
  then show ?thesis
  proof cases
    case 1
    then show ?thesis using obj_place [OF env 1(1,2)] b small by blast
  next
    case 2
    have c: "2 \<le> c" "\<And>k. k \<in> {a..<a + c} \<Longrightarrow> own k = Some (Big a c z)"
      using heap_invD(2) [OF inv, of a] 2(3) by (auto simp: page_ok_def)
    obtain n where n: "a + 1 \<le> n" "n < a + 1 + (c - 1)" "b \<in> page_image (hhdm_offset s) n"
      using run_images [of b "hhdm_offset s" "a + 1" "c - 1"] b 2(1,2) by (auto simp: page_addr_def simp del: in_span)
    then have "own n = Some (Big a c z)" using c by simp
    then show ?thesis using big [OF 2] n heap_envD(6) [OF env, of n] unfolding page_image_addr by force
  qed
qed

lemma live_apart:
  assumes inv: "heap_inv M own fl s" and l: "(y, len) \<in> live own fl s" and b: "b \<in> span y len"
  shows "b \<notin> span (bm_buffer (bitmap s)) 256" "j < 10 \<Longrightarrow> b \<notin> span (slab_at s j) 16"
    "\<exists>n \<in> M. own n \<noteq> None \<and> b \<in> span (page_addr s n) 4096"
    "j < 10 \<Longrightarrow> x \<in> objs own s j \<Longrightarrow> (y, len) \<noteq> (x, unat (slab_sizes ! j)) \<Longrightarrow> b \<notin> span x (unat (slab_sizes ! j))"
proof -
  note env = heap_invD(1) [OF inv]
  note pmm = heap_envD(1) [OF env]
  show pg: "\<exists>n \<in> M. own n \<noteq> None \<and> b \<in> span (page_addr s n) 4096"
    by (rule live_byte [OF inv l b]) (metis option.discI)+
  then show "b \<notin> span (bm_buffer (bitmap s)) 256" using pmm_invD(8) [OF pmm] unfolding page_image_addr by blast
  show "b \<notin> span (slab_at s j) 16" if "j < 10" using pg slab_array_apart(2) [OF env that] by blast
  assume j: "j < 10" "x \<in> objs own s j" "(y, len) \<noteq> (x, unat (slab_sizes ! j))"
  show "b \<notin> span x (unat (slab_sizes ! j))"
  proof (rule live_byte [OF inv l b])
    fix i n assume "i < 10" "y \<in> objs own s i" "len = unat (slab_sizes ! i)"
    then show ?thesis using objs_apart [OF env _ j(1) _ j(2), of i y] j(3) b by blast
  next
    fix a c z n assume n: "own n = Some (Big a c z)" "n \<in> M" "b \<in> span (page_addr s n) 4096"
    obtain k where k: "own k = Some (Slab j)" "k \<in> M" "span x (unat (slab_sizes ! j)) \<subseteq> span (page_addr s k) 4096"
      using obj_place [OF env j(1,2)] by blast
    then have "k \<noteq> n" using n(1) by auto
    then show ?thesis using managed_pages_disjoint [OF pmm k(2) n(2)] k(3) n(3) by blast
  qed
qed

text \<open>Blocks in use never overlap.\<close>

lemma live_disjoint:
  assumes inv: "heap_inv M own fl s" and x: "(x, k) \<in> live own fl s" and y: "(y, l) \<in> live own fl s" and ne: "(x, k) \<noteq> (y, l)"
  shows "span x k \<inter> span y l = {}"
proof (rule ccontr)
  note pmm = heap_envD(1) [OF heap_invD(1) [OF inv]]
  assume "span x k \<inter> span y l \<noteq> {}"
  then obtain b where b: "b \<in> span x k" "b \<in> span y l" by blast
  have same: "n = n'" if "n \<in> M" "n' \<in> M" "b \<in> span (page_addr s n) 4096" "b \<in> span (page_addr s n') 4096" for n n'
    using managed_pages_disjoint [OF pmm that(1,2)] that(3,4) by blast
  show False
  proof (rule live_byte [OF inv y b(2)])
    fix i n assume "i < 10" "y \<in> objs own s i" "l = unat (slab_sizes ! i)"
    then show False using live_apart(4) [OF inv x b(1), of i y] ne b(2) by blast
  next
    fix a c z n assume big: "y = page_addr s (a + 1)" "l = (c - 1) * 4096" "own n = Some (Big a c z)" "n \<in> M" "b \<in> span (page_addr s n) 4096"
    show False
    proof (rule live_byte [OF inv x b(1)])
      fix i n' assume "own n' = Some (Slab i)" "n' \<in> M" "b \<in> span (page_addr s n') 4096"
      then show False using same [of n n'] big by simp
    next
      fix a' c' z' n' assume "x = page_addr s (a' + 1)" "k = (c' - 1) * 4096" "own n' = Some (Big a' c' z')" "n' \<in> M" "b \<in> span (page_addr s n') 4096"
      then show False using same [of n n'] big ne by simp
    qed
  qed
qed

lemma live_view:
  assumes "hhdm_offset s' = hhdm_offset s" and "slabs_addr s' = slabs_addr s"
  shows "live own fl s' = live own fl s"
  by (simp add: live_def heap_view(1,3) [OF assms])

definition big_live :: "(nat \<rightharpoonup> owner) \<Rightarrow> 'a heap_scheme \<Rightarrow> u64 \<times> nat \<Rightarrow> bool" where
  "big_live own s b \<longleftrightarrow> (\<exists>a c z. own a = Some (Big a c z) \<and> b = (page_addr s (a + 1), (c - 1) * 4096))"

definition small_live :: "(nat \<rightharpoonup> owner) \<Rightarrow> 'a heap_scheme \<Rightarrow> nat \<Rightarrow> u64 list \<Rightarrow> u64 \<times> nat \<Rightarrow> bool" where
  "small_live own s i xs b \<longleftrightarrow> fst b \<in> objs own s i \<and> fst b \<notin> set xs \<and> snd b = unat (slab_sizes ! i)"

lemma live_iff: "b \<in> live own fl s \<longleftrightarrow> (\<exists>i < 10. small_live own s i (fl i) b) \<or> big_live own s b"
  by (cases b) (auto simp: live_def small_live_def big_live_def)

lemma live_split:
  assumes "i < 10"
  shows "b \<in> live own fl s \<longleftrightarrow>
    small_live own s i (fl i) b \<or> (\<exists>j < 10. j \<noteq> i \<and> small_live own s j (fl j) b) \<or> big_live own s b"
  unfolding live_iff using assms by blast

lemma live_upd:
  assumes "i < 10"
  shows "b \<in> live own (fl(i := xs)) s \<longleftrightarrow>
    small_live own s i xs b \<or> (\<exists>j < 10. j \<noteq> i \<and> small_live own s j (fl j) b) \<or> big_live own s b"
  unfolding live_split [OF assms] by auto

lemma live_pop:
  assumes inv: "heap_inv M own fl s" and i: "i < 10" and fl: "fl i = x # xs"
  shows "live own (fl(i := xs)) s = insert (x, unat (slab_sizes ! i)) (live own fl s)"
proof (rule set_eqI)
  fix b
  have x: "x \<in> objs own s i" "x \<notin> set xs" using heap_invD(3) [OF inv i] fl by (auto simp: slab_ok_def)
  then have "small_live own s i xs b \<longleftrightarrow> b = (x, unat (slab_sizes ! i)) \<or> small_live own s i (fl i) b"
    using fl by (cases b) (auto simp: small_live_def)
  then show "b \<in> live own (fl(i := xs)) s \<longleftrightarrow> b \<in> insert (x, unat (slab_sizes ! i)) (live own fl s)"
    unfolding live_upd [OF i] insert_iff live_split [OF i, of b own fl] by blast
qed

text \<open>An object belongs to one slab only.\<close>

lemma objs_unique:
  assumes env: "heap_env M own s" and "i < 10" "j < 10" and x: "x \<in> objs own s i" "x \<in> objs own s j"
  shows "i = j"
proof (rule ccontr)
  assume "i \<noteq> j"
  then have "span x (unat (slab_sizes ! i)) \<inter> span x (unat (slab_sizes ! j)) = {}" using objs_apart [OF assms(1-3) x] by blast
  moreover have "x \<in> span x (unat (slab_sizes ! i))" "x \<in> span x (unat (slab_sizes ! j))"
    using slab_geometry(4) [OF nth_slab_sizes [OF assms(2)]] slab_geometry(4) [OF nth_slab_sizes [OF assms(3)]] by simp_all
  ultimately show False by blast
qed

lemma free_not_live:
  assumes inv: "heap_inv M own fl s" and i: "i < 10" and x: "x \<in> set (fl i)"
  shows "(x, k) \<notin> live own fl s"
proof
  note env = heap_invD(1) [OF inv]
  have obj: "x \<in> objs own s i" using heap_invD(3) [OF inv i] x by (auto simp: slab_ok_def)
  assume l: "(x, k) \<in> live own fl s"
  obtain n where n: "own n = Some (Slab i)" "n \<in> M" "span x (unat (slab_sizes ! i)) \<subseteq> span (page_addr s n) 4096"
    "x AND 0xFFF \<noteq> 0" using obj_place [OF env i obj] by blast
  from l consider j where "j < 10" "small_live own s j (fl j) (x, k)" | "big_live own s (x, k)" unfolding live_iff by blast
  then show False
  proof cases
    case 1
    then show False using objs_unique [OF env i 1(1) obj] x by (simp add: small_live_def)
  next
    case 2
    then obtain a c z where "own a = Some (Big a c z)" "x = page_addr s (a + 1)" by (auto simp: big_live_def)
    then have "a + 1 \<in> M" using heap_invD(2) [OF inv, of a] heap_envD(6) [OF env, of "a + 1"] by (auto simp: page_ok_def)
    then show False using n(4) page_addr_aligned [OF env] \<open>x = page_addr s (a + 1)\<close> by auto
  qed
qed

text \<open>A refill gives the slab free objects and changes no block in use.\<close>

lemma live_refill:
  assumes inv: "heap_inv M own fl s" and i: "i < 10" and fl: "fl i = []" and n: "own n = None" "n \<in> M"
  defines "new \<equiv> map (obj (page_addr s n) (slab_sizes ! i)) [0..<obj_count (slab_sizes ! i)]"
  shows "live (own(n \<mapsto> Slab i)) (fl(i := new)) s = live own fl s"
proof (rule set_eqI)
  fix b
  let ?own = "own(n \<mapsto> Slab i)"
  note env = heap_invD(1) [OF inv]
  have own: "own(n := None) = own" using n(1) by auto
  have new: "set new = obj (page_addr s n) (slab_sizes ! i) ` {..<obj_count (slab_sizes ! i)}" by (auto simp: new_def)
  have "y \<notin> set new" if y: "y \<in> objs own s i" for y
  proof
    assume "y \<in> set new"
    then obtain k where k: "y = obj (page_addr s n) (slab_sizes ! i) k" "k < obj_count (slab_sizes ! i)" by (auto simp: new)
    have "y \<in> span y (unat (slab_sizes ! i))" using slab_geometry(4) [OF nth_slab_sizes [OF i]] by simp
    moreover obtain n' where n': "own n' = Some (Slab i)" "n' \<in> M" "span y (unat (slab_sizes ! i)) \<subseteq> span (page_addr s n') 4096"
      using obj_place [OF env i y] by blast
    moreover have "span y (unat (slab_sizes ! i)) \<subseteq> span (page_addr s n) 4096"
      using obj_in_page(1) [OF nth_slab_sizes [OF i] k(2) managed_page(1) [OF heap_envD(1) [OF env] n(2)]] k(1) by simp
    moreover have "n' \<noteq> n" using n(1) n'(1) by auto
    ultimately show False using managed_pages_disjoint [OF heap_envD(1) [OF env] n'(2) n(2)] by blast
  qed
  then have "small_live ?own s i new b \<longleftrightarrow> small_live own s i (fl i) b"
    using objs_own(1) [of own n i s] own new fl by (auto simp: small_live_def)
  moreover have "small_live ?own s j (fl j) b \<longleftrightarrow> small_live own s j (fl j) b" if "j \<noteq> i" for j
    using objs_own(2) [OF that, of own n s] own by (simp add: small_live_def)
  moreover have "big_live ?own s b \<longleftrightarrow> big_live own s b"
  proof -
    have "?own a = Some (Big a c z) \<longleftrightarrow> own a = Some (Big a c z)" for a c z using n(1) by auto
    then show ?thesis unfolding big_live_def by blast
  qed
  ultimately show "b \<in> live ?own (fl(i := new)) s \<longleftrightarrow> b \<in> live own fl s"
    unfolding live_upd [OF i] live_split [OF i, of b own fl] by auto
qed

lemma slab_refill_live:
  assumes inv: "heap_inv M own fl s" and i: "i < 10" and fl: "fl i = []"
    and run: "slab_init (slab_at s i) (slab_sizes ! i) s = Inr ((), s')"
  shows "\<exists>own' x xs. heap_inv M own' (fl(i := x # xs)) s' \<and> live own' (fl(i := x # xs)) s' = live own fl s
    \<and> keeps (live own fl s) s s' \<and> hhdm_offset s' = hhdm_offset s \<and> slabs_addr s' = slabs_addr s"
proof -
  let ?sz = "slab_sizes ! i"
  obtain n where n: "own n = None" "n \<in> M"
    "heap_part (insert i {..<10}) M (own(n \<mapsto> Slab i)) (fl(i := map (obj (page_addr s n) ?sz) [0..<obj_count ?sz])) s'"
    "hhdm_offset s' = hhdm_offset s" "slabs_addr s' = slabs_addr s"
    "\<forall>x. x \<notin> span (slab_at s i) 16 \<and> x \<notin> span (page_addr s n) 4096 \<and> x \<notin> span (bm_buffer (bitmap s)) 256
        \<longrightarrow> mem s' x = mem s x"
    using slab_refill [OF inv i run] by blast
  have "insert i {..<10} = {..<10}" using i by auto
  then have inv': "heap_inv M (own(n \<mapsto> Slab i)) (fl(i := map (obj (page_addr s n) ?sz) [0..<obj_count ?sz])) s'"
    using n(3) by simp
  have ne: "[0..<obj_count ?sz] = 0 # [1..<obj_count ?sz]"
    using slab_geometry(6) [OF nth_slab_sizes [OF i]] by (simp add: upt_conv_Cons)
  have keep: "mem s' b = mem s b" if "(y, k) \<in> live own fl s" "b \<in> span y k" for y k b
  proof -
    note a = live_apart [OF inv that]
    obtain n' where "n' \<in> M" "own n' \<noteq> None" "b \<in> span (page_addr s n') 4096" using a(3) by blast
    moreover then have "n' \<noteq> n" using n(1) by auto
    ultimately have "b \<notin> span (page_addr s n) 4096"
      using managed_pages_disjoint [OF heap_envD(1) [OF heap_invD(1) [OF inv]] _ n(2), of n'] by blast
    then show ?thesis using n(6) a(1) a(2) [OF i] by blast
  qed
  then have "keeps (live own fl s) s s'" unfolding keeps_def by blast
  then show ?thesis
    using inv' live_refill [OF inv i fl n(1,2)] live_view [OF n(4,5)] n(4,5) unfolding ne list.map by metis
qed

lemma slab_pop_live:
  assumes inv0: "heap_inv M own0 fl0 s0" and i: "i < 10" and run0: "slab_alloc (slab_at s0 i) s0 = Inr (x, s')"
    and fl0: "fl0 i = y # ys" and same: "live own0 fl0 s0 = B" "keeps B s s0"
  defines "k \<equiv> unat (slab_sizes ! i)"
  shows "heap_inv M own0 (fl0(i := ys)) s'" "(x, k) \<notin> B" "live own0 (fl0(i := ys)) s' = insert (x, k) B"
    "keeps B s s'" "\<forall>b \<in> span x k. mem s' b = 0"
proof -
  obtain m where m: "slab_alloc (slab_at s0 i) s0 = Inr (y, s0\<lparr>mem := m\<rparr>)" "heap_inv M own0 (fl0(i := ys)) (s0\<lparr>mem := m\<rparr>)"
    "\<forall>a \<in> span y k. m a = 0" "\<forall>a. a \<notin> span y k \<and> a \<notin> span (slab_at s0 i) 16 \<longrightarrow> m a = mem s0 a"
    using slab_pop [OF inv0 i fl0] unfolding k_def by blast
  have x: "x = y" "s' = s0\<lparr>mem := m\<rparr>" using run0 m(1) by simp_all
  have new: "(x, j) \<notin> B" for j using free_not_live [OF inv0 i, of x] fl0 x(1) same(1) by simp
  have obj: "x \<in> objs own0 s0 i" using heap_invD(3) [OF inv0 i] fl0 x(1) by (auto simp: slab_ok_def)
  have "mem s' b = mem s b" if l: "(z, j) \<in> B" and b: "b \<in> span z j" for z j b
  proof -
    have l0: "(z, j) \<in> live own0 fl0 s0" using l same(1) by simp
    have "(z, j) \<noteq> (x, unat (slab_sizes ! i))" using l new by auto
    then have "b \<notin> span x k" "b \<notin> span (slab_at s0 i) 16"
      using live_apart(2,4) [OF inv0 l0 b i] obj unfolding k_def by blast+
    then have "mem s' b = mem s0 b" using m(4) x by simp
    then show ?thesis using keepsD [OF same(2) l b] by simp
  qed
  then show "keeps B s s'" by (rule keepsI)
  show "live own0 (fl0(i := ys)) s' = insert (x, k) B"
    using live_pop [OF inv0 i fl0] live_view [of s' s0 own0 "fl0(i := ys)"] same(1) x k_def by simp
  show "heap_inv M own0 (fl0(i := ys)) s'" "\<forall>b \<in> span x k. mem s' b = 0" using m(2,3) x by simp_all
  show "(x, k) \<notin> B" by (rule new)
qed

lemma slab_alloc_live:
  assumes inv: "heap_inv M own fl s" and i: "i < 10" and run: "slab_alloc (slab_at s i) s = Inr (x, s')"
  defines "k \<equiv> unat (slab_sizes ! i)"
  shows "\<exists>own' fl'. heap_inv M own' fl' s' \<and> (x, k) \<notin> live own fl s \<and> live own' fl' s' = insert (x, k) (live own fl s)
    \<and> keeps (live own fl s) s s' \<and> (\<forall>b \<in> span x k. mem s' b = 0)"
proof (cases "fl i")
  case (Cons y ys)
  have "keeps (live own fl s) s s" by (simp add: keeps_def)
  from slab_pop_live [OF inv i run Cons refl this, folded k_def] show ?thesis by blast
next
  case Nil
  have ok: "slab_size (mem s) (slab_at s i) = slab_sizes ! i" "slab_head (mem s) (slab_at s i) = 0"
    using heap_invD(3) [OF inv i] Nil by (simp_all add: slab_ok_def)
  obtain s0 where s0: "slab_init (slab_at s i) (slab_sizes ! i) s = Inr ((), s0)"
    using run ok by (cases "slab_init (slab_at s i) (slab_sizes ! i) s") (auto simp: slab_alloc_def)
  obtain own0 y ys where r: "heap_inv M own0 (fl(i := y # ys)) s0" "live own0 (fl(i := y # ys)) s0 = live own fl s"
    "keeps (live own fl s) s s0" "hhdm_offset s0 = hhdm_offset s" "slabs_addr s0 = slabs_addr s"
    using slab_refill_live [OF inv i Nil s0] by blast
  have at: "slab_at s0 i = slab_at s i" by (rule heap_view(2) [OF r(4,5)])
  have head: "slab_head (mem s0) (slab_at s i) \<noteq> 0" using heap_invD(3) [OF r(1) i] at by (auto simp: slab_ok_def)
  have "slab_alloc (slab_at s0 i) s0 = Inr (x, s')" using run s0 ok head by (simp add: slab_alloc_def at)
  from slab_pop_live [OF r(1) i this _ r(2,3), folded k_def, of y ys] show ?thesis by auto
qed

text \<open>The slab chosen for a size is the first whose objects are large enough.\<close>

lemma get_slab_loop_spec:
  assumes inv: "heap_inv M own fl s" and "i + k = 10"
  shows "(\<exists>j. i \<le> j \<and> j < 10 \<and> get_slab_loop (slab_at s i) sz k (mem s) = slab_at s j \<and> sz \<le> slab_sizes ! j
      \<and> (\<forall>l. i \<le> l \<and> l < j \<longrightarrow> slab_sizes ! l < sz))
    \<or> get_slab_loop (slab_at s i) sz k (mem s) = 0 \<and> (\<forall>l. i \<le> l \<and> l < 10 \<longrightarrow> slab_sizes ! l < sz)"
  using assms(2)
proof (induction k arbitrary: i)
  case (Suc k)
  then have i: "i < 10" by simp
  have size: "slab_size (mem s) (slab_at s i) = slab_sizes ! i" using heap_invD(3) [OF inv i] by (simp add: slab_ok_def)
  have nxt: "slab_at s i + sizeof_slab_t = slab_at s (Suc i)" by (simp add: slab_at_def algebra_simps)
  show ?case
  proof (cases "sz \<le> slab_sizes ! i")
    case True
    then show ?thesis using i size by (intro disjI1 exI [of _ i]) auto
  next
    case False
    have step: "slab_sizes ! l < sz" if "i \<le> l" "Suc i \<le> l \<longrightarrow> slab_sizes ! l < sz" for l
      using that False by (cases "l = i") (simp_all add: not_le)
    have eq: "get_slab_loop (slab_at s i) sz (Suc k) (mem s) = get_slab_loop (slab_at s (Suc i)) sz k (mem s)"
      using False size nxt by simp
    have "Suc i + k = 10" using Suc.prems by simp
    from Suc.IH [OF this, folded eq]
    consider j where "Suc i \<le> j" "j < 10" "get_slab_loop (slab_at s i) sz (Suc k) (mem s) = slab_at s j" "sz \<le> slab_sizes ! j"
        "\<forall>l. Suc i \<le> l \<and> l < j \<longrightarrow> slab_sizes ! l < sz"
      | "get_slab_loop (slab_at s i) sz (Suc k) (mem s) = 0" "\<forall>l. Suc i \<le> l \<and> l < 10 \<longrightarrow> slab_sizes ! l < sz" by blast
    then show ?thesis
    proof cases
      case 1
      then show ?thesis using step by (intro disjI1 exI [of _ j]) auto
    qed (use step in auto)
  qed
qed auto

lemma get_slab_spec:
  assumes inv: "heap_inv M own fl s"
  obtains (small) j where "j < 10" "get_slab sz s = slab_at s j" "get_slab sz s \<noteq> 0" "sz \<le> slab_sizes ! j"
      "\<forall>l < j. slab_sizes ! l < sz"
    | (large) "get_slab sz s = 0" "1024 < sz"
proof -
  note env = heap_invD(1) [OF inv]
  have nz: "slab_at s j \<noteq> 0" if "j < 10" for j
    using slab_at_inside(3) [OF env that] heap_envD(2) [OF env] by (metis add_is_0 unat_0 unat_eq_zero)
  have "slab_at s 0 = slabs_addr s" by (simp add: slab_at_def)
  then have g: "get_slab sz s = get_slab_loop (slab_at s 0) sz 10 (mem s)" by (simp add: get_slab_def)
  from get_slab_loop_spec [OF inv, of 0 10 sz, folded g]
  consider j where "j < 10" "get_slab sz s = slab_at s j" "sz \<le> slab_sizes ! j" "\<forall>l < j. slab_sizes ! l < sz"
    | "get_slab sz s = 0" "\<forall>l < 10. slab_sizes ! l < sz" by auto
  then show ?thesis
  proof cases
    case 1
    then show ?thesis using nz by (intro small) simp_all
  next
    case 2
    have "slab_sizes ! 9 = 1024" by (simp add: slab_sizes_def)
    moreover have "slab_sizes ! 9 < sz" using 2(2) by simp
    ultimately show ?thesis using 2(1) by (intro large) simp_all
  qed
qed

section \<open>Large blocks\<close>

definition own_run :: "nat \<Rightarrow> nat \<Rightarrow> u64 \<Rightarrow> (nat \<rightharpoonup> owner) \<Rightarrow> (nat \<rightharpoonup> owner)" where
  "own_run a c z own = (\<lambda>k. if k \<in> {a..<a + c} then Some (Big a c z) else own k)"

lemma objs_own_run:
  assumes "\<And>k. k \<in> {a..<a + c} \<Longrightarrow> own k = None"
  shows "objs (own_run a c z own) s i = objs own s i"
proof -
  have "own_run a c z own n = Some (Slab i) \<longleftrightarrow> own n = Some (Slab i)" for n
    using assms [of n] by (auto simp: own_run_def)
  then show ?thesis by (simp add: objs_def)
qed

lemma heap_inv_own_run:
  assumes inv: "heap_inv M own fl s" and run: "{a..<a + c} \<subseteq> M" "\<And>k. k \<in> {a..<a + c} \<Longrightarrow> own k = None \<and> \<not> page_free s k" "2 \<le> c"
    and meta: "load64 m (page_addr s a) = of_nat (c - 1)" "load64 m (page_addr s a + 8) = z"
    and same: "\<And>x. x \<notin> span (page_addr s a) 16 \<Longrightarrow> m x = mem s x" and z: "unat z \<le> (c - 1) * 4096"
  shows "heap_inv M (own_run a c z own) fl (s\<lparr>mem := m\<rparr>)"
proof -
  note env = heap_invD(1) [OF inv]
  note pmm = heap_envD(1) [OF env]
  have a: "a \<in> M" "own a = None" using run by auto
  have sub: "span (page_addr s a) 16 \<subseteq> span (page_addr s a) 4096" by (simp add: span_mono)
  have same': "m x = mem s x" if "x \<notin> span (page_addr s a) 4096" for x using same that sub by blast
  have other: "m x = mem s x" if "k \<in> M" "own k \<noteq> None" "x \<in> span (page_addr s k) 4096" for k x
  proof -
    have "k \<noteq> a" using that(2) a(2) by auto
    then show ?thesis using managed_pages_disjoint [OF pmm that(1) a(1)] that(3) same' by blast
  qed
  have bm: "m x = mem s x" if "x \<in> span (bm_buffer (bitmap s)) 256" for x
    using same' [of x] that pmm_invD(8) [OF pmm a(1), of x] unfolding page_image_addr by blast
  have inv': "heap_inv M own fl (s\<lparr>mem := m\<rparr>)"
  proof (rule heap_part_cong [OF inv bm])
    show "m x = mem s x" if "x \<in> headers own s" for x using headers_in_pages [OF that env] other by blast
    fix j x assume j: "j \<in> {..<10}" and "x \<in> slab_bytes s j (fl j)"
    from slab_bytes_parts [OF inv this] show "m x = mem s x"
      using slab_array_apart(2) [OF env _ a(1), of j] obj_place [OF env, of j] j same' [of x] other [of _ x] by blast
  qed
  have "page_free (s\<lparr>mem := m\<rparr>) k = page_free s k" for k using bm by (rule pmm_inv_cong(2) [OF pmm])
  then have "heap_env M (own_run a c z own) (s\<lparr>mem := m\<rparr>)"
    using run by (intro heap_env_own [OF heap_partD(1) [OF inv']]) (auto simp: own_run_def)
  moreover have "page_ok (own_run a c z own) (s\<lparr>mem := m\<rparr>) k" for k
  proof (cases "k \<in> {a..<a + c}")
    case True
    then show ?thesis using meta run(3) z by (simp add: page_ok_def own_run_def)
  next
    case False
    have "own_run a c z own j = Some (Big a' c' z')" if "own j = Some (Big a' c' z')" for j a' c' z'
      using that run(2) [of j] by (auto simp: own_run_def)
    moreover have "own_run a c z own k = own k" using False unfolding own_run_def by (rule if_not_P)
    ultimately show ?thesis
      using heap_partD(2) [OF inv', of k] unfolding page_ok_def by (auto split: option.splits owner.splits)
  qed
  moreover have "slab_ok (own_run a c z own) (s\<lparr>mem := m\<rparr>) j (fl j)" if "j < 10" for j
  proof -
    have "objs (own_run a c z own) s j = objs own s j" using run(2) by (intro objs_own_run) blast
    then show ?thesis using heap_invD(3) [OF inv' that] by (simp add: slab_ok_def)
  qed
  ultimately show ?thesis by (simp add: heap_part_def)
qed

lemma live_own_run:
  assumes "\<And>k. k \<in> {a..<a + c} \<Longrightarrow> own k = None" and "2 \<le> c"
  shows "live (own_run a c z own) fl s = insert (page_addr s (a + 1), (c - 1) * 4096) (live own fl s)"
proof (rule set_eqI)
  fix b
  have "own_run a c z own k = Some (Big k c' z') \<longleftrightarrow> k = a \<and> c' = c \<and> z' = z \<or> own k = Some (Big k c' z')" for k c' z'
    using assms(1) [of k] assms(2) by (auto simp: own_run_def)
  then have "big_live (own_run a c z own) s b \<longleftrightarrow> b = (page_addr s (a + 1), (c - 1) * 4096) \<or> big_live own s b"
    unfolding big_live_def by metis
  then show "b \<in> live (own_run a c z own) fl s \<longleftrightarrow> b \<in> insert (page_addr s (a + 1), (c - 1) * 4096) (live own fl s)"
  proof -
    have "objs (own_run a c z own) s i = objs own s i" for i using assms(1) by (rule objs_own_run)
    then have "small_live (own_run a c z own) s i xs b = small_live own s i xs b" for i xs by (simp add: small_live_def)
    then show ?thesis
      using \<open>big_live (own_run a c z own) s b \<longleftrightarrow> _\<close> unfolding insert_iff live_iff by blast
  qed
qed

lemma big_pages:
  assumes "0 < sz" and "unat sz + 4096 \<le> 2 ^ 64"
  shows "1 \<le> unat (div_roundup sz 0x1000)" "unat sz \<le> unat (div_roundup sz 0x1000) * 4096"
    "unat (div_roundup sz 0x1000 + 1) = unat (div_roundup sz 0x1000) + 1"
proof -
  let ?p = "(unat sz + 4095) div 4096"
  have "unat (div_roundup sz (2 ^ 12)) = (unat sz + 2 ^ 12 - 1) div 2 ^ 12"
    using assms(2) by (intro unat_div_roundup) simp_all
  then have p: "unat (div_roundup sz 0x1000) = ?p" by simp
  have up: "unat sz \<le> ?p * 4096" using roundup_bounds(1) [of 4096 "unat sz"] by simp
  then show "unat sz \<le> unat (div_roundup sz 0x1000) * 4096" using p by simp
  have "0 < unat sz" using assms(1) by (simp add: word_less_nat_alt)
  then show "1 \<le> unat (div_roundup sz 0x1000)" using up p by (cases ?p) simp_all
  have "?p * 4096 \<le> unat sz + 4095" by (rule div_times_less_eq_dividend)
  then have "?p + 1 < 2 ^ 64" using unat_less64 [of sz] by simp
  then show "unat (div_roundup sz 0x1000 + 1) = unat (div_roundup sz 0x1000) + 1"
    using p by (subst unat_plus_nowrap) simp_all
qed

text \<open>Storing the two words of the head of a large block.\<close>

lemma store_meta:
  fixes p v w :: u64 and m :: memory
  assumes "unat p + 16 \<le> 2 ^ 64"
  defines "m' \<equiv> store64 (store64 m p v) (p + 8) w"
  shows "load64 m' p = v" "load64 m' (p + 8) = w" "x \<notin> span p 16 \<Longrightarrow> m' x = m x"
proof -
  note d = slab_t_words [OF assms(1)]
  show "load64 m' (p + 8) = w" by (simp add: m'_def)
  have "span (p + 8) 8 \<inter> span p 8 = {}" using d(3) by blast
  then show "load64 m' p = v" by (simp add: m'_def load64_store64_disjoint)
  assume "x \<notin> span p 16"
  then have "x \<notin> span p 8" "x \<notin> span (p + 8) 8" using d by blast+
  then show "m' x = m x" by (simp add: m'_def store64_outside del: in_span)
qed

text \<open>A run of unowned pages is apart from the blocks in use.\<close>

lemma live_run_apart:
  assumes inv: "heap_inv M own fl s" and run: "{a..<a + c} \<subseteq> M" "\<And>n. n \<in> {a..<a + c} \<Longrightarrow> own n = None"
    and l: "(y, k) \<in> live own fl s" and b: "b \<in> span y k"
  shows "b \<notin> span (page_addr s a) (c * 4096)"
proof
  assume "b \<in> span (page_addr s a) (c * 4096)"
  then obtain n where n: "a \<le> n" "n < a + c" "b \<in> span (page_addr s n) 4096"
    using run_images [of b "hhdm_offset s" a c] unfolding page_image_addr page_addr_def by blast
  then have un: "n \<in> M" "own n = None" using run by auto
  obtain n' where n': "n' \<in> M" "own n' \<noteq> None" "b \<in> span (page_addr s n') 4096"
    using live_apart(3) [OF inv l b] by blast
  then have "n \<noteq> n'" using un by auto
  then show False
    using managed_pages_disjoint [OF heap_envD(1) [OF heap_invD(1) [OF inv]] un(1) n'(1)] n(3) n'(3) by blast
qed

lemma big_malloc_live:
  assumes inv: "heap_inv M own fl s" and sz: "0 < sz" "unat sz + 4096 \<le> 2 ^ 64" and run: "big_malloc sz s = Inr (x, s')"
  shows "\<exists>own' k. heap_inv M own' fl s' \<and> unat sz \<le> k \<and> (x, k) \<notin> live own fl s
    \<and> live own' fl s' = insert (x, k) (live own fl s) \<and> keeps (live own fl s) s s'
    \<and> (\<forall>b \<in> span x k. mem s' b = 0)"
proof -
  let ?pages = "div_roundup sz 0x1000"
  define c where "c = unat (?pages + 1)"
  note pages = big_pages [OF sz, folded c_def]
  have c: "2 \<le> c" "unat sz \<le> (c - 1) * 4096" "of_nat (c - 1) = ?pages" using pages by simp_all
  have "?pages + 1 \<noteq> 0" using c(1) c_def by auto
  obtain ret s1 where alloc: "alloc (?pages + 1) s = Inr (ret, s1)"
    using run by (cases "alloc (?pages + 1) s") (auto simp: big_malloc_def)
  obtain a where a: "{a..<a + c} \<subseteq> M" "\<And>n. n \<in> {a..<a + c} \<Longrightarrow> own n = None \<and> \<not> page_free s1 n"
    "heap_inv M own fl s1" "hhdm_offset s1 = hhdm_offset s" "slabs_addr s1 = slabs_addr s"
    "tohh (hhdm_offset s1) ret = page_addr s a" "\<And>x. x \<in> span (page_addr s a) (c * 4096) \<Longrightarrow> mem s1 x = 0"
    "\<And>x. x \<notin> span (page_addr s a) (c * 4096) \<Longrightarrow> x \<notin> span (bm_buffer (bitmap s)) 256 \<Longrightarrow> mem s1 x = mem s x"
    using heap_page_alloc [OF inv \<open>?pages + 1 \<noteq> 0\<close> alloc] unfolding c_def by metis
  define m where "m = store64 (store64 (mem s1) (page_addr s a) ?pages) (page_addr s a + 8) sz"
  have s': "x = page_addr s a + 0x1000" "s' = s1\<lparr>mem := m\<rparr>"
    using run by (auto simp: big_malloc_def alloc Let_def a(6) m_def)
  have aM: "a \<in> M" using a(1) c(1) by auto
  note pmm = heap_envD(1) [OF heap_invD(1) [OF inv]]
  have pa: "unat (page_addr s a) + 16 \<le> 2 ^ 64" "page_addr s1 a = page_addr s a"
    using managed_page(1) [OF pmm aM] heap_view(1) [OF a(4,5)] by simp_all
  note meta = store_meta [OF pa(1), where m = "mem s1" and v = ?pages and w = sz, folded m_def]
  have inv': "heap_inv M (own_run a c sz own) fl s'"
    unfolding s'(2) using a(1,2) c meta by (intro heap_inv_own_run [OF a(3)]) (simp_all add: pa(2))
  have x: "x = page_addr s (a + 1)" by (simp add: s'(1) page_addr_def algebra_simps)
  have bounds: "unat (page_addr s a) + c * 4096 \<le> 2 ^ 64" using run_bounds [OF pmm a(1)] c(1) by simp
  have sub: "span x ((c - 1) * 4096) \<subseteq> span (page_addr s a) (c * 4096)"
  proof -
    have "4096 + (c - 1) * 4096 \<le> c * 4096" using c(1) by (cases c) simp_all
    moreover have "c * 4096 \<le> 2 ^ 64" using bounds by linarith
    ultimately show ?thesis using span_shift [of 4096 "(c - 1) * 4096" "c * 4096" "page_addr s a"] by (simp add: s'(1))
  qed
  have apart: "span x ((c - 1) * 4096) \<inter> span (page_addr s a) 16 = {}"
  proof -
    have "unat x = unat (page_addr s a) + 4096" unfolding s'(1) using bounds c(1) by (subst unat_plus_nowrap) simp_all
    then show ?thesis using bounds c(1) pa(1) by (intro span_disjoint_nat) (simp_all add: diff_mult_distrib)
  qed
  have "mem s' b = mem s b" if "(y, k) \<in> live own fl s" "b \<in> span y k" for y k b
  proof -
    have out: "b \<notin> span (page_addr s a) (c * 4096)" using a(1,2) that by (intro live_run_apart [OF inv]) blast+
    have "span (page_addr s a) 16 \<subseteq> span (page_addr s a) (c * 4096)" using c(1) by (intro span_mono) simp
    then have "b \<notin> span (page_addr s a) 16" using out by blast
    then have "mem s' b = mem s1 b" using meta(3) s'(2) by simp
    then show ?thesis using a(8) [OF out] live_apart(1) [OF inv that] by simp
  qed
  then have "keeps (live own fl s) s s'" unfolding keeps_def by blast
  moreover have "mem s' b = 0" if "b \<in> span x ((c - 1) * 4096)" for b
  proof -
    have "b \<notin> span (page_addr s a) 16" "b \<in> span (page_addr s a) (c * 4096)" using that sub apart by blast+
    then show ?thesis using meta(3) a(7) s'(2) by simp
  qed
  moreover have "(x, (c - 1) * 4096) \<notin> live own fl s"
  proof
    assume l: "(x, (c - 1) * 4096) \<in> live own fl s"
    have "x \<in> span x ((c - 1) * 4096)" using c(1) by simp
    then show False using live_run_apart [OF inv a(1) _ l] a(2) sub by blast
  qed
  moreover have "live (own_run a c sz own) fl s' = insert (x, (c - 1) * 4096) (live own fl s)"
    using live_own_run [of a c own sz fl s'] a(2) c(1) live_view [of s' s own fl] heap_view(1) [of s' s "a + 1"] a(4,5)
    by (simp add: s'(2) x)
  ultimately show ?thesis using inv' c(2) by (intro exI [of _ "own_run a c sz own"] exI [of _ "(c - 1) * 4096"]) simp
qed

text \<open>Giving up a run.\<close>

definition drop_run :: "nat \<Rightarrow> nat \<Rightarrow> (nat \<rightharpoonup> owner) \<Rightarrow> (nat \<rightharpoonup> owner)" where
  "drop_run a c own = (\<lambda>k. if k \<in> {a..<a + c} then None else own k)"

lemma drop_run_owner:
  assumes inv: "heap_inv M own fl s" and big: "own a = Some (Big a c z)"
  shows "\<And>k. k \<in> {a..<a + c} \<Longrightarrow> own k = Some (Big a c z)" "2 \<le> c"
    "\<And>n i. drop_run a c own n = Some (Slab i) \<longleftrightarrow> own n = Some (Slab i)"
    "\<And>i. objs (drop_run a c own) s i = objs own s i"
    "\<And>n a' c' z'. drop_run a c own n = Some (Big a' c' z') \<longleftrightarrow> own n = Some (Big a' c' z') \<and> a' \<noteq> a"
proof -
  show run: "\<And>k. k \<in> {a..<a + c} \<Longrightarrow> own k = Some (Big a c z)" and "2 \<le> c"
    using heap_invD(2) [OF inv, of a] big by (auto simp: page_ok_def)
  show slab: "drop_run a c own n = Some (Slab i) \<longleftrightarrow> own n = Some (Slab i)" for n i
    using run [of n] by (auto simp: drop_run_def)
  then show "objs (drop_run a c own) s i = objs own s i" for i by (simp add: objs_def)
  show "drop_run a c own n = Some (Big a' c' z') \<longleftrightarrow> own n = Some (Big a' c' z') \<and> a' \<noteq> a" for n a' c' z'
    using run [of n] heap_invD(2) [OF inv, of n] big by (auto simp: drop_run_def page_ok_def)
qed

lemma drop_run_inv:
  assumes inv: "heap_inv M own fl s" and big: "own a = Some (Big a c z)"
  shows "heap_inv M (drop_run a c own) fl s"
proof -
  note owner = drop_run_owner [OF inv big]
  have "page_ok (drop_run a c own) s n" for n
  proof (cases "drop_run a c own n")
    case (Some w)
    note ok = heap_invD(2) [OF inv, of n]
    show ?thesis
    proof (cases w)
      case (Slab i)
      then have "own n = Some (Slab i)" using Some owner(3) by simp
      then show ?thesis using ok unfolding page_ok_def Some Slab by simp
    next
      case (Big a' c' z')
      then have n: "own n = Some (Big a' c' z')" "a' \<noteq> a" using Some owner(5) by blast+
      then have "drop_run a c own k = Some (Big a' c' z')" if "k \<in> {a'..<a' + c'}" for k
        using ok that owner(5) by (auto simp: page_ok_def)
      then show ?thesis using ok n unfolding page_ok_def Some Big by simp
    qed
  qed (simp add: page_ok_def)
  moreover have "heap_env M (drop_run a c own) s"
    by (rule heap_env_own [OF heap_invD(1) [OF inv]]) (auto simp: drop_run_def split: if_splits)
  ultimately show ?thesis
    using heap_invD(3) [OF inv] by (simp add: heap_part_def slab_ok_def owner(4))
qed

lemma big_page_managed: "heap_inv M own fl s \<Longrightarrow> own a = Some (Big a c z) \<Longrightarrow> a + 1 \<in> M"
  using heap_invD(2) [of M own fl s a] heap_envD(6) [OF heap_invD(1), of M own fl s "a + 1"] by (auto simp: page_ok_def)

lemma big_page_inj:
  assumes inv: "heap_inv M own fl s" and big: "own a = Some (Big a c z)" "own a' = Some (Big a' c' z')"
  shows "page_addr s (a' + 1) = page_addr s (a + 1) \<longleftrightarrow> a' = a"
proof
  note pmm = heap_envD(1) [OF heap_invD(1) [OF inv]]
  assume "page_addr s (a' + 1) = page_addr s (a + 1)"
  then have "(a' + 1) * 4096 = (a + 1) * 4096"
    using managed_page(2) [OF pmm big_page_managed [OF inv big(1)]]
      managed_page(2) [OF pmm big_page_managed [OF inv big(2)]] by (simp only: add_left_cancel)
  then show "a' = a" by simp
qed simp

lemma drop_run_live:
  assumes inv: "heap_inv M own fl s" and big: "own a = Some (Big a c z)"
  shows "live (drop_run a c own) fl s = live own fl s - {(page_addr s (a + 1), (c - 1) * 4096)}"
proof (rule set_eqI)
  fix b
  let ?run = "(page_addr s (a + 1), (c - 1) * 4096)"
  note env = heap_invD(1) [OF inv] and other = drop_run_owner(5) [OF inv big]
  have "big_live (drop_run a c own) s b \<longleftrightarrow> big_live own s b \<and> b \<noteq> ?run"
  proof
    assume "big_live (drop_run a c own) s b"
    then obtain a' c' z' where o: "own a' = Some (Big a' c' z')" "a' \<noteq> a" "b = (page_addr s (a' + 1), (c' - 1) * 4096)"
      unfolding big_live_def other by blast
    then have "b \<noteq> ?run" using big_page_inj [OF inv big o(1)] by simp
    then show "big_live own s b \<and> b \<noteq> ?run" using o unfolding big_live_def by blast
  next
    assume b: "big_live own s b \<and> b \<noteq> ?run"
    then obtain a' c' z' where o: "own a' = Some (Big a' c' z')" "b = (page_addr s (a' + 1), (c' - 1) * 4096)"
      unfolding big_live_def by blast
    then have "a' \<noteq> a" using b big by auto
    then show "big_live (drop_run a c own) s b" using o unfolding big_live_def other by blast
  qed
  moreover have "\<not> (small_live own s i (fl i) b \<and> b = ?run)" if "i < 10" for i
    using obj_place [OF env that, of "fst b"] page_addr_aligned [OF env big_page_managed [OF inv big]]
    unfolding small_live_def by force
  ultimately show "b \<in> live (drop_run a c own) fl s \<longleftrightarrow> b \<in> live own fl s - {?run}"
    unfolding live_iff small_live_def drop_run_owner(4) [OF inv big] Diff_iff singleton_iff by blast
qed

lemma big_free_live:
  assumes inv: "heap_inv M own fl s" and big: "own a = Some (Big a c z)"
  shows "heap_inv M (drop_run a c own) fl (big_free (page_addr s (a + 1)) s)"
    "live (drop_run a c own) fl (big_free (page_addr s (a + 1)) s) = live own fl s - {(page_addr s (a + 1), (c - 1) * 4096)}"
    "keeps (live own fl s) s (big_free (page_addr s (a + 1)) s)"
proof -
  note env = heap_invD(1) [OF inv] and drop = drop_run_inv [OF inv big] drop_run_live [OF inv big] drop_run_owner(1,2) [OF inv big]
  note pmm = heap_envD(1) [OF env]
  let ?h = "hhdm_offset s"
  have run: "{a..<a + c} \<subseteq> M" using drop(3) heap_envD(6) [OF env] by blast
  have lim: "a + c \<le> page_limit s" using run_bounds(1) [OF pmm run] drop(4) by simp
  have uc: "unat (of_nat c :: u64) = c" using lim page_limit_bound [of s] by (intro unat_of_nat64) simp
  have a: "a < page_limit s" using lim drop(4) by simp
  have hh: "fromhh ?h (page_addr s a) = of_nat a * page_size"
  proof -
    have pa: "unat (of_nat a * page_size) = a * 4096" using a page_limit_bound [of s] by (intro page_address) simp
    have lt: "a * 4096 < page_limit s * 4096" using a by simp
    then have "of_nat a * page_size < ?h" using pa pmm_invD(6) [OF pmm] by (simp add: word_less_nat_alt)
    moreover have "unat (of_nat a * page_size) + unat ?h < 2 ^ 64" using pa lt pmm_invD(7) [OF pmm] by simp
    ultimately show ?thesis using fromhh_tohh [of "of_nat a * page_size" ?h] by (simp add: tohh_phys page_addr_def add.commute)
  qed
  have meta: "page_addr s (a + 1) - 0x1000 = page_addr s a" by (simp add: page_addr_def algebra_simps)
  have "load64 (mem s) (page_addr s a) + 1 = of_nat c"
    using heap_invD(2) [OF inv, of a] big drop(4) by (simp add: page_ok_def of_nat_diff)
  then have t: "big_free (page_addr s (a + 1)) s = free (of_nat a * page_size) (of_nat c) s"
    unfolding big_free_def Let_def meta hh by simp
  let ?t = "free (of_nat a * page_size) (of_nat c) s"
  note eff = free_effect [OF pmm, of a "of_nat c", unfolded uc, OF run _ lim]
  have fields: "hhdm_offset ?t = ?h" "slabs_addr ?t = slabs_addr s" "bitmap ?t = bitmap s"
    by (simp_all add: free_def Let_def set_pages_mem)
  have c: "0 < c" using drop(4) by simp
  show "heap_inv M (drop_run a c own) fl (big_free (page_addr s (a + 1)) s)"
    unfolding t
  proof (rule heap_part_pages [OF drop(1) fields(1,2) eff(5) [OF c] fields(3)])
    fix n w assume "drop_run a c own n = Some w"
    then have n: "own n = Some w" "n \<notin> {a..<a + c}" by (auto simp: drop_run_def split: if_splits)
    then show "\<not> page_free ?t n"
      using heap_envD(6) [OF env n(1)] pmm_invD(1,5) [OF pmm] eff(1) [OF c, of n] by force
  qed (use eff(2) [OF c] in blast)
  show "live (drop_run a c own) fl (big_free (page_addr s (a + 1)) s) = live own fl s - {(page_addr s (a + 1), (c - 1) * 4096)}"
    unfolding t live_view [OF fields(1,2)] by (rule drop(2))
  show "keeps (live own fl s) s (big_free (page_addr s (a + 1)) s)"
    unfolding t keeps_def using eff(2) [OF c] live_apart(1) [OF inv] by blast
qed

lemma live_push:
  assumes inv: "heap_inv M own fl s" and i: "i < 10" and x: "x \<in> objs own s i"
  shows "live own (fl(i := x # fl i)) s = live own fl s - {(x, unat (slab_sizes ! i))}"
proof (rule set_eqI)
  fix b
  note env = heap_invD(1) [OF inv]
  have "small_live own s i (x # fl i) b \<longleftrightarrow> small_live own s i (fl i) b \<and> b \<noteq> (x, unat (slab_sizes ! i))"
    by (cases b) (auto simp: small_live_def)
  moreover have "b \<noteq> (x, unat (slab_sizes ! i))" if "j < 10" "j \<noteq> i" "small_live own s j (fl j) b" for j
    using objs_unique [OF env i that(1) x] that(2,3) by (auto simp: small_live_def)
  moreover have "b \<noteq> (x, unat (slab_sizes ! i))" if big: "big_live own s b"
  proof -
    obtain a c z where o: "own a = Some (Big a c z)" "b = (page_addr s (a + 1), (c - 1) * 4096)"
      using big by (auto simp: big_live_def)
    then have "a + 1 \<in> M" using heap_invD(2) [OF inv, of a] heap_envD(6) [OF env, of "a + 1"] by (auto simp: page_ok_def)
    then show ?thesis using page_addr_aligned [OF env] obj_place [OF env i x] o(2) by force
  qed
  ultimately show "b \<in> live own (fl(i := x # fl i)) s \<longleftrightarrow> b \<in> live own fl s - {(x, unat (slab_sizes ! i))}"
    unfolding live_upd [OF i] Diff_iff singleton_iff live_split [OF i, of b own fl] by blast
qed

section \<open>Blocks and the structures of the heap\<close>

lemma live_outside:
  assumes inv: "heap_inv M own fl s" and l: "(x, k) \<in> live own fl s"
  shows "span x k \<inter> (span (slabs_addr s) 160 \<union> span (bm_buffer (bitmap s)) 256) = {}" "x \<noteq> 0"
proof -
  note env = heap_invD(1) [OF inv]
  show "span x k \<inter> (span (slabs_addr s) 160 \<union> span (bm_buffer (bitmap s)) 256) = {}"
    using live_apart(1,3) [OF inv l] heap_envD(5) [OF env] unfolding page_image_addr by blast
  from l consider i where "i < 10" "small_live own s i (fl i) (x, k)" | "big_live own s (x, k)" unfolding live_iff by blast
  then show "x \<noteq> 0"
  proof cases
    case 1
    then show ?thesis using obj_place [OF env 1(1), of x] by (auto simp: small_live_def)
  next
    case 2
    then obtain a c z where o: "own a = Some (Big a c z)" "x = page_addr s (a + 1)" by (auto simp: big_live_def)
    then have "a + 1 \<in> M" using heap_invD(2) [OF inv, of a] heap_envD(6) [OF env, of "a + 1"] by (auto simp: page_ok_def)
    then have "0 < unat x" using managed_page(2) [OF heap_envD(1) [OF env], of "a + 1"] o(2) by simp
    then show ?thesis by auto
  qed
qed

end
