(* ===== verification/Ice_Allocator.thy ===== *)
theory Ice_Allocator
  imports Ice_Heap
begin

text \<open>
  What the kernel heap promises to its clients: the properties of \<^verbatim>\<open>malloc\<close>, \<^verbatim>\<open>free\<close>, \<^verbatim>\<open>calloc\<close>,
  \<^verbatim>\<open>realloc\<close> and \<^verbatim>\<open>alloc_size\<close>, the constructor of the allocator, and the refinement of the heap to
  an abstract store of blocks over every sequence of client operations.
\<close>

unbundle bit_operations_syntax

section \<open>What the heap leaves alone\<close>

text \<open>The direct map, the memory map, the place of the slabs and the fields of higher layers.\<close>

definition fixed_part :: "'a heap_scheme \<Rightarrow> u64 \<times> limine_memmap_entry list \<times> u64 \<times> 'a" where
  "fixed_part s = (hhdm_offset s, memmaps s, slabs_addr s, heap.more s)"

lemma fixed_part_iff:
  "fixed_part s' = fixed_part s \<longleftrightarrow>
     hhdm_offset s' = hhdm_offset s \<and> memmaps s' = memmaps s \<and> slabs_addr s' = slabs_addr s \<and> heap.more s' = heap.more s"
  by (simp add: fixed_part_def)

lemma fixed_part_simps [simp]:
  "fixed_part (s\<lparr>mem := m\<rparr>) = fixed_part s" "fixed_part (s\<lparr>last_index := i\<rparr>) = fixed_part s"
  "fixed_part (s\<lparr>used_memory := u\<rparr>) = fixed_part s" "fixed_part (set_pages i lim v s) = fixed_part s"
  by (simp_all add: fixed_part_def set_pages_mem)

lemma inner_alloc_fixed: "fixed_part (snd (inner_alloc count limit p s)) = fixed_part s"
proof (induction count limit p s rule: inner_alloc.induct)
  case (1 count limit p s)
  then show ?case by (subst inner_alloc.simps) (auto simp: Let_def)
qed

lemma alloc_fixed:
  assumes "alloc c s = Inr (r, s')"
  shows "fixed_part s' = fixed_part s"
proof (cases "c = 0")
  case False
  obtain r1 s1 where 1: "inner_alloc c (mem_usable_top s div page_size) 0 s = (r1, s1)" by fastforce
  obtain r2 s2 where 2: "inner_alloc c (last_index s) 0 (s1\<lparr>last_index := 0\<rparr>) = (r2, s2)" by fastforce
  have "fixed_part s1 = fixed_part s" "fixed_part s2 = fixed_part s1"
    using inner_alloc_fixed [of c "mem_usable_top s div page_size" 0 s] inner_alloc_fixed [of c "last_index s" 0 "s1\<lparr>last_index := 0\<rparr>"] 1 2
    by simp_all
  then show ?thesis using assms False unfolding alloc_def Let_def 1 by (auto simp: 2 split: if_splits)
qed (use assms in \<open>simp add: alloc_def\<close>)

lemma malloc_fixed:
  assumes "malloc sz s = Inr (x, s')"
  shows "fixed_part s' = fixed_part s"
  using assms
  by (auto simp: malloc_def big_malloc_def slab_alloc_def slab_init_def Let_def bind_run_Inr split: if_splits dest!: alloc_fixed)

lemma heap_free_fixed [simp]: "fixed_part (heap_free x s) = fixed_part s"
  by (simp add: heap_free_def big_free_def slab_free_def free_def Let_def)

section \<open>malloc and free\<close>

lemma free_live:
  assumes inv: "heap_inv M own fl s" and l: "(x, k) \<in> live own fl s"
  shows "\<exists>own' fl'. heap_inv M own' fl' (heap_free x s) \<and> live own' fl' (heap_free x s) = live own fl s - {(x, k)}
    \<and> keeps (live own fl s - {(x, k)}) s (heap_free x s)"
proof -
  note env = heap_invD(1) [OF inv]
  from l consider i where "i < 10" "small_live own s i (fl i) (x, k)" | "big_live own s (x, k)" unfolding live_iff by blast
  then show ?thesis
  proof cases
    case 1
    then have x: "x \<in> objs own s i" "x \<notin> set (fl i)" "k = unat (slab_sizes ! i)" by (simp_all add: small_live_def)
    obtain n where n: "own n = Some (Slab i)" "x AND NOT 0xFFF = page_addr s n" "x AND 0xFFF \<noteq> 0" "x \<noteq> 0"
      using obj_place [OF env 1(1) x(1)] by blast
    have "header_slab x s = slab_at s i"
      using heap_invD(2) [OF inv, of n] n(1) unfolding header_slab_def n(2) by (simp add: page_ok_def)
    then have run: "heap_free x s = slab_free (slab_at s i) x s" using n(3,4) by (simp add: heap_free_def)
    obtain m where m: "slab_free (slab_at s i) x s = s\<lparr>mem := m\<rparr>" "heap_inv M own (fl(i := x # fl i)) (s\<lparr>mem := m\<rparr>)"
      "\<forall>a. a \<notin> span x k \<and> a \<notin> span (slab_at s i) 16 \<longrightarrow> m a = mem s a"
      using slab_push [OF inv 1(1) x(1,2)] unfolding x(3) by blast
    have "m b = mem s b" if y: "(y, j) \<in> live own fl s - {(x, k)}" "b \<in> span y j" for y j b
      using live_apart(2) [OF inv _ y(2) 1(1)] live_disjoint [OF inv _ l, of y j] y m(3) by blast
    then have "keeps (live own fl s - {(x, k)}) s (s\<lparr>mem := m\<rparr>)" by (intro keepsI) simp
    moreover have "live own (fl(i := x # fl i)) (s\<lparr>mem := m\<rparr>) = live own fl s - {(x, k)}"
      using live_push [OF inv 1(1) x(1)] live_view [of "s\<lparr>mem := m\<rparr>" s] x(3) by simp
    ultimately show ?thesis using m(2) unfolding run m(1) by blast
  next
    case 2
    then obtain a c z where o: "own a = Some (Big a c z)" "x = page_addr s (a + 1)" "k = (c - 1) * 4096"
      by (auto simp: big_live_def)
    then have "a + 1 \<in> M" using heap_invD(2) [OF inv, of a] heap_envD(6) [OF env, of "a + 1"] by (auto simp: page_ok_def)
    then have "x AND 0xFFF = 0" using page_addr_aligned [OF env] o(2) by blast
    then have run: "heap_free x s = big_free x s" using live_outside(2) [OF inv l] by (simp add: heap_free_def)
    note b = big_free_live [OF inv o(1), folded o(2,3)]
    have "keeps (live own fl s - {(x, k)}) s (big_free x s)" using keepsD [OF b(3)] by (intro keepsI) blast
    then show ?thesis
      unfolding run using b(1,2) by (intro exI [of _ "drop_run a c own"] exI [of _ fl] conjI)
  qed
qed

text \<open>Writing into a block in use does not disturb the heap.\<close>

lemma live_headers:
  assumes inv: "heap_inv M own fl s" and l: "(x, k) \<in> live own fl s" and b: "b \<in> span x k"
  shows "b \<notin> headers own s"
proof (rule live_byte [OF inv l b])
  note env = heap_invD(1) [OF inv]
  fix i n assume "i < 10" "x \<in> objs own s i" "k = unat (slab_sizes ! i)"
  then show ?thesis using obj_apart(2) [OF env, of i x] b by blast
next
  note pmm = heap_envD(1) [OF heap_invD(1) [OF inv]]
  fix a c z n assume n: "own n = Some (Big a c z)" "a < n" "n \<in> M" "b \<in> span (page_addr s n) 4096"
  have other: "b \<notin> span (page_addr s n') l" if "own n' = Some w" "n' \<noteq> n" "l \<le> 4096" for n' w l
    using managed_pages_disjoint [OF pmm n(3), of n'] heap_envD(6) [OF heap_invD(1) [OF inv] that(1)] that(2) n(4)
      span_mono [OF that(3), of "page_addr s n'"] by blast
  have "b \<notin> span (page_addr s n') 8" if "own n' = Some (Slab j)" for n' j using other [OF that, of 8] that n(1) by force
  moreover have "b \<notin> span (page_addr s a') 16" if "own a' = Some (Big a' c' z')" for a' c' z'
    using other [OF that, of 16] that n(1,2) by force
  ultimately show ?thesis unfolding headers_def by blast
qed

lemma live_write:
  assumes inv: "heap_inv M own fl s" and l: "(x, k) \<in> live own fl s" and same: "\<And>a. a \<notin> span x k \<Longrightarrow> m a = mem s a"
  shows "heap_inv M own fl (s\<lparr>mem := m\<rparr>)" "live own fl (s\<lparr>mem := m\<rparr>) = live own fl s"
    "keeps (live own fl s - {(x, k)}) s (s\<lparr>mem := m\<rparr>)"
proof -
  show "live own fl (s\<lparr>mem := m\<rparr>) = live own fl s" by (rule live_view) simp_all
  show "keeps (live own fl s - {(x, k)}) s (s\<lparr>mem := m\<rparr>)"
    using live_disjoint [OF inv _ l] same by (intro keepsI) (simp del: in_span, blast)
  show "heap_inv M own fl (s\<lparr>mem := m\<rparr>)"
  proof (rule heap_part_cong [OF inv])
    show "m b = mem s b" if "b \<in> span (bm_buffer (bitmap s)) 256" for b using live_apart(1) [OF inv l] same that by blast
    show "m b = mem s b" if "b \<in> headers own s" for b using live_headers [OF inv l] same that by blast
    fix j b assume j: "j \<in> {..<10}" and b: "b \<in> slab_bytes s j (fl j)"
    have "b \<notin> span x k"
    proof
      assume x: "b \<in> span x k"
      have "b \<notin> span (slab_at s j) 16" using live_apart(2) [OF inv l x] j by simp
      then obtain y where y: "y \<in> set (fl j)" "b \<in> span y 8" using b unfolding slab_bytes_def by blast
      have "y \<in> objs own s j" "(x, k) \<noteq> (y, unat (slab_sizes ! j))"
        using heap_invD(3) [OF inv, of j] free_not_live [OF inv _ y(1)] l y(1) j by (auto simp: slab_ok_def)
      then have "b \<notin> span y (unat (slab_sizes ! j))" using live_apart(4) [OF inv l x] j by blast
      then show False using y(2) span_mono [of 8 "unat (slab_sizes ! j)" y] slab_geometry(4) [of "slab_sizes ! j"] j by auto
    qed
    then show "m b = mem s b" by (rule same)
  qed
qed

text \<open>The recorded size of a block lies between the size requested and the size of the block.\<close>

lemma alloc_size_live:
  assumes inv: "heap_inv M own fl s" and l: "(x, k) \<in> live own fl s"
  shows "unat (alloc_size x s) \<le> k" "k \<le> 1024 \<Longrightarrow> unat (alloc_size x s) = k" "x AND 0xFFF = 0 \<longleftrightarrow> 1024 < k"
proof -
  note env = heap_invD(1) [OF inv]
  from l consider i where "i < 10" "small_live own s i (fl i) (x, k)" | "big_live own s (x, k)" unfolding live_iff by blast
  then have "unat (alloc_size x s) \<le> k \<and> (k \<le> 1024 \<longrightarrow> unat (alloc_size x s) = k) \<and> (x AND 0xFFF = 0 \<longleftrightarrow> 1024 < k)"
  proof cases
    case 1
    then have x: "x \<in> objs own s i" "k = unat (slab_sizes ! i)" by (simp_all add: small_live_def)
    obtain n where n: "own n = Some (Slab i)" "x AND NOT 0xFFF = page_addr s n" "x AND 0xFFF \<noteq> 0" "x \<noteq> 0"
      using obj_place [OF env 1(1) x(1)] by blast
    have "header_slab x s = slab_at s i"
      using heap_invD(2) [OF inv, of n] n(1) unfolding header_slab_def n(2) by (simp add: page_ok_def)
    then show ?thesis
      using n heap_invD(3) [OF inv 1(1)] x(2) slab_geometry(5) [OF nth_slab_sizes [OF 1(1)]]
      by (simp add: alloc_size_def slab_ok_def)
  next
    case 2
    then obtain a c z where o: "own a = Some (Big a c z)" "x = page_addr s (a + 1)" "k = (c - 1) * 4096"
      by (auto simp: big_live_def)
    note ok = heap_invD(2) [OF inv, of a]
    have "a + 1 \<in> M" using ok o(1) heap_envD(6) [OF env, of "a + 1"] by (auto simp: page_ok_def)
    then have "x AND 0xFFF = 0" using page_addr_aligned [OF env] o(2) by blast
    moreover have "x - 0x1000 = page_addr s a" using o(2) by (simp add: page_addr_def algebra_simps)
    ultimately show ?thesis
      using ok o(1,3) by (cases c) (simp_all add: alloc_size_def big_alloc_size_def page_ok_def)
  qed
  then show "unat (alloc_size x s) \<le> k" "k \<le> 1024 \<Longrightarrow> unat (alloc_size x s) = k" "x AND 0xFFF = 0 \<longleftrightarrow> 1024 < k" by blast+
qed

lemma big_malloc_size:
  assumes "big_malloc sz s = Inr (x, s')"
  shows "big_alloc_size x s' = sz"
  using assms by (auto simp: big_malloc_def big_alloc_size_def Let_def bind_run_Inr add.commute [of 8])

lemma malloc_block:
  assumes inv: "heap_inv M own fl s" and sz: "unat sz + 4096 \<le> 2 ^ 64" and run: "malloc sz s = Inr (x, s')"
  obtains own' fl' k where "heap_inv M own' fl' s'" "unat sz \<le> k" "(x, k) \<notin> live own fl s"
    "live own' fl' s' = insert (x, k) (live own fl s)" "keeps (live own fl s) s s'" "\<forall>b \<in> span x k. mem s' b = 0"
    "sz \<le> alloc_size x s'" "unat (alloc_size x s') \<le> k" "sz \<le> 1024 \<Longrightarrow> k \<le> 1024"
proof (rule get_slab_spec [OF inv, of sz])
  fix j assume j: "j < 10" "get_slab sz s = slab_at s j" "get_slab sz s \<noteq> 0" "sz \<le> slab_sizes ! j"
  let ?k = "unat (slab_sizes ! j)"
  have "slab_alloc (slab_at s j) s = Inr (x, s')" using j run by (simp add: malloc_def Let_def)
  then obtain own' fl' where r: "heap_inv M own' fl' s'" "(x, ?k) \<notin> live own fl s"
    "live own' fl' s' = insert (x, ?k) (live own fl s)" "keeps (live own fl s) s s'" "\<forall>b \<in> span x ?k. mem s' b = 0"
    using slab_alloc_live [OF inv j(1)] by blast
  have x: "(x, ?k) \<in> live own' fl' s'" using r(3) by blast
  have "unat sz \<le> ?k" using j(4) by (simp add: word_le_nat_alt)
  then show ?thesis
    using alloc_size_live [OF r(1) x] slab_geometry(5) [OF nth_slab_sizes [OF j(1)]] r
    by (intro that [of own' fl' ?k]) (simp_all add: word_le_nat_alt del: in_span)
next
  assume g: "get_slab sz s = 0" "1024 < sz"
  then have big: "big_malloc sz s = Inr (x, s')" using run by (simp add: malloc_def)
  have "0 < sz" using g(2) by (simp add: word_less_nat_alt)
  then obtain own' k where r: "heap_inv M own' fl s'" "unat sz \<le> k" "(x, k) \<notin> live own fl s"
    "live own' fl s' = insert (x, k) (live own fl s)" "keeps (live own fl s) s s'" "\<forall>b \<in> span x k. mem s' b = 0"
    using big_malloc_live [OF inv _ sz big] by blast
  have x: "(x, k) \<in> live own' fl s'" using r(4) by blast
  have "1024 < unat sz" using g(2) by (simp add: word_less_nat_alt)
  then have "x AND 0xFFF = 0" using alloc_size_live [OF r(1) x] r(2) by simp
  then have "alloc_size x s' = sz" using big_malloc_size [OF big] live_outside(2) [OF r(1) x] by (simp add: alloc_size_def)
  then show ?thesis using r g(2) by (intro that [of own' fl k]) simp_all
qed

section \<open>calloc and realloc\<close>

lemma calloc_malloc:
  assumes inv: "heap_inv M own fl s" and small: "unat num * unat sz + 4096 \<le> 2 ^ 64"
  shows "calloc num sz s = malloc (num * sz) s" "unat (num * sz) = unat num * unat sz"
proof -
  show n: "unat (num * sz) = unat num * unat sz" using small by (intro unat_mult_nowrap) simp
  show "calloc num sz s = malloc (num * sz) s"
  proof (cases "malloc (num * sz) s")
    case (Inr r)
    obtain x s' where r: "r = (x, s')" by (cases r)
    from inv small [folded n] Inr [unfolded r] obtain own' fl' k where "unat (num * sz) \<le> k" "\<forall>b \<in> span x k. mem s' b = 0"
      by (rule malloc_block)
    then have "memset (mem s') x 0 (num * sz) = mem s'"
      using span_mono [of "unat (num * sz)" k x] by (intro ext) (auto simp: memset_apply simp del: in_span)
    then show ?thesis using Inr r by (simp add: calloc_def)
  qed (simp add: calloc_def)
qed

text \<open>Unless a large block keeps its number of pages, reallocation moves the block.\<close>

definition same_pages :: "u64 \<Rightarrow> u64 \<Rightarrow> 'a heap_scheme \<Rightarrow> bool" where
  "same_pages x sz s \<longleftrightarrow> x AND 0xFFF = 0 \<and> div_roundup (alloc_size x s) 0x1000 = div_roundup sz 0x1000"

lemma realloc_move:
  assumes "x \<noteq> 0" and "\<not> same_pages x sz s"
  shows "realloc x sz s = move_block x (alloc_size x s) sz s"
  using assms by (auto simp: realloc_def big_realloc_def alloc_size_def big_alloc_size_def same_pages_def Let_def)

lemma live_length:
  assumes inv: "heap_inv M own fl s" and l: "(x, k) \<in> live own fl s"
  shows "0 < k" "k \<le> 2 ^ 64"
proof -
  note env = heap_invD(1) [OF inv]
  from l consider i where "i < 10" "k = unat (slab_sizes ! i)" | a c z where "own a = Some (Big a c z)" "k = (c - 1) * 4096"
    unfolding live_def by blast
  then have "0 < k \<and> k \<le> 2 ^ 64"
  proof cases
    case 1
    then show ?thesis using slab_geometry(4,5) [OF nth_slab_sizes [OF 1(1)]] by simp
  next
    case 2
    have c: "2 \<le> c" "{a..<a + c} \<subseteq> M" using heap_invD(2) [OF inv, of a] 2(1) heap_envD(6) [OF env] by (auto simp: page_ok_def)
    then have "c * 4096 \<le> 2 ^ 64" using run_bounds(2) [OF heap_envD(1) [OF env] c(2)] by linarith
    then show ?thesis using c(1) 2(2) by auto
  qed
  then show "0 < k" "k \<le> 2 ^ 64" by blast+
qed

lemma live_unique:
  assumes inv: "heap_inv M own fl s" and "(x, k) \<in> live own fl s" and "(x, l) \<in> live own fl s"
  shows "k = l"
proof (rule ccontr)
  assume "k \<noteq> l"
  then have "span x k \<inter> span x l = {}" using assms by (intro live_disjoint [OF inv]) simp_all
  moreover have "x \<in> span x k" "x \<in> span x l" using live_length(1) [OF inv] assms(2,3) by simp_all
  ultimately show False by blast
qed

text \<open>A large block that keeps its number of pages gets its new size recorded and stays in use.\<close>

lemma big_resize:
  assumes inv: "heap_inv M own fl s" and big: "own a = Some (Big a c z)" and sz: "unat sz \<le> (c - 1) * 4096"
  defines "s' \<equiv> s\<lparr>mem := store64 (mem s) (page_addr s a + 8) sz\<rparr>"
  shows "\<exists>own' fl'. heap_inv M own' fl' s' \<and> live own' fl' s' = live own fl s \<and> keeps (live own fl s) s s'"
proof -
  note env = heap_invD(1) [OF inv] and ok = heap_invD(2) [OF inv, of a]
  note pmm = heap_envD(1) [OF env] and owner = drop_run_owner [OF inv big] and drop = drop_run_inv [OF inv big]
  let ?m = "store64 (mem s) (page_addr s a + 8) sz" and ?own = "own_run a c sz (drop_run a c own)"
  have run: "{a..<a + c} \<subseteq> M" "\<And>k. k \<in> {a..<a + c} \<Longrightarrow> drop_run a c own k = None \<and> \<not> page_free s k"
    using owner(1) heap_envD(6) [OF env] by (auto simp: drop_run_def)
  have aM: "a \<in> M" using run(1) owner(2) by auto
  have pa: "unat (page_addr s a) + 16 \<le> 2 ^ 64" using managed_page(1) [OF pmm aM] by simp
  note words = slab_t_words [OF pa]
  have "load64 ?m (page_addr s a) = of_nat (c - 1)"
  proof -
    have "span (page_addr s a + 8) 8 \<inter> span (page_addr s a) 8 = {}" using words(3) by blast
    then show ?thesis using ok big by (simp add: load64_store64_disjoint page_ok_def)
  qed
  moreover have same: "?m b = mem s b" if "b \<notin> span (page_addr s a) 16" for b
  proof -
    have "b \<notin> span (page_addr s a + 8) 8" using that words(2) by blast
    then show ?thesis by (simp add: store64_outside del: in_span)
  qed
  ultimately have inv': "heap_inv M ?own fl s'"
    unfolding s'_def using sz by (intro heap_inv_own_run [OF drop run owner(2)]) simp_all
  have "page_addr s (a + 1) = page_addr s' (a + 1)" by (simp add: s'_def page_addr_def)
  moreover have "(page_addr s (a + 1), (c - 1) * 4096) \<in> live own fl s" using big unfolding live_def by blast
  ultimately have l: "live ?own fl s' = live own fl s"
    using live_own_run [of a c "drop_run a c own" sz fl s'] run(2) owner(2) drop_run_live [OF inv big]
      live_view [of s' s "drop_run a c own" fl] by (auto simp: s'_def)
  have "mem s' b = mem s b" if y: "(y, j) \<in> live own fl s" "b \<in> span y j" for y j b
  proof -
    have "\<exists>n \<in> M. n \<noteq> a \<and> b \<in> span (page_addr s n) 4096"
      by (rule live_byte [OF inv y]) (metis big less_irrefl option.inject owner.distinct(1) owner.inject(2))+
    then have "b \<notin> span (page_addr s a) 4096" using managed_pages_disjoint [OF pmm _ aM] by blast
    moreover have "span (page_addr s a) 16 \<subseteq> span (page_addr s a) 4096" by (rule span_mono) simp_all
    ultimately show ?thesis using same by (auto simp: s'_def simp del: in_span)
  qed
  then show ?thesis using inv' l unfolding keeps_def by blast
qed

lemma realloc_same:
  assumes inv: "heap_inv M own fl s" and l: "(x, k) \<in> live own fl s" and sz: "unat sz + 4096 \<le> 2 ^ 64"
    and same: "same_pages x sz s" and run: "realloc x sz s = Inr (y, s')"
  shows "y = 0 \<and> alloc_size x s' = sz
    \<and> (\<exists>own' fl'. heap_inv M own' fl' s' \<and> live own' fl' s' = live own fl s \<and> keeps (live own fl s) s s')"
proof -
  have x: "x \<noteq> 0" "x AND 0xFFF = 0" using live_outside(2) [OF inv l] same by (simp_all add: same_pages_def)
  have s': "y = 0" "s' = s\<lparr>mem := store64 (mem s) (x - 0x1000 + 8) sz\<rparr>"
    using run same x by (auto simp: realloc_def big_realloc_def same_pages_def alloc_size_def big_alloc_size_def Let_def)
  have "1024 < k" using alloc_size_live(3) [OF inv l] x(2) by simp
  then have "\<not> small_live own s i (fl i) (x, k)" if "i < 10" for i
    using slab_geometry(5) [OF nth_slab_sizes [OF that]] by (auto simp: small_live_def)
  then have "big_live own s (x, k)" using l unfolding live_iff by blast
  then obtain a c z where o: "own a = Some (Big a c z)" "x = page_addr s (a + 1)" "k = (c - 1) * 4096" by (auto simp: big_live_def)
  have meta: "x - 0x1000 = page_addr s a" using o(2) by (simp add: page_addr_def algebra_simps)
  have "unat (alloc_size x s) \<le> (c - 1) * 4096" using alloc_size_live(1) [OF inv l] o(3) by simp
  moreover have "(c - 1) * 4096 + 4096 \<le> 2 ^ 64"
    using run_bounds(2) [OF heap_envD(1) [OF heap_invD(1) [OF inv]], of a c] drop_run_owner(1,2) [OF inv o(1)]
      heap_envD(6) [OF heap_invD(1) [OF inv]] by (cases c) fastforce+
  ultimately have "unat (div_roundup (alloc_size x s) 0x1000) \<le> c - 1"
    using unat_div_roundup [of 12 "alloc_size x s"] by simp
  then have "unat (div_roundup sz 0x1000) \<le> c - 1" using same by (simp add: same_pages_def)
  moreover have "unat sz \<le> unat (div_roundup sz 0x1000) * 4096"
    using big_pages(2) [of sz] sz by (cases "sz = 0") (simp_all add: word_neq_0_conv)
  ultimately have "unat sz \<le> (c - 1) * 4096" by (meson le_trans mult_le_mono1)
  from big_resize [OF inv o(1) this] show ?thesis
    using s' x meta by (simp add: alloc_size_def big_alloc_size_def)
qed

lemma realloc_live:
  assumes inv: "heap_inv M own fl s" and l: "(x, k) \<in> live own fl s" and sz: "sz \<noteq> 0" "unat sz + 4096 \<le> 2 ^ 64"
    and np: "\<not> same_pages x sz s" and run: "realloc x sz s = Inr (y, s')"
  defines "n \<equiv> min (unat sz) (unat (alloc_size x s))"
  shows "\<exists>own' fl' k'. heap_inv M own' fl' s' \<and> unat sz \<le> k' \<and> live own' fl' s' = insert (y, k') (live own fl s - {(x, k)})
    \<and> (y, k') \<notin> live own fl s \<and> keeps (live own fl s - {(x, k)}) s s'
    \<and> (\<forall>b \<in> span y k'. mem s' b = (if b \<in> span y n then mem s (x + (b - y)) else 0))"
proof -
  let ?len = "if sz < alloc_size x s then sz else alloc_size x s"
  have x: "x \<noteq> 0" by (rule live_outside(2) [OF inv l])
  have len: "unat ?len = n" by (simp add: n_def word_less_nat_alt min_def)
  have nk: "n \<le> k" using alloc_size_live(1) [OF inv l] by (simp add: n_def)
  obtain p s1 where m: "malloc sz s = Inr (p, s1)"
    using run sz(1) unfolding realloc_move [OF x np] move_block_def Let_def by (auto simp: bind_run_Inr)
  from inv sz(2) m obtain own1 fl1 k1 where r: "heap_inv M own1 fl1 s1" "unat sz \<le> k1" "(p, k1) \<notin> live own fl s"
    "live own1 fl1 s1 = insert (p, k1) (live own fl s)" "keeps (live own fl s) s s1" "\<forall>b \<in> span p k1. mem s1 b = 0"
    by (rule malloc_block)
  have p: "(p, k1) \<in> live own1 fl1 s1" and xl: "(x, k) \<in> live own1 fl1 s1" using r(4) l by blast+
  let ?s2 = "s1\<lparr>mem := memcpy (mem s1) p x ?len\<rparr>"
  have y: "y = p" "s' = heap_free x ?s2"
    using run sz(1) m live_outside(2) [OF r(1) p] unfolding realloc_move [OF x np] move_block_def Let_def by auto
  have ne: "(p, k1) \<noteq> (x, k)" using r(3) l by auto
  have apart: "span p k1 \<inter> span x k = {}" by (rule live_disjoint [OF r(1) p xl ne])
  have sub: "span p n \<subseteq> span p k1" "span x n \<subseteq> span x k" using r(2) nk by (simp_all add: span_mono n_def)
  then have "span p (unat ?len) \<inter> span x (unat ?len) = {}" unfolding len using apart by blast
  then have cpy: "mem ?s2 b = (if b \<in> span p n then mem s1 (x + (b - p)) else mem s1 b)" for b
    using memcpy_apply [of p ?len x "mem s1" b] unfolding len by simp
  then have out: "memcpy (mem s1) p x ?len b = mem s1 b" if "b \<notin> span p k1" for b using that sub(1) by auto
  note w = live_write [OF r(1) p, where m = "memcpy (mem s1) p x ?len", OF out]
  obtain own' fl' where f: "heap_inv M own' fl' s'" "live own' fl' s' = live own1 fl1 s1 - {(x, k)}"
    "keeps (live own1 fl1 s1 - {(x, k)}) ?s2 s'"
    using free_live [OF w(1), of x k] xl w(2) y(2) by auto
  have "mem s' b = mem s b" if "(z, j) \<in> live own fl s - {(x, k)}" "b \<in> span z j" for z j b
    using keepsD [OF f(3) _ that(2)] keepsD [OF w(3) _ that(2)] keepsD [OF r(5) _ that(2)] that(1) r(3,4) by auto
  moreover have "mem s' b = (if b \<in> span p n then mem s (x + (b - p)) else 0)" if b: "b \<in> span p k1" for b
  proof -
    have "mem s' b = mem ?s2 b" using keepsD [OF f(3) _ b] p ne by blast
    moreover have "x + (b - p) \<in> span x k" if "b \<in> span p n" using that nk by simp
    ultimately show ?thesis using cpy [of b] keepsD [OF r(5) l] r(6) b by (auto simp del: in_span)
  qed
  moreover have "live own' fl' s' = insert (p, k1) (live own fl s - {(x, k)})" using f(2) r(4) ne by auto
  ultimately show ?thesis using f(1) r(2,3) unfolding y(1) by (blast intro: keepsI)
qed

section \<open>The constructor\<close>

lemma slab_init_returns:
  assumes inv: "heap_part K M own fl s" and i: "i < 10" and n: "n \<in> M" "page_free s n"
  shows "\<exists>s'. slab_init (slab_at s i) (slab_sizes ! i) s = Inr ((), s')"
proof -
  let ?s0 = "s\<lparr>mem := set_size (mem s) (slab_at s i) (slab_sizes ! i)\<rparr>"
  note env = heap_partD(1) [OF inv]
  have same: "mem ?s0 x = mem s x" if "x \<in> span (bm_buffer (bitmap s)) 256" for x
  proof -
    have "x \<notin> span (slab_at s i + 8) 8"
      using that slab_array_apart(1) [OF env i] slab_t_words(2) [OF slab_at_inside(2) [OF env i]] by blast
    then show ?thesis by (simp add: set_size_def store64_outside del: in_span)
  qed
  note pmm = pmm_inv_cong [OF heap_envD(1) [OF env], of "mem ?s0", simplified, OF same [simplified]]
  have "n < page_limit ?s0" "page_free ?s0 n" using n pmm(2) pmm_invD(5) [OF heap_envD(1) [OF env] n(1)] by simp_all
  then have "\<not> halted (alloc 1 ?s0)"
    using alloc_1_returns [of M ?s0] pmm(1) by blast
  then show ?thesis by (cases "alloc 1 ?s0") (auto simp: slab_init_def Let_def)
qed

text \<open>While the constructor runs, every owned page belongs to a slab initialised already and all
  objects are free.\<close>

definition pristine :: "nat \<Rightarrow> (nat \<rightharpoonup> owner) \<Rightarrow> (nat \<Rightarrow> u64 list) \<Rightarrow> 'a heap_scheme \<Rightarrow> bool" where
  "pristine i own fl s \<longleftrightarrow> (\<forall>n w. own n = Some w \<longrightarrow> (\<exists>j < i. w = Slab j)) \<and> (\<forall>j < i. objs own s j \<subseteq> set (fl j))"

definition free_pages :: "nat set \<Rightarrow> 'a heap_scheme \<Rightarrow> nat set" where
  "free_pages M s = {n \<in> M. page_free s n}"

lemma managed_finite:
  assumes "pmm_inv M s"
  shows "finite (free_pages M s)"
proof (rule finite_subset)
  show "free_pages M s \<subseteq> {..<page_limit s}" using pmm_invD(5) [OF assms] by (auto simp: free_pages_def)
qed simp

lemma pristine_live: "pristine 10 own fl s \<Longrightarrow> live own fl s = {}"
  unfolding set_eq_iff live_iff small_live_def big_live_def pristine_def empty_iff by blast

lemma pristine_step:
  assumes p: "pristine i own fl s" and n: "own n = None" and view: "hhdm_offset s' = hhdm_offset s" "slabs_addr s' = slabs_addr s"
  shows "pristine (Suc i) (own(n \<mapsto> Slab i)) (fl(i := map (obj (page_addr s n) (slab_sizes ! i)) [0..<obj_count (slab_sizes ! i)])) s'"
proof -
  have none: "own k \<noteq> Some (Slab i)" for k using p unfolding pristine_def by fastforce
  have "(own(n \<mapsto> Slab i)) k = Some (Slab j) \<longleftrightarrow> own k = Some (Slab j)" if "j < i" for j k using that n by auto
  then have "objs (own(n \<mapsto> Slab i)) s' j = objs own s j" if "j < i" for j
    unfolding heap_view(3) [OF view] unfolding objs_def using that by simp
  moreover have "objs (own(n \<mapsto> Slab i)) s' i \<subseteq> obj (page_addr s n) (slab_sizes ! i) ` {..<obj_count (slab_sizes ! i)}"
    unfolding heap_view(3) [OF view] using none by (auto simp: objs_def split: if_splits)
  moreover have "\<exists>j < Suc i. w = Slab j" if "(own(n \<mapsto> Slab i)) k = Some w" for k w
  proof (cases "k = n")
    case False
    then have "own k = Some w" using that by simp
    then obtain j where "j < i" "w = Slab j" using p unfolding pristine_def by blast
    then show ?thesis by (intro exI [of _ j]) simp
  qed (use that in auto)
  ultimately show ?thesis
    using p unfolding pristine_def by (auto simp: less_Suc_eq atLeast0LessThan)
qed

lemma init_slabs_spec:
  assumes "heap_part {..<i} M own fl s" and "pristine i own fl s" and "sizes = drop i slab_sizes" and "i \<le> 10"
    and "10 - i \<le> card (free_pages M s)"
  shows "\<exists>s' own' fl'. init_slabs i sizes s = Inr ((), s') \<and> heap_inv M own' fl' s' \<and> pristine 10 own' fl' s'
    \<and> hhdm_offset s' = hhdm_offset s \<and> slabs_addr s' = slabs_addr s \<and> bitmap s' = bitmap s
    \<and> card (free_pages M s') = card (free_pages M s) - (10 - i) \<and> mem_usable_top s' = mem_usable_top s
    \<and> (\<forall>f. fresh f s \<longrightarrow> f + (10 - i) \<le> page_limit s \<longrightarrow> fresh (f + (10 - i)) s')"
  using assms
proof (induction sizes arbitrary: i own fl s)
  case Nil
  then have "i = 10" by (metis drop_eq_Nil2 le_antisym slab_sizes_length)
  then show ?case using Nil by auto
next
  case (Cons sz sizes)
  have "i < length slab_sizes" using Cons.prems(3) by (metis drop_eq_Nil list.distinct(1) not_le)
  then have i: "i < 10" by simp
  then have sz: "sz = slab_sizes ! i" "sizes = drop (Suc i) slab_sizes"
    using Cons.prems(3) Cons_nth_drop_Suc [of i slab_sizes] by (metis list.inject slab_sizes_length)+
  note inv = Cons.prems(1)
  note pmm = heap_envD(1) [OF heap_partD(1) [OF inv]]
  have "free_pages M s \<noteq> {}" using Cons.prems(5) i by auto
  then obtain k where k: "k \<in> M" "page_free s k" by (auto simp: free_pages_def)
  obtain s1 where s1: "slab_init (slab_at s i) (slab_sizes ! i) s = Inr ((), s1)"
    using slab_init_returns [OF inv i k] by blast
  let ?fl = "\<lambda>n. fl(i := map (obj (page_addr s n) (slab_sizes ! i)) [0..<obj_count (slab_sizes ! i)])"
  obtain n where n: "own n = None" "n \<in> M" "heap_part (insert i {..<i}) M (own(n \<mapsto> Slab i)) (?fl n) s1"
    "hhdm_offset s1 = hhdm_offset s" "slabs_addr s1 = slabs_addr s" "bitmap s1 = bitmap s"
    "\<forall>k < 2048. page_free s1 k = (page_free s k \<and> k \<noteq> n)" "page_free s n" "mem_usable_top s1 = mem_usable_top s"
    "\<forall>f. fresh f s \<longrightarrow> f + 1 \<le> page_limit s \<longrightarrow> fresh (f + 1) s1"
    using slab_refill [OF inv i s1] by blast
  have inv1: "heap_part {..<Suc i} M (own(n \<mapsto> Slab i)) (?fl n) s1" using n(3) by (simp add: lessThan_Suc)
  have "k < 2048" if "k \<in> M" for k using pmm_invD(1,5) [OF pmm] that by fastforce
  then have "free_pages M s1 = free_pages M s - {n}" using n(7) unfolding free_pages_def by blast
  then have card: "card (free_pages M s1) = card (free_pages M s) - 1"
    using n(2,8) managed_finite [OF pmm] by (simp add: card_Diff_singleton free_pages_def)
  have "10 - Suc i \<le> card (free_pages M s1)" using i card Cons.prems(5) by arith
  from Cons.IH [OF inv1 pristine_step [OF Cons.prems(2) n(1,4,5)] sz(2) _ this] i
  obtain s' own' fl' where "init_slabs (Suc i) sizes s1 = Inr ((), s')" "heap_inv M own' fl' s'" "pristine 10 own' fl' s'"
    "hhdm_offset s' = hhdm_offset s1" "slabs_addr s' = slabs_addr s1" "bitmap s' = bitmap s1"
    "card (free_pages M s') = card (free_pages M s1) - (10 - Suc i)" "mem_usable_top s' = mem_usable_top s1"
    "\<forall>f. fresh f s1 \<longrightarrow> f + (10 - Suc i) \<le> page_limit s1 \<longrightarrow> fresh (f + (10 - Suc i)) s'"
    by auto
  moreover have d: "10 - i = Suc (10 - Suc i)" using i by simp
  moreover have "fresh (f + (10 - i)) s'" if f: "fresh f s" "f + (10 - i) \<le> page_limit s" for f
    using spec [OF calculation(9), of "f + 1"] spec [OF n(10), of f] f n(9) unfolding d by simp
  ultimately show ?case using s1 sz(1) n(4-6,9) card by (intro exI [of _ s'] exI [of _ own'] exI [of _ fl']) simp
qed

lemma slab_allocator_ready:
  assumes "heap_env M Map.empty s" and "10 \<le> card (free_pages M s)"
  obtains s' own fl where "slab_allocator s = Inr ((), s')" "heap_inv M own fl s'" "live own fl s' = {}"
    "hhdm_offset s' = hhdm_offset s" "slabs_addr s' = slabs_addr s" "bitmap s' = bitmap s"
    "card (free_pages M s') = card (free_pages M s) - 10" "mem_usable_top s' = mem_usable_top s"
    "\<forall>f. fresh f s \<longrightarrow> f + 10 \<le> page_limit s \<longrightarrow> fresh (f + 10) s'"
proof -
  have "heap_part {..<0} M Map.empty (\<lambda>_. []) s" using assms(1) by (simp add: heap_part_def page_ok_def)
  moreover have "pristine 0 Map.empty (\<lambda>_. []) s" by (simp add: pristine_def)
  ultimately obtain s' own fl where "init_slabs 0 slab_sizes s = Inr ((), s')" "heap_inv M own fl s'" "pristine 10 own fl s'"
    "hhdm_offset s' = hhdm_offset s" "slabs_addr s' = slabs_addr s" "bitmap s' = bitmap s"
    "card (free_pages M s') = card (free_pages M s) - 10" "mem_usable_top s' = mem_usable_top s"
    "\<forall>f. fresh f s \<longrightarrow> f + 10 \<le> page_limit s \<longrightarrow> fresh (f + 10) s'"
    using init_slabs_spec [of 0 M Map.empty "\<lambda>_. []" s slab_sizes] assms(2) by auto
  then show ?thesis using pristine_live by (intro that) (simp_all add: slab_allocator_def)
qed

lemma heap_more_slabs: "pmm.more s' = pmm.more s \<Longrightarrow> slabs_addr s' = slabs_addr s"
  by (cases s; cases s') simp

text \<open>The pages the boot loader offers.\<close>

definition usable_pages :: "'a pmm_scheme \<Rightarrow> nat set" where
  "usable_pages s = set (concat (map pages_list (memmaps s)))"

text \<open>The allocator object lies in the image of the kernel, which no usable page contains, and
  eleven usable pages are enough for the bitmap and one page for each slab.\<close>

definition boot_heap :: "'a heap_scheme \<Rightarrow> bool" where
  "boot_heap s \<longleftrightarrow> boot_map s \<and> 4096 dvd unat (hhdm_offset s) \<and> slabs_addr s \<noteq> 0 \<and> unat (slabs_addr s) + 160 \<le> 2 ^ 64
     \<and> (\<forall>n \<in> usable_pages s. page_image (hhdm_offset s) n \<inter> span (slabs_addr s) 160 = {})
     \<and> 11 \<le> card (usable_pages s)"

lemma physical_init_ready:
  assumes boot: "boot_heap s"
  obtains s' M own fl where "physical_init s = Some (Inr ((), s'))" "heap_inv M own fl s'" "live own fl s' = {}"
    "M \<subseteq> usable_pages s" "card (free_pages M s') = card (usable_pages s) - 11"
proof -
  have b: "boot_map s" "\<And>n. n \<in> usable_pages s \<Longrightarrow> page_image (hhdm_offset s) n \<inter> span (slabs_addr s) 160 = {}"
    "11 \<le> card (usable_pages s)"
    using boot unfolding boot_heap_def by blast+
  obtain s1 p M where s1: "init_pages s = Some s1" "pmm_inv M s1" "\<forall>n < page_limit s1. page_free s1 n \<longleftrightarrow> n \<in> M"
    "p \<notin> M" "insert p M = usable_pages s" "bm_buffer (bitmap s1) = hhdm_offset s + of_nat p * page_size"
    "hhdm_offset s1 = hhdm_offset s" "pmm.more s1 = pmm.more s"
    using init_pages_effect [OF b(1)] unfolding usable_pages_def by blast
  have slabs: "slabs_addr s1 = slabs_addr s" using s1(8) by (rule heap_more_slabs)
  have "page_image (hhdm_offset s) p \<inter> span (slabs_addr s) 160 = {}" using b(2) s1(5) by blast
  moreover have "span (bm_buffer (bitmap s1)) 256 \<subseteq> page_image (hhdm_offset s) p"
    unfolding s1(6) page_image_def by (rule span_mono) simp
  ultimately have env: "heap_env M Map.empty s1"
    using boot s1(2,5) unfolding boot_heap_def heap_env_def slabs s1(7) by blast
  have fp: "free_pages M s1 = M" using s1(3) pmm_invD(5) [OF s1(2)] by (auto simp: free_pages_def)
  have card: "card M = card (usable_pages s) - 1"
    using s1(4,5) managed_finite [OF s1(2)] fp by (metis card_insert_disjoint diff_Suc_1)
  have "10 \<le> card (free_pages M s1)" using card fp b(3) by simp
  from env this obtain s' own fl where r: "slab_allocator s1 = Inr ((), s')" "heap_inv M own fl s'" "live own fl s' = {}"
    "hhdm_offset s' = hhdm_offset s1" "slabs_addr s' = slabs_addr s1" "bitmap s' = bitmap s1"
    "card (free_pages M s') = card (free_pages M s1) - 10" by (rule slab_allocator_ready)
  have "M \<subseteq> usable_pages s" using s1(5) by blast
  then show ?thesis using r card fp s1(1) by (intro that [OF _ r(2,3)]) (simp_all add: physical_init_def)
qed

text \<open>While a page is free, small requests are served.\<close>

lemma malloc_small_returns:
  assumes inv: "heap_inv M own fl s" and sz: "sz \<le> 1024" and n: "n \<in> M" "page_free s n"
  shows "\<exists>x s'. malloc sz s = Inr (x, s')"
proof (rule get_slab_spec [OF inv, of sz])
  fix j assume j: "j < 10" "get_slab sz s = slab_at s j" "get_slab sz s \<noteq> 0"
  have "slab_size (mem s) (slab_at s j) = slab_sizes ! j" using heap_invD(3) [OF inv j(1)] by (simp add: slab_ok_def)
  then show ?thesis
    using slab_init_returns [OF inv j(1) n] j(2,3) by (auto simp: malloc_def Let_def slab_alloc_def)
next
  assume "1024 < sz"
  then show ?thesis using sz by simp
qed

text \<open>A small request takes at most one page.\<close>

lemma slab_pop_pages:
  assumes inv: "heap_inv M own fl s" and i: "i < 10" and fl: "fl i = y # ys" and run: "slab_alloc (slab_at s i) s = Inr (x, s')"
  shows "page_free s' n = page_free s n"
proof -
  note env = heap_invD(1) [OF inv]
  obtain m where m: "slab_alloc (slab_at s i) s = Inr (y, s\<lparr>mem := m\<rparr>)"
    "\<forall>a. a \<notin> span y (unat (slab_sizes ! i)) \<and> a \<notin> span (slab_at s i) 16 \<longrightarrow> m a = mem s a"
    using slab_pop [OF inv i fl] by blast
  have "y \<in> objs own s i" using heap_invD(3) [OF inv i] fl by (simp add: slab_ok_def)
  then have "m a = mem s a" if "a \<in> span (bm_buffer (bitmap s)) 256" for a
    using that m(2) obj_apart(1) [OF env i] slab_array_apart(1) [OF env i] by blast
  then have "page_free (s\<lparr>mem := m\<rparr>) n = page_free s n" by (rule pmm_inv_cong(2) [OF heap_envD(1) [OF env]])
  then show ?thesis using run m(1) by simp
qed

lemma malloc_small_pages:
  assumes inv: "heap_inv M own fl s" and sz: "sz \<le> 1024" and run: "malloc sz s = Inr (x, s')"
  shows "card (free_pages M s) \<le> card (free_pages M s') + 1"
proof (rule get_slab_spec [OF inv, of sz])
  fix i assume i: "i < 10" "get_slab sz s = slab_at s i" "get_slab sz s \<noteq> 0"
  have run: "slab_alloc (slab_at s i) s = Inr (x, s')" using run i by (simp add: malloc_def Let_def)
  show ?thesis
  proof (cases "fl i")
    case (Cons y ys)
    have "free_pages M s' = free_pages M s" unfolding free_pages_def slab_pop_pages [OF inv i(1) Cons run] ..
    then show ?thesis by simp
  next
    case Nil
    have ok: "slab_size (mem s) (slab_at s i) = slab_sizes ! i" "slab_head (mem s) (slab_at s i) = 0"
      using heap_invD(3) [OF inv i(1)] Nil by (simp_all add: slab_ok_def)
    obtain s0 where s0: "slab_init (slab_at s i) (slab_sizes ! i) s = Inr ((), s0)"
      using run ok by (cases "slab_init (slab_at s i) (slab_sizes ! i) s") (auto simp: slab_alloc_def)
    obtain n where n: "heap_part (insert i {..<10}) M (own(n \<mapsto> Slab i))
        (fl(i := map (obj (page_addr s n) (slab_sizes ! i)) [0..<obj_count (slab_sizes ! i)])) s0"
      "hhdm_offset s0 = hhdm_offset s" "slabs_addr s0 = slabs_addr s" "\<forall>k < 2048. page_free s0 k = (page_free s k \<and> k \<noteq> n)"
      using slab_refill [OF inv i(1) s0] by blast
    have "insert i {..<10} = {..<10}" "[0..<obj_count (slab_sizes ! i)] = 0 # [1..<obj_count (slab_sizes ! i)]"
      using i(1) slab_geometry(6) [OF nth_slab_sizes [OF i(1)]] by (auto simp: upt_conv_Cons)
    note inv0 = n(1) [unfolded this list.map]
    have at: "slab_at s0 i = slab_at s i" by (rule heap_view(2) [OF n(2,3)])
    have "slab_head (mem s0) (slab_at s i) \<noteq> 0" using heap_invD(3) [OF inv0 i(1)] at by (auto simp: slab_ok_def)
    then have "slab_alloc (slab_at s0 i) s0 = Inr (x, s')" using run s0 ok by (simp add: slab_alloc_def at)
    then have "page_free s' k = page_free s0 k" for k by (intro slab_pop_pages [OF inv0 i(1)]) simp_all
    moreover have "k < 2048" if "k \<in> M" for k using pmm_invD(1,5) [OF heap_envD(1) [OF heap_invD(1) [OF inv]]] that by fastforce
    ultimately have "free_pages M s' = free_pages M s - {n}" using n(4) by (auto simp: free_pages_def)
    then show ?thesis by (cases "card (free_pages M s)") (simp_all add: card_Diff_singleton_if)
  qed
next
  assume "1024 < sz"
  then show ?thesis using sz by simp
qed

text \<open>While there is memory that was never handed out, requests succeed.\<close>

definition pages_needed :: "u64 \<Rightarrow> nat" where
  "pages_needed sz = (if sz \<le> 1024 then 1 else unat (div_roundup sz 0x1000) + 1)"

lemma slab_pop_fresh:
  assumes "heap_inv M own fl s" and "i < 10" and "fl i = y # ys" and "slab_alloc (slab_at s i) s = Inr (x, s')"
  shows "fresh f s' = fresh f s" "mem_usable_top s' = mem_usable_top s"
proof -
  obtain m where m: "s' = s\<lparr>mem := m\<rparr>" using slab_pop [OF assms(1-3)] assms(4) by auto
  then show "mem_usable_top s' = mem_usable_top s" by simp
  show "fresh f s' = fresh f s" using slab_pop_pages [OF assms] by (rule fresh_cong [rotated 2]) (simp_all add: m)
qed

lemma slab_alloc_fresh:
  assumes inv: "heap_inv M own fl s" and i: "i < 10" and f: "fresh f s" "f + 1 \<le> page_limit s"
  obtains x s' where "slab_alloc (slab_at s i) s = Inr (x, s')" "fresh (f + 1) s'" "mem_usable_top s' = mem_usable_top s"
proof (cases "fl i")
  case (Cons y ys)
  obtain m where m: "slab_alloc (slab_at s i) s = Inr (y, s\<lparr>mem := m\<rparr>)" using slab_pop [OF inv i Cons] by blast
  note p = slab_pop_fresh [OF inv i Cons m]
  have "fresh (f + 1) s" using fresh_mono [OF f(1) _ f(2)] by simp
  then show ?thesis using that [OF m] p by simp
next
  case Nil
  have ok: "slab_size (mem s) (slab_at s i) = slab_sizes ! i" "slab_head (mem s) (slab_at s i) = 0"
    using heap_invD(3) [OF inv i] Nil by (simp_all add: slab_ok_def)
  have "f \<in> M" "page_free s f" using f pmm_invD(4) [OF heap_envD(1) [OF heap_invD(1) [OF inv]]] by (auto simp: fresh_def)
  then obtain s0 where s0: "slab_init (slab_at s i) (slab_sizes ! i) s = Inr ((), s0)" using slab_init_returns [OF inv i] by blast
  obtain n where n: "heap_part (insert i {..<10}) M (own(n \<mapsto> Slab i))
      (fl(i := map (obj (page_addr s n) (slab_sizes ! i)) [0..<obj_count (slab_sizes ! i)])) s0"
    "hhdm_offset s0 = hhdm_offset s" "slabs_addr s0 = slabs_addr s" "mem_usable_top s0 = mem_usable_top s" "fresh (f + 1) s0"
    using slab_refill [OF inv i s0] f by blast
  have "insert i {..<10} = {..<10}" "[0..<obj_count (slab_sizes ! i)] = 0 # [1..<obj_count (slab_sizes ! i)]"
    using i slab_geometry(6) [OF nth_slab_sizes [OF i]] by (auto simp: upt_conv_Cons)
  note inv0 = n(1) [unfolded this list.map]
  have at: "slab_at s0 i = slab_at s i" by (rule heap_view(2) [OF n(2,3)])
  have "slab_head (mem s0) (slab_at s i) \<noteq> 0" using heap_invD(3) [OF inv0 i] at by (auto simp: slab_ok_def)
  then have eq: "slab_alloc (slab_at s i) s = slab_alloc (slab_at s0 i) s0" using s0 ok by (simp add: slab_alloc_def at)
  obtain x m where m: "slab_alloc (slab_at s0 i) s0 = Inr (x, s0\<lparr>mem := m\<rparr>)" using slab_pop [OF inv0 i] by auto
  show ?thesis using that [OF m [folded eq]] slab_pop_fresh [OF inv0 i _ m] n(4,5) by simp
qed

lemma malloc_fresh:
  assumes inv: "heap_inv M own fl s" and sz: "unat sz + 4096 \<le> 2 ^ 64" and f: "fresh f s" "f + pages_needed sz \<le> page_limit s"
  obtains x s' where "malloc sz s = Inr (x, s')" "fresh (f + pages_needed sz) s'" "mem_usable_top s' = mem_usable_top s"
proof (rule get_slab_spec [OF inv, of sz])
  fix j assume j: "j < 10" "get_slab sz s = slab_at s j" "get_slab sz s \<noteq> 0" "sz \<le> slab_sizes ! j"
  have "slab_sizes ! j \<le> 1024" using slab_geometry(5) [OF nth_slab_sizes [OF j(1)]] by (simp add: word_le_nat_alt)
  then have "sz \<le> 1024" using j(4) by (rule order_trans [rotated])
  then have one: "pages_needed sz = 1" by (simp add: pages_needed_def)
  show ?thesis
    using slab_alloc_fresh [OF inv j(1) f(1)] f(2) that j(2,3) unfolding one malloc_def Let_def by auto
next
  assume g: "get_slab sz s = 0" "1024 < sz"
  have "\<not> sz \<le> 1024" "0 < sz" using g(2) by (simp_all add: word_less_nat_alt not_le)
  then have need: "pages_needed sz = unat (div_roundup sz 0x1000 + 1)"
    using big_pages(3) [OF _ sz] by (simp add: pages_needed_def)
  note env = heap_invD(1) [OF inv]
  have "0 < pages_needed sz" by (simp add: pages_needed_def)
  then have c: "div_roundup sz 0x1000 + 1 \<noteq> 0" unfolding need by (metis unat_0 less_irrefl)
  obtain r s1 where r: "alloc (div_roundup sz 0x1000 + 1) s = Inr (r, s1)" "fresh (f + pages_needed sz) s1" "mem_usable_top s1 = mem_usable_top s"
    using alloc_fresh [OF heap_envD(1) [OF env] c f(1)] f(2) unfolding need by metis
  obtain a where a: "a \<in> M" "tohh (hhdm_offset s1) r = page_addr s a" "hhdm_offset s1 = hhdm_offset s" "bitmap s1 = bitmap s"
    using heap_page_alloc [OF inv c r(1)] by (metis atLeastLessThan_iff le_refl less_add_same_cancel1 subset_eq)
  let ?m = "store64 (store64 (mem s1) (page_addr s a) (div_roundup sz 0x1000)) (page_addr s a + 8) sz"
  have big: "malloc sz s = Inr (page_addr s a + 0x1000, s1\<lparr>mem := ?m\<rparr>)"
    using g(1) r(1) a(2) by (simp add: malloc_def big_malloc_def Let_def)
  have pg: "unat (page_addr s a) + 16 \<le> 2 ^ 64" using managed_page(1) [OF heap_envD(1) [OF env] a(1)] by simp
  have "?m x = mem s1 x" if "x \<in> span (bm_buffer (bitmap s1)) 256" for x
  proof (rule store_meta(3) [OF pg])
    show "x \<notin> span (page_addr s a) 16"
      using that pmm_invD(8) [OF heap_envD(1) [OF env] a(1), of x] span_mono [of 16 4096 "page_addr s a"]
      unfolding page_image_addr a(4) by auto
  qed
  then have "page_free (s1\<lparr>mem := ?m\<rparr>) n = page_free s1 n" for n by (intro page_free_cong) (simp_all del: in_span)
  then have "fresh (f + pages_needed sz) (s1\<lparr>mem := ?m\<rparr>)" using r(2) fresh_cong [of "s1\<lparr>mem := ?m\<rparr>" s1] by simp
  then show ?thesis using that [OF big] r(3) by simp
qed

section \<open>The heap as a store of blocks\<close>

text \<open>What clients do with the heap: they allocate, write inside their blocks, and free each block
  once. The abstract store maps the address of a block to its contents.\<close>

inductive client :: "'a heap_scheme \<Rightarrow> 'a heap_scheme \<Rightarrow> blocks \<Rightarrow> bool" for s0 where
  start: "client s0 s0 Map.empty"
| malloc: "client s0 s B \<Longrightarrow> unat sz + 4096 \<le> 2 ^ 64 \<Longrightarrow> malloc sz s = Inr (x, s')
    \<Longrightarrow> client s0 s' (B(x \<mapsto> replicate (unat sz) 0))"
| calloc: "client s0 s B \<Longrightarrow> unat num * unat sz + 4096 \<le> 2 ^ 64 \<Longrightarrow> calloc num sz s = Inr (x, s')
    \<Longrightarrow> client s0 s' (B(x \<mapsto> replicate (unat num * unat sz) 0))"
| free: "client s0 s B \<Longrightarrow> B x = Some bs \<Longrightarrow> client s0 (heap_free x s) (B(x := None))"
| put: "client s0 s B \<Longrightarrow> B x = Some bs \<Longrightarrow> i < length bs
    \<Longrightarrow> client s0 (s\<lparr>mem := (mem s)(x + of_nat i := v)\<rparr>) (B(x \<mapsto> bs[i := v]))"

text \<open>The heap satisfies the contract of an allocator, with the ownership of pages and the free lists as ghost state.\<close>

interpretation kheap: allocator "\<lambda>(own, fl). heap_inv M own fl" "\<lambda>(own, fl). live own fl" "\<lambda>sz. unat sz + 4096 \<le> 2 ^ 64" unat "(\<le>)"
  malloc "\<lambda>x k. heap_free x" for M :: "nat set"
proof (unfold_locales, goal_cases)
  case (1 g s r x s')
  obtain own fl where g: "g = (own, fl)" by (cases g)
  have "heap_inv M own fl s" using 1(1) by (simp add: g)
  from this 1(2,3) obtain own' fl' k where "heap_inv M own' fl' s'" "unat r \<le> k" "(x, k) \<notin> live own fl s"
    "live own' fl' s' = insert (x, k) (live own fl s)" "keeps (live own fl s) s s'" "\<forall>b \<in> span x k. mem s' b = 0"
    by (rule malloc_block)
  then show ?case by (intro exI [of _ "(own', fl')"] exI [of _ k]) (simp add: g)
next
  case (2 g s x k)
  then show ?case using free_live [of M "fst g" "snd g" s x k] by (auto simp: case_prod_beta)
next
  case (3 g s x k a v)
  have "((mem s)(a := v)) b = mem s b" if "b \<notin> span x k" for b using that 3(3) by auto
  then show ?case using 3(1,2) live_write(1,2) [of M "fst g" "snd g" s x k "(mem s)(a := v)"] by (simp only: case_prod_beta) blast
next
  case (4 g s x k y l)
  then show ?case using live_disjoint [of M "fst g" "snd g" s x k y l] by (simp add: case_prod_beta)
next
  case (5 g s x k)
  then show ?case using live_length [of M "fst g" "snd g" s x k] live_outside(2) [of M "fst g" "snd g" s x k] by (simp add: case_prod_beta)
qed

lemma client_holds:
  assumes "client s0 s B" and "heap_inv M own0 fl0 s0" and "live own0 fl0 s0 = {}"
  shows "\<exists>g. kheap.holds M g s B"
  using assms(1)
proof induction
  case start
  then show ?case using kheap.holds_start [where g = "(own0, fl0)" and s = s0 and M = M] assms(2,3) by auto
next
  case malloc
  then show ?case using kheap.holds_acquire by blast
next
  case (calloc s B num sz x s')
  then obtain g where g: "kheap.holds M g s B" by blast
  then have "heap_inv M (fst g) (snd g) s" using kheap.holdsD(1) by (simp add: case_prod_beta)
  note c = calloc_malloc [OF this calloc.hyps(2)]
  show ?case
    using kheap.holds_acquire [OF g, of "num * sz" x s', unfolded c(2), OF calloc.hyps(2)] calloc.hyps(3) unfolding c(1) by blast
next
  case (free s B x bs)
  then show ?case using kheap.holds_block kheap.holds_release by metis
next
  case put
  then show ?case using kheap.holds_write by blast
qed

section \<open>What the heap promises\<close>

text \<open>A machine with fifteen usable pages, as the boot loader leaves it.\<close>

definition boot_state :: heap where
  "boot_state = \<lparr>mem = \<lambda>_. 7, hhdm_offset = 0x1000000, mem_usable_top = 0, last_index = 0,
     bitmap = \<lparr>bm_buffer = 0, bm_size = 0\<rparr>, usable_memory = 0, total_memory = 0, used_memory = 0, mem_top = 0,
     memmaps = [\<lparr>me_base = 0, me_length = 0x1000, me_type = 1\<rparr>, \<lparr>me_base = 0x1000, me_length = 0xF000, me_type = 0\<rparr>],
     slabs_addr = 0x8000000\<rparr>"

lemma boot_state_pages: "usable_pages boot_state = {1..<16}"
  by (simp add: usable_pages_def boot_state_def pages_list_def LIMINE_MEMMAP_USABLE_def)

lemma boot_state_ok: "boot_heap boot_state"
proof -
  have "distinct (concat (map pages_list (memmaps boot_state)))"
    by (simp add: boot_state_def pages_list_def LIMINE_MEMMAP_USABLE_def)
  then have "boot_map boot_state"
    by (simp add: boot_map_def boot_state_def wf_entry_def LIMINE_MEMMAP_USABLE_def)
  moreover have "page_image 0x1000000 n \<inter> span 0x8000000 160 = {}" if "n < 16" for n
    unfolding page_image_def using that page_address(1) [of n] by (intro span_disjoint_nat) (simp_all add: unat_plus_nowrap)
  moreover have "hhdm_offset boot_state = 0x1000000" "slabs_addr boot_state = 0x8000000" by (simp_all add: boot_state_def)
  ultimately show ?thesis unfolding boot_heap_def boot_state_pages by simp
qed

lemma boot_state_runs:
  obtains s M own fl x s' where "physical_init boot_state = Some (Inr ((), s))" "heap_inv M own fl s" "live own fl s = {}"
    "malloc 24 s = Inr (x, s')" "3 \<le> card (free_pages M s')"
proof -
  from boot_state_ok obtain s M own fl where s: "physical_init boot_state = Some (Inr ((), s))" "heap_inv M own fl s"
    "live own fl s = {}" "M \<subseteq> usable_pages boot_state" "card (free_pages M s) = card (usable_pages boot_state) - 11"
    by (rule physical_init_ready)
  then have four: "card (free_pages M s) = 4" by (simp add: boot_state_pages)
  then have "free_pages M s \<noteq> {}" by auto
  then obtain n where "n \<in> M" "page_free s n" by (auto simp: free_pages_def)
  then obtain x s' where x: "malloc 24 s = Inr (x, s')" using malloc_small_returns [OF s(2), of 24 n] by auto
  moreover have "3 \<le> card (free_pages M s')" using malloc_small_pages [OF s(2) _ x] four by simp
  ultimately show ?thesis using s by (intro that)
qed

text \<open>C6: \<^verbatim>\<open>malloc\<close> returns a fresh block. Unless memory runs out, the result is the start of at least
  as many bytes as requested, all zero, which overlap no block in use, nor the bitmap, nor the
  slab structures; it is the only new block in use, no block in use changes its contents, and the
  heap stays well formed. (Sizes within a page of the top of the address space are excluded: the
  number of pages wraps.) \<^verbatim>\<open>alloc_size\<close> of the block lies between the request and the
  block's size.\<close>

theorem malloc_correct:
  assumes inv: "heap_inv M own fl s" and "unat sz + 4096 \<le> 2 ^ 64" and "malloc sz s = Inr (x, s')"
  shows "\<exists>own' fl' k. heap_inv M own' fl' s' \<and> unat sz \<le> k \<and> x \<noteq> 0 \<and> (\<forall>b \<in> span x k. mem s' b = 0)
    \<and> live own' fl' s' = insert (x, k) (live own fl s) \<and> keeps (live own fl s) s s'
    \<and> (\<forall>(y, l) \<in> live own fl s. span x k \<inter> span y l = {})
    \<and> span x k \<inter> (span (slabs_addr s') 160 \<union> span (bm_buffer (bitmap s')) 256) = {}
    \<and> sz \<le> alloc_size x s' \<and> unat (alloc_size x s') \<le> k"
proof -
  from assms obtain own' fl' k where r: "heap_inv M own' fl' s'" "unat sz \<le> k" "(x, k) \<notin> live own fl s"
    "live own' fl' s' = insert (x, k) (live own fl s)" "keeps (live own fl s) s s'" "\<forall>b \<in> span x k. mem s' b = 0"
    "sz \<le> alloc_size x s'" "unat (alloc_size x s') \<le> k"
    by (rule malloc_block)
  have x: "(x, k) \<in> live own' fl' s'" using r(4) by blast
  have "span x k \<inter> span y l = {}" if "(y, l) \<in> live own fl s" for y l
    using that r(3,4) by (intro live_disjoint [OF r(1) x]) auto
  then show ?thesis using r live_outside [OF r(1) x] by blast
qed

theorem malloc_correct_witness:
  "\<exists>s x s'. physical_init boot_state = Some (Inr ((), s)) \<and> malloc 24 s = Inr (x, s') \<and> x \<noteq> 0
    \<and> mem s' x = 0 \<and> 24 \<le> alloc_size x s'"
proof -
  obtain s M own fl x s' where s: "physical_init boot_state = Some (Inr ((), s))" "heap_inv M own fl s" "live own fl s = {}"
    "malloc 24 s = Inr (x, s')" using boot_state_runs .
  obtain k where k: "24 \<le> k" "x \<noteq> 0" "\<forall>b \<in> span x k. mem s' b = 0" "24 \<le> alloc_size x s'"
    using malloc_correct [OF s(2) _ s(4)] by auto
  then have "mem s' x = 0" by simp
  then show ?thesis using s(1,4) k by blast
qed

text \<open>C13: Freeing a block in use removes this block, and nothing else, from the blocks in use: the
  heap stays well formed and all other blocks keep their contents. The block's slab is found
  through the header of its page, a large block through its page alignment.\<close>

theorem free_correct:
  assumes inv: "heap_inv M own fl s" and l: "(x, k) \<in> live own fl s"
  shows "\<exists>own' fl'. heap_inv M own' fl' (heap_free x s) \<and> live own' fl' (heap_free x s) = live own fl s - {(x, k)}
    \<and> keeps (live own fl s - {(x, k)}) s (heap_free x s)"
  using assms by (rule free_live)

theorem free_correct_witness:
  "\<exists>s x s' M own fl. physical_init boot_state = Some (Inr ((), s)) \<and> malloc 24 s = Inr (x, s')
    \<and> heap_inv M own fl (heap_free x s') \<and> live own fl (heap_free x s') = {}"
proof -
  obtain s M own fl x s' where s: "physical_init boot_state = Some (Inr ((), s))" "heap_inv M own fl s" "live own fl s = {}"
    "malloc 24 s = Inr (x, s')" using boot_state_runs .
  from s(2) _ s(4) obtain own' fl' k where k: "heap_inv M own' fl' s'" "live own' fl' s' = insert (x, k) (live own fl s)"
    by (rule malloc_block) simp
  then have "(x, k) \<in> live own' fl' s'" "live own' fl' s' - {(x, k)} = {}" using s(3) by auto
  with free_correct [OF k(1), of x k] show ?thesis using s(1,4) by auto
qed

text \<open>C14: \<^verbatim>\<open>realloc\<close> of a block in use, to a size at least a page below \<open>2 ^ 64\<close>, on each of its three ways out. To a nonzero size, unless a large block keeps its
  number of pages, it returns a fresh block of at least that size which begins with the old contents, up to the
  smaller of the new size and the recorded old size, and is zero after them; the old block is no longer in use and all
  others keep their contents. To size zero, again unless a large block keeps its number of pages, it frees the block and
  returns the null pointer. Where a large block keeps its number of pages, it records the new size and returns the null
  pointer as well, although the block stays in use.\<close>

theorem realloc_correct:
  assumes "heap_inv M own fl s" and "(x, k) \<in> live own fl s" and "unat sz + 4096 \<le> 2 ^ 64" and "realloc x sz s = Inr (y, s')"
  shows "(\<not> same_pages x sz s \<and> sz \<noteq> 0 \<longrightarrow>
      (\<exists>own' fl' k'. heap_inv M own' fl' s' \<and> unat sz \<le> k' \<and> live own' fl' s' = insert (y, k') (live own fl s - {(x, k)})
        \<and> (y, k') \<notin> live own fl s \<and> keeps (live own fl s - {(x, k)}) s s'
        \<and> (\<forall>b \<in> span y k'. mem s' b =
             (if b \<in> span y (min (unat sz) (unat (alloc_size x s))) then mem s (x + (b - y)) else 0))))
    \<and> (\<not> same_pages x sz s \<and> sz = 0 \<longrightarrow> y = 0
      \<and> (\<exists>own' fl'. heap_inv M own' fl' s' \<and> live own' fl' s' = live own fl s - {(x, k)} \<and> keeps (live own fl s - {(x, k)}) s s'))
    \<and> (same_pages x sz s \<longrightarrow> y = 0 \<and> alloc_size x s' = sz
      \<and> (\<exists>own' fl'. heap_inv M own' fl' s' \<and> live own' fl' s' = live own fl s \<and> keeps (live own fl s) s s'))"
proof (intro conjI impI; (elim conjE)?)
  have x: "x \<noteq> 0" by (rule live_outside(2) [OF assms(1,2)])
  assume z: "\<not> same_pages x sz s" "sz = 0"
  then have "y = 0" "s' = heap_free x s" using assms(4) realloc_move [OF x z(1)] by (simp_all add: move_block_def)
  then show "y = 0" "\<exists>own' fl'. heap_inv M own' fl' s' \<and> live own' fl' s' = live own fl s - {(x, k)} \<and> keeps (live own fl s - {(x, k)}) s s'"
    using free_live [OF assms(1,2)] by simp_all
qed (use realloc_live [OF assms(1,2) _ assms(3) _ assms(4)] realloc_same [OF assms(1,2,3) _ assms(4)] in blast)+

theorem realloc_correct_witness:
  "\<exists>s x s' y s''. physical_init boot_state = Some (Inr ((), s)) \<and> malloc 24 s = Inr (x, s') \<and> realloc x 100 s' = Inr (y, s'')
    \<and> mem s'' y = 0"
proof -
  obtain s M own fl x s' where s: "physical_init boot_state = Some (Inr ((), s))" "heap_inv M own fl s" "live own fl s = {}"
    "malloc 24 s = Inr (x, s')" "3 \<le> card (free_pages M s')" by (rule boot_state_runs)
  from s(2) _ s(4) obtain own' fl' k where k: "heap_inv M own' fl' s'" "live own' fl' s' = insert (x, k) (live own fl s)"
    "\<forall>b \<in> span x k. mem s' b = 0" "24 \<le> alloc_size x s'" "k \<le> 1024" by (rule malloc_block) simp_all
  have xk: "(x, k) \<in> live own' fl' s'" using k(2) by blast
  have np: "\<not> same_pages x 100 s'" using alloc_size_live(3) [OF k(1) xk] k(5) by (simp add: same_pages_def)
  have "free_pages M s' \<noteq> {}" using s(5) by auto
  then obtain n where "n \<in> M" "page_free s' n" by (auto simp: free_pages_def)
  then obtain p t where "malloc 100 s' = Inr (p, t)" using malloc_small_returns [OF k(1), of 100 n] by auto
  then obtain y s'' where y: "realloc x 100 s' = Inr (y, s'')"
    using realloc_move [OF live_outside(2) [OF k(1) xk] np] by (cases "p = 0") (auto simp: move_block_def)
  obtain own'' fl'' k' where r: "heap_inv M own'' fl'' s''" "live own'' fl'' s'' = insert (y, k') (live own' fl' s' - {(x, k)})"
    "(y, k') \<notin> live own' fl' s'" "100 \<le> k'"
    "\<forall>b \<in> span y k'. mem s'' b = (if b \<in> span y (min 100 (unat (alloc_size x s'))) then mem s' (x + (b - y)) else 0)"
    using realloc_correct [OF k(1) xk _ y] np by auto
  have "mem s'' y = 0" using bspec [OF r(5), of y] r(4) k(3,4) live_length(1) [OF k(1) xk] by (auto split: if_splits)
  then show ?thesis using s(1,4) y by blast
qed

text \<open>C1: The heap refines a store of blocks. After the constructor, whatever sequence of allocations,
  writes into blocks and frees clients perform, every block they hold reads back exactly what was
  written to it (zero where nothing was), and the blocks held are apart from each other.\<close>

theorem heap_refines_store:
  assumes "client s0 s B" and "heap_inv M own0 fl0 s0" and "live own0 fl0 s0 = {}"
  shows "(\<forall>x bs. B x = Some bs \<longrightarrow> x \<noteq> 0 \<and> map (\<lambda>i. mem s (x + of_nat i)) [0..<length bs] = bs)
    \<and> (\<forall>x y bs cs. B x = Some bs \<longrightarrow> B y = Some cs \<longrightarrow> x \<noteq> y \<longrightarrow> span x (length bs) \<inter> span y (length cs) = {})"
proof -
  obtain g where "kheap.holds M g s B" using client_holds [OF assms] by blast
  from kheap.holds_store [OF this] show ?thesis by (simp add: contents_map)
qed

theorem heap_refines_store_witness:
  "\<exists>s x s'. physical_init boot_state = Some (Inr ((), s)) \<and> malloc 24 s = Inr (x, s') \<and> client s s' [x \<mapsto> replicate 24 0]
    \<and> mem s' (x + 23) = 0"
proof -
  obtain s M own fl x s' where s: "physical_init boot_state = Some (Inr ((), s))" "heap_inv M own fl s" "live own fl s = {}"
    "malloc 24 s = Inr (x, s')" using boot_state_runs .
  have c: "client s s' [x \<mapsto> replicate 24 0]" using client.malloc [OF client.start _ s(4)] by simp
  from heap_refines_store [OF c s(2,3)]
  have "x \<noteq> 0 \<and> map (\<lambda>i. mem s' (x + of_nat i)) [0..<length (replicate 24 (0 :: u8))] = replicate 24 0"
    by (blast intro: map_upd_Some_unfold [THEN iffD2])
  then have "map (\<lambda>i. mem s' (x + of_nat i)) [0..<24] = replicate 24 0" by simp
  then have "map (\<lambda>i. mem s' (x + of_nat i)) [0..<24] ! 23 = replicate 24 0 ! 23" by (rule arg_cong)
  then have "mem s' (x + 23) = 0" by simp
  then show ?thesis using s(1,4) c by blast
qed

text \<open>C8: \<^verbatim>\<open>physical::init\<close> as a whole brings up the heap: on a memory map with at least eleven usable pages it
  ends without a panic, the ten slabs are well formed, no block is in use, and all usable pages
  but eleven (the bitmap and one for each slab) are still free; from there on, a request of at
  most 1024 bytes is served as long as a page is free.\<close>

theorem physical_init_correct:
  assumes "boot_heap s"
  shows "\<exists>s' M own fl. physical_init s = Some (Inr ((), s')) \<and> heap_inv M own fl s' \<and> live own fl s' = {}
    \<and> M \<subseteq> usable_pages s \<and> card {n \<in> M. page_free s' n} = card (usable_pages s) - 11
    \<and> (card (usable_pages s) \<noteq> 11 \<longrightarrow> (\<forall>sz \<le> 1024. \<not> halted (malloc sz s')))"
proof -
  from assms obtain s' M own fl where r: "physical_init s = Some (Inr ((), s'))" "heap_inv M own fl s'" "live own fl s' = {}"
    "M \<subseteq> usable_pages s" "card (free_pages M s') = card (usable_pages s) - 11" by (rule physical_init_ready)
  have "11 \<le> card (usable_pages s)" using assms by (simp add: boot_heap_def)
  have "\<not> halted (malloc sz s')" if ne: "card (usable_pages s) \<noteq> 11" and le: "sz \<le> 1024" for sz
  proof -
    have "free_pages M s' \<noteq> {}" using r(5) ne \<open>11 \<le> _\<close> by auto
    then obtain n where "n \<in> M" "page_free s' n" by (auto simp: free_pages_def)
    then obtain x t where "malloc sz s' = Inr (x, t)" using malloc_small_returns [OF r(2) le] by blast
    then show ?thesis by simp
  qed
  then show ?thesis using r unfolding free_pages_def by blast
qed

theorem physical_init_correct_witness:
  "\<exists>s'. physical_init boot_state = Some (Inr ((), s')) \<and> \<not> halted (malloc 1024 s')"
  using physical_init_correct [OF boot_state_ok] unfolding boot_state_pages by auto

end
