(* ===== verification/Ice_Pagetable.thy ===== *)
theory Ice_Pagetable
  imports Ice_Paging Ice_Allocator "HOL-Library.Sublist"
begin

text \<open>
  What the page tables of \<open>Ice_Paging\<close> mean to the processor. The specification is the hardware's
  four-level walk; a ghost tree of tables ties the memory to it. From it follow the properties of
  \<^verbatim>\<open>map\<close>, \<^verbatim>\<open>unmap\<close>, \<^verbatim>\<open>set_flags\<close> and \<^verbatim>\<open>virtual_to_physical\<close>.
\<close>

unbundle bit_operations_syntax

section \<open>Bits of entries\<close>

lemma pa_mask_bits [simp]: "bit pa_mask n \<longleftrightarrow> 12 \<le> n \<and> n < 52"
proof -
  have "pa_mask = push_bit 12 (mask 40)" by (simp add: pa_mask_def push_bit_eq_mult mask_eq_exp_minus_1)
  moreover have "bit (push_bit 12 (mask 40) :: u64) n \<longleftrightarrow> 12 \<le> n \<and> n < 52" by (auto simp: bit_push_bit_iff bit_mask_iff)
  ultimately show ?thesis by (simp only:)
qed

lemma one_bit [simp]: "bit (1 :: u64) n \<longleftrightarrow> n = 0"
  by (simp add: bit_1_iff)

lemma flag_bits:
  "bit present n \<longleftrightarrow> n = 0" "bit pte_write n \<longleftrightarrow> n = 1" "bit user_super n \<longleftrightarrow> n = 2" "bit write_through n \<longleftrightarrow> n = 3"
  "bit cache_disable n \<longleftrightarrow> n = 4" "bit larger_pages n \<longleftrightarrow> n = 7" "bit pat4k n \<longleftrightarrow> n = 7" "bit pte_global n \<longleftrightarrow> n = 8"
  "bit patlg n \<longleftrightarrow> n = 12" "bit no_exec n \<longleftrightarrow> n = 63"
proof -
  have p: "bit (w :: u64) n \<longleftrightarrow> n = k" if "w = push_bit k 1" "k < 64" for w k using that by (auto simp: bit_push_bit_iff bit_1_iff push_bit_of_1 bit_exp_iff)
  show "bit present n \<longleftrightarrow> n = 0" "bit pte_write n \<longleftrightarrow> n = 1" "bit user_super n \<longleftrightarrow> n = 2" "bit write_through n \<longleftrightarrow> n = 3"
    "bit cache_disable n \<longleftrightarrow> n = 4" "bit larger_pages n \<longleftrightarrow> n = 7" "bit pat4k n \<longleftrightarrow> n = 7" "bit pte_global n \<longleftrightarrow> n = 8"
    "bit patlg n \<longleftrightarrow> n = 12" "bit no_exec n \<longleftrightarrow> n = 63"
    by (intro p; simp add: present_def pte_write_def user_super_def write_through_def cache_disable_def larger_pages_def
        pat4k_def pte_global_def patlg_def no_exec_def push_bit_eq_mult)+
qed

lemma has_flag_bit:
  assumes "\<And>k. bit w k \<longleftrightarrow> k = n"
  shows "pte_has_flags v w \<longleftrightarrow> bit v n"
proof -
  have "bit (v AND w) k \<longleftrightarrow> bit v n \<and> k = n" for k using assms by (auto simp: bit_and_iff)
  then have "v AND w = 0 \<longleftrightarrow> \<not> bit v n" by (metis bit_0_eq bot_apply bot_bool_def bit_eqI)
  then show ?thesis by (simp add: pte_has_flags_def)
qed

lemma has_present: "pte_has_flags v present \<longleftrightarrow> bit v 0"
  by (rule has_flag_bit) (rule flag_bits)

lemma flags_to_arch_bits:
  "bit (flags_to_arch f) n \<longleftrightarrow> n = 0 \<or> n = 1 \<and> f AND WRITE \<noteq> 0 \<or> n = 2 \<and> f AND USER \<noteq> 0 \<or> n = 63 \<and> f AND EXEC = 0
    \<or> n = 8 \<and> f AND GLOBAL \<noteq> 0 \<or> n = 7 \<and> is_lpage f"
  by (auto simp: flags_to_arch_def Let_def bit_or_iff flag_bits)

lemma cache_to_flags_bits:
  "bit (cache_to_flags c False) n \<longleftrightarrow> n = 3 \<and> c \<in> {WRITE_COMBINING, WRITE_PROTECTED}
    \<or> n = 4 \<and> c = WRITE_BACK \<or> n = 7 \<and> c \<in> {WRITE_THROUGH, WRITE_PROTECTED, WRITE_BACK}"
  by (cases c) (auto simp: cache_to_flags_def bit_or_iff flag_bits)

definition real_flags :: "u64 \<Rightarrow> caching \<Rightarrow> u64" where
  "real_flags f c = flags_to_arch f OR cache_to_flags c False"

lemma real_flags_bits:
  "bit (real_flags f c) 0" "12 \<le> n \<Longrightarrow> n < 52 \<Longrightarrow> \<not> bit (real_flags f c) n"
  by (auto simp: real_flags_def bit_or_iff flags_to_arch_bits cache_to_flags_bits)

text \<open>What is stored as address and flags is read back.\<close>

lemma entry_bit:
  assumes "pa AND pa_mask = pa"
  shows "bit (pte_set_flags (pte_set_address v pa) f True) k \<longleftrightarrow> bit f k \<or> bit pa k \<or> bit v k \<and> \<not> (12 \<le> k \<and> k < 52)"
proof -
  have pa: "bit pa n \<Longrightarrow> 12 \<le> n \<and> n < 52" for n using assms by (metis bit_and_iff pa_mask_bits)
  show ?thesis
    by (cases "k < 64")
      (auto simp: pte_set_flags_def pte_set_address_def Let_def bit_or_iff bit_and_iff bit_not_iff dest: bit_imp_le_length)
qed

lemma entry_bits:
  assumes "pa AND pa_mask = pa" and "\<And>n. 12 \<le> n \<Longrightarrow> n < 52 \<Longrightarrow> \<not> bit f n"
  shows "pte_address (pte_set_flags (pte_set_address v pa) f True) = pa"
    "bit (pte_set_flags (pte_set_address v pa) f True) k \<longleftrightarrow> bit f k \<or> bit pa k \<or> bit v k \<and> \<not> (12 \<le> k \<and> k < 52)"
proof -
  have pa: "bit pa n \<Longrightarrow> 12 \<le> n \<and> n < 52" for n using assms(1) by (metis bit_and_iff pa_mask_bits)
  show "pte_address (pte_set_flags (pte_set_address v pa) f True) = pa"
    unfolding pte_address_def using pa assms(2) by (intro bit_eqI) (auto simp: bit_and_iff entry_bit [OF assms(1)])
qed (rule entry_bit [OF assms(1)])

section \<open>The hardware walk\<close>

text \<open>Bits \<open>n\<close> to \<open>n + 8\<close> of an address select the entry of a table.\<close>

definition va_index :: "nat \<Rightarrow> u64 \<Rightarrow> nat" where
  "va_index n va = unat (drop_bit n va AND 0x1FF)"

text \<open>The processor reads physical memory, which the kernel sees through the direct map. Bit 0 of an
  entry is its present bit; bit 7, in the two middle levels, makes it a large page. The result is
  the size of the page, as the number of offset bits, and the entry that maps it.\<close>

definition hw_entry :: "memory \<Rightarrow> u64 \<Rightarrow> u64 \<Rightarrow> nat \<Rightarrow> u64" where
  "hw_entry m h e i = load64 m (h + (e AND pa_mask) + 8 * of_nat i)"

definition hw_walk :: "memory \<Rightarrow> u64 \<Rightarrow> u64 \<Rightarrow> u64 \<Rightarrow> (nat \<times> u64) option" where
  "hw_walk m h root va =
     (let e4 = hw_entry m h root (va_index 39 va) in
      if \<not> bit e4 0 then None else
      let e3 = hw_entry m h e4 (va_index 30 va) in
      if \<not> bit e3 0 then None else if bit e3 7 then Some (30, e3) else
      let e2 = hw_entry m h e3 (va_index 21 va) in
      if \<not> bit e2 0 then None else if bit e2 7 then Some (21, e2) else
      let e1 = hw_entry m h e2 (va_index 12 va) in
      if \<not> bit e1 0 then None else Some (12, e1))"

text \<open>The physical address of a page of \<open>2 ^ n\<close> bytes and the permissions of its entry.\<close>

definition hw_phys :: "nat \<times> u64 \<Rightarrow> u64 \<Rightarrow> u64" where
  "hw_phys p va = (case p of (n, e) \<Rightarrow> (e AND pa_mask AND NOT (mask n)) OR (va AND mask n))"

lemma va_index_less: "va_index n va < 512"
proof -
  have "drop_bit n va AND 0x1FF = take_bit 9 (drop_bit n va)" by (simp add: take_bit_eq_mask mask_eq_exp_minus_1)
  then have "va_index n va = take_bit 9 (unat (drop_bit n va))" by (simp add: va_index_def unsigned_take_bit_eq)
  then show ?thesis using take_bit_nat_less_exp [of 9 "unat (drop_bit n va)"] by simp
qed

lemma level_index: "level_index n va = of_nat (va_index n va)"
proof -
  have m: "(0x1FF :: u64) = mask 9" by (simp add: mask_eq_exp_minus_1)
  have "level_index n va = drop_bit n va AND 0x1FF"
    unfolding level_index_def m
    by (rule bit_word_eqI) (auto simp: bit_and_iff bit_drop_bit_eq bit_push_bit_iff bit_mask_iff dest: bit_imp_le_length)
  then show ?thesis by (simp add: va_index_def)
qed

section \<open>The tree of tables\<close>

text \<open>Ghost state: the table at every path of indices. A path of length three leads to a table of small
  pages.\<close>

type_synonym tables = "nat list \<rightharpoonup> u64"

definition ent :: "memory \<Rightarrow> u64 \<Rightarrow> nat \<Rightarrow> u64" where
  "ent m t i = load64 m (entry_at t (of_nat i))"

text \<open>An entry that does not lead to a table is zero or, except at the top, a large page.\<close>

definition entry_ok :: "tables \<Rightarrow> 'a heap_scheme \<Rightarrow> nat list \<Rightarrow> u64 \<Rightarrow> nat \<Rightarrow> bool" where
  "entry_ok tbl s p t i \<longleftrightarrow>
     (if length p = 3 then ent (mem s) t i = 0 \<or> bit (ent (mem s) t i) 0
      else case tbl (p @ [i]) of
        Some t' \<Rightarrow> bit (ent (mem s) t i) 0 \<and> \<not> bit (ent (mem s) t i) 7 \<and> hhdm_offset s + pte_address (ent (mem s) t i) = t'
      | None \<Rightarrow> ent (mem s) t i = 0 \<or> bit (ent (mem s) t i) 0 \<and> bit (ent (mem s) t i) 7 \<and> p \<noteq> [])"

definition pt_tree ::
  "nat set \<Rightarrow> (nat \<rightharpoonup> owner) \<Rightarrow> (nat \<Rightarrow> u64 list) \<Rightarrow> tables \<Rightarrow> u64 \<Rightarrow> 'a heap_scheme \<Rightarrow> bool" where
  "pt_tree M own fl tbl pml4 s \<longleftrightarrow> heap_inv M own fl s \<and> tbl [] = Some pml4
     \<and> (\<forall>p t. tbl p = Some t \<longrightarrow> length p \<le> 3 \<and> (\<exists>k \<ge> 4096. (t, k) \<in> live own fl s))
     \<and> (\<forall>p q t. tbl p = Some t \<longrightarrow> tbl q = Some t \<longrightarrow> p = q)
     \<and> (\<forall>p i. tbl (p @ [i]) \<noteq> None \<longrightarrow> tbl p \<noteq> None)
     \<and> (\<forall>p t i. tbl p = Some t \<longrightarrow> i < 512 \<longrightarrow> entry_ok tbl s p t i)"

lemma pt_treeD:
  assumes "pt_tree M own fl tbl pml4 s"
  shows "heap_inv M own fl s" "tbl [] = Some pml4" "\<And>p t. tbl p = Some t \<Longrightarrow> length p \<le> 3"
    "\<And>p t. tbl p = Some t \<Longrightarrow> \<exists>k \<ge> 4096. (t, k) \<in> live own fl s" "\<And>p q t. tbl p = Some t \<Longrightarrow> tbl q = Some t \<Longrightarrow> p = q"
    "\<And>p i. tbl (p @ [i]) \<noteq> None \<Longrightarrow> tbl p \<noteq> None" "\<And>p t i. tbl p = Some t \<Longrightarrow> i < 512 \<Longrightarrow> entry_ok tbl s p t i"
  using assms unfolding pt_tree_def by blast+

text \<open>The walk through the tree.\<close>

fun tree_walk :: "tables \<Rightarrow> memory \<Rightarrow> nat list \<Rightarrow> nat list \<Rightarrow> (nat list \<times> u64) option" where
  "tree_walk tbl m p [] = None"
| "tree_walk tbl m p (i # js) =
     (case tbl p of None \<Rightarrow> None
      | Some t \<Rightarrow>
          let e = ent m t i in
          if \<not> bit e 0 then None
          else if js = [] \<or> bit e 7 \<and> p \<noteq> [] then Some (p, e)
          else tree_walk tbl m (p @ [i]) js)"

lemma tree_walk_table:
  assumes "tree_walk tbl m p js = Some (q, e)"
  shows "tbl q \<noteq> None \<and> (\<exists>ks. q = p @ ks \<and> prefix ks js \<and> length ks < length js)"
  using assms
proof (induction js arbitrary: p)
  case (Cons i js)
  then obtain t where t: "tbl p = Some t" by (auto split: option.splits)
  show ?case
  proof (cases "tree_walk tbl m (p @ [i]) js = Some (q, e)")
    case True
    then obtain ks where "tbl q \<noteq> None" "q = (p @ [i]) @ ks" "prefix ks js" "length ks < length js" using Cons.IH by blast
    then show ?thesis by (intro conjI exI [of _ "i # ks"]) simp_all
  next
    case False
    then show ?thesis using Cons.prems t by (auto simp: Let_def split: if_splits)
  qed
qed simp

text \<open>Entries of a table are apart from each other and from everything outside the table.\<close>

lemma entry_span:
  assumes "i < 512" and "4096 \<le> k" and "k \<le> 2 ^ 64"
  shows "span (entry_at t (of_nat i)) 8 \<subseteq> span t k"
proof -
  have "entry_at t (of_nat i) = t + of_nat (8 * i)" by (simp add: entry_at_def)
  then show ?thesis using assms by (simp only: span_shift)
qed

lemma unat_entry:
  assumes "i < 512" and "unat t + 4096 \<le> 2 ^ 64"
  shows "unat (entry_at t (of_nat i)) = unat t + 8 * i"
proof -
  have "unat (of_nat (8 * i) :: u64) = 8 * i" using assms(1) by (intro unat_of_nat64) simp
  then show ?thesis unfolding entry_at_def using assms by (subst unat_plus_nowrap) simp_all
qed

lemma entry_disjoint:
  assumes "i < 512" and "j < 512" and "i \<noteq> j" and "8 dvd unat t" and "unat t + 4096 \<le> 2 ^ 64"
  shows "span (entry_at t (of_nat i)) 8 \<inter> span (entry_at t (of_nat j)) 8 = {}"
  using assms by (intro span_disjoint_nat) (auto simp: unat_entry)

text \<open>Large blocks are page aligned and their physical address fits into an entry.\<close>

lemma big_block:
  assumes inv: "heap_inv M own fl s" and l: "(t, k) \<in> live own fl s" and k: "4096 \<le> k"
  obtains n where "t = hhdm_offset s + of_nat n * page_size" "n < 2048" "unat t + k \<le> 2 ^ 64" "8 dvd unat t"
    "hhdm_offset s \<le> t" "of_nat n * page_size < hhdm_offset s" "t \<noteq> 0"
    "(of_nat n * page_size) AND pa_mask = of_nat n * page_size"
proof -
  note env = heap_invD(1) [OF inv]
  note pmm = heap_envD(1) [OF env]
  have "\<not> (i < 10 \<and> small_live own s i (fl i) (t, k))" for i
    using k slab_geometry(5) [of "slab_sizes ! i"] by (auto simp: small_live_def)
  then obtain a c z where o: "own a = Some (Big a c z)" "t = page_addr s (a + 1)" "k = (c - 1) * 4096"
    using l unfolding live_iff by (auto simp: big_live_def)
  have c: "2 \<le> c" "{a..<a + c} \<subseteq> M" using heap_invD(2) [OF inv, of a] o(1) heap_envD(6) [OF env] by (auto simp: page_ok_def)
  then have aM: "a + 1 \<in> M" and aM0: "a \<in> M" by auto
  let ?n = "a + 1" and ?h = "hhdm_offset s"
  have n: "?n < 2048" using pmm_invD(1,5) [OF pmm] aM by fastforce
  have pg: "unat (of_nat ?n * page_size) = ?n * 4096" using n by (intro page_address) simp
  have t: "unat t = unat ?h + ?n * 4096" using managed_page(2) [OF pmm aM] o(2) by simp
  have "unat (page_addr s a) + c * 4096 \<le> 2 ^ 64" "unat (page_addr s a) = unat ?h + a * 4096"
    using run_bounds(2) [OF pmm c(2)] managed_page(2) [OF pmm aM0] c by auto
  then have top: "unat t + k \<le> 2 ^ 64" using t o(3) c(1) by (simp add: diff_mult_distrib)
  have "?n * 4096 < page_limit s * 4096" using pmm_invD(5) [OF pmm aM] by simp
  then have lt: "of_nat ?n * page_size < ?h" using pg pmm_invD(6) [OF pmm] by (simp add: word_less_nat_alt)
  have "4096 dvd unat t" using t heap_envD(7) [OF env] by simp
  then have dvd: "8 dvd unat t" by (rule dvd_trans [rotated]) simp
  have mask: "(of_nat ?n * page_size) AND pa_mask = of_nat ?n * page_size"
  proof (rule bit_word_eqI)
    fix b assume "b < LENGTH(64)"
    have sh: "of_nat ?n * page_size = push_bit 12 (of_nat ?n :: u64)" by (simp add: push_bit_eq_mult)
    have nat: "bit (of_nat n :: u64) j \<Longrightarrow> bit n j" for n j by (simp add: bit_of_nat_iff)
    have "bit (of_nat ?n :: u64) j \<Longrightarrow> j < 11" for j
    proof -
      assume "bit (of_nat ?n :: u64) j"
      then have "bit ?n j" by (rule nat)
      then have "2 ^ j \<le> ?n" by (auto simp: bit_iff_odd intro: ccontr)
      then have "(2::nat) ^ j < 2 ^ 11" using n by simp
      then show "j < 11" by (rule power_less_imp_less_exp [rotated]) simp
    qed
    then show "bit ((of_nat ?n * page_size) AND pa_mask) b = bit (of_nat ?n * page_size) b"
      unfolding sh by (fastforce simp: bit_and_iff bit_push_bit_iff)
  qed
  show ?thesis
    using n top dvd lt t mask o(2) by (intro that [of ?n]) (auto simp: page_addr_def word_le_nat_alt)
qed

lemma hw_entry_ent: "h + (e AND pa_mask) = t \<Longrightarrow> hw_entry m h e i = ent m t i"
  by (simp add: hw_entry_def ent_def entry_at_def)

definition va_path :: "u64 \<Rightarrow> nat list" where
  "va_path va = [va_index 39 va, va_index 30 va, va_index 21 va, va_index 12 va]"

lemma va_path_simps: "length (va_path va) = 4" "\<forall>i \<in> set (va_path va). i < 512"
  by (auto simp: va_path_def va_index_less)

definition level_bits :: "nat list \<Rightarrow> nat" where
  "level_bits p = 39 - 9 * length p"

lemma entry_ok_table:
  assumes "entry_ok tbl s p t i" and "length p < 3" and "bit (ent (mem s) t i) 0" and "\<not> bit (ent (mem s) t i) 7 \<or> p = []"
  shows "tbl (p @ [i]) = Some (hhdm_offset s + pte_address (ent (mem s) t i))" "\<not> bit (ent (mem s) t i) 7"
  using assms by (auto simp: entry_ok_def split: option.splits)

lemma table_root:
  assumes inv: "heap_inv M own fl s" and l: "(t, k) \<in> live own fl s" and k: "4096 \<le> k"
  shows "hhdm_offset s + (fromhh (hhdm_offset s) t AND pa_mask) = t" "tohh (hhdm_offset s) (fromhh (hhdm_offset s) t) = t"
    "fromhh (hhdm_offset s) t AND pa_mask = fromhh (hhdm_offset s) t" "t \<noteq> 0"
proof -
  obtain n where n: "t = hhdm_offset s + of_nat n * page_size" "hhdm_offset s \<le> t" "of_nat n * page_size < hhdm_offset s"
    "(of_nat n * page_size) AND pa_mask = of_nat n * page_size" "t \<noteq> 0"
    using big_block [OF inv l k] by metis
  then have "fromhh (hhdm_offset s) t = of_nat n * page_size" by (simp add: fromhh_def ishh_def)
  then show "hhdm_offset s + (fromhh (hhdm_offset s) t AND pa_mask) = t" "tohh (hhdm_offset s) (fromhh (hhdm_offset s) t) = t"
    "fromhh (hhdm_offset s) t AND pa_mask = fromhh (hhdm_offset s) t" "t \<noteq> 0"
    using n by (simp_all add: tohh_phys)
qed

text \<open>The walk of the hardware is the walk through the tree.\<close>

lemma hw_walk_tree:
  assumes tree: "pt_tree M own fl tbl pml4 s"
  shows "hw_walk (mem s) (hhdm_offset s) (fromhh (hhdm_offset s) pml4) va =
    map_option (\<lambda>(p, e). (level_bits p, e)) (tree_walk tbl (mem s) [] (va_path va))"
proof -
  let ?h = "hhdm_offset s" and ?m = "mem s"
  obtain k where "4096 \<le> k" "(pml4, k) \<in> live own fl s" using pt_treeD(4) [OF tree pt_treeD(2) [OF tree]] by blast
  then have root: "hw_entry ?m ?h (fromhh ?h pml4) i = ent ?m pml4 i" for i
    by (intro hw_entry_ent table_root(1) [OF pt_treeD(1) [OF tree]])
  have step: "tbl (p @ [i]) = Some (?h + pte_address (ent ?m t i)) \<and> (\<forall>j. hw_entry ?m ?h (ent ?m t i) j = ent ?m (?h + pte_address (ent ?m t i)) j)
      \<and> (p = [] \<longrightarrow> \<not> bit (ent ?m t i) 7)"
    if "tbl p = Some t" "length p < 3" "i < 512" "bit (ent ?m t i) 0" "\<not> bit (ent ?m t i) 7 \<or> p = []" for p t i
    using entry_ok_table [OF pt_treeD(7) [OF tree that(1,3)] that(2,4,5)] by (simp add: hw_entry_ent pte_address_def)
  define i4 i3 i2 i1 where "i4 = va_index 39 va" and "i3 = va_index 30 va" and "i2 = va_index 21 va" and "i1 = va_index 12 va"
  have lt: "i4 < 512" "i3 < 512" "i2 < 512" "i1 < 512" by (simp_all add: i4_def i3_def i2_def i1_def va_index_less)
  note s4 = step [of "[]", OF pt_treeD(2) [OF tree] _ lt(1)]
  define t3 where "t3 = ?h + pte_address (ent ?m pml4 i4)"
  note s3 = step [of "[i4]" t3 i3]
  define t2 where "t2 = ?h + pte_address (ent ?m t3 i3)"
  note s2 = step [of "[i4, i3]" t2 i2]
  show ?thesis
    unfolding hw_walk_def va_path_def Let_def i4_def [symmetric] i3_def [symmetric] i2_def [symmetric] i1_def [symmetric] root
    using s4 s3 s2 lt pt_treeD(2) [OF tree]
    by (auto simp: Let_def level_bits_def t3_def [symmetric] t2_def [symmetric])
qed

section \<open>Changing one entry\<close>

lemma tbl_prefix:
  assumes tree: "pt_tree M own fl tbl pml4 s" and "tbl q \<noteq> None" and "prefix p q"
  shows "tbl p \<noteq> None"
proof -
  obtain r where "q = p @ r" using assms(3) by (auto simp: prefix_def)
  moreover have "tbl (p @ r) \<noteq> None \<Longrightarrow> tbl p \<noteq> None"
    using pt_treeD(6) [OF tree] by (induction r rule: rev_induct) (auto simp flip: append_assoc)
  ultimately show ?thesis using assms(2) by blast
qed

text \<open>An entry on the way to a table leads there.\<close>

lemma entry_towards:
  assumes tree: "pt_tree M own fl tbl pml4 s" and p: "tbl p = Some t" and i: "i < 512" and q: "tbl q \<noteq> None" "prefix (p @ [i]) q"
  shows "bit (ent (mem s) t i) 0" "\<not> bit (ent (mem s) t i) 7" "length p < 3"
proof -
  obtain t' where t': "tbl (p @ [i]) = Some t'" using tbl_prefix [OF tree q] by blast
  then show len: "length p < 3" using pt_treeD(3) [OF tree t'] by simp
  show "bit (ent (mem s) t i) 0" "\<not> bit (ent (mem s) t i) 7"
    using pt_treeD(7) [OF tree p i] t' len by (auto simp: entry_ok_def)
qed

lemma prefix_step:
  assumes "length p \<le> length q" and "prefix (q @ [j]) (p @ i # js)" and "(p, i) \<noteq> (q, j)"
  shows "length p < length q \<and> prefix (p @ [i]) q"
proof -
  have "prefix (p @ [i]) (p @ i # js)" by simp
  then have "prefix (p @ [i]) (q @ [j])" by (rule prefix_length_prefix [OF _ assms(2)]) (use assms(1) in simp)
  then have "prefix (p @ [i]) q" using assms(3) by (auto simp: prefix_snoc)
  then show ?thesis using prefix_length_le by fastforce
qed

text \<open>Replacing an entry that does not lead to a table changes exactly the walks through it.\<close>

lemma tree_walk_update:
  assumes tree: "pt_tree M own fl tbl pml4 s" and p0: "tbl p0 = Some t0" "i0 < 512" "tbl (p0 @ [i0]) = None"
    and same: "\<And>p t i. tbl p = Some t \<Longrightarrow> i < 512 \<Longrightarrow> (p, i) \<noteq> (p0, i0) \<Longrightarrow> ent m t i = ent (mem s) t i"
    and e: "ent m t0 i0 = e" "length p0 < 3 \<Longrightarrow> bit e 0 \<Longrightarrow> bit e 7 \<and> p0 \<noteq> []"
    and p: "tbl p \<noteq> None" "length p + length js = 4" "\<forall>i \<in> set js. i < 512"
  shows "tree_walk tbl m p js =
    (if length p \<le> length p0 \<and> prefix (p0 @ [i0]) (p @ js) then if bit e 0 then Some (p0, e) else None
     else tree_walk tbl (mem s) p js)"
  using p
proof (induction js arbitrary: p)
  case Nil
  have "length p0 \<le> 3" "length p \<le> 3" using pt_treeD(3) [OF tree] p0(1) Nil.prems(1) by auto
  then show ?case using Nil.prems(2) by simp
next
  case (Cons i js)
  obtain t where t: "tbl p = Some t" using Cons.prems(1) by blast
  have i: "i < 512" using Cons.prems(3) by simp
  have len: "js = [] \<longleftrightarrow> length p = 3" using Cons.prems(2) by (cases js) auto
  show ?case
  proof (cases "(p, i) = (p0, i0)")
    case True
    moreover have "length p0 < 3 \<or> js = []" using True len pt_treeD(3) [OF tree p0(1)] by auto
    ultimately show ?thesis using t p0(1) e by (auto simp: Let_def)
  next
    case False
    have eq: "ent m t i = ent (mem s) t i" by (rule same [OF t i False])
    note through = prefix_step [OF _ _ False, of js]
    have leads: "bit (ent (mem s) t i) 0 \<and> \<not> bit (ent (mem s) t i) 7 \<and> js \<noteq> []"
      if "length p \<le> length p0" "prefix (p0 @ [i0]) (p @ i # js)"
      using entry_towards [OF tree t i, of p0] through [OF that] p0(1) len by auto
    show ?thesis
    proof (cases "bit (ent (mem s) t i) 0 \<and> \<not> (js = [] \<or> bit (ent (mem s) t i) 7 \<and> p \<noteq> [])")
      case True
      then have child: "tbl (p @ [i]) \<noteq> None"
        using entry_ok_table(1) [OF pt_treeD(7) [OF tree t i]] len pt_treeD(3) [OF tree t] by auto
      have "tree_walk tbl m p (i # js) = tree_walk tbl m (p @ [i]) js" "tree_walk tbl (mem s) p (i # js) = tree_walk tbl (mem s) (p @ [i]) js"
        using True t eq by (auto simp: Let_def)
      moreover have "length (p @ [i]) \<le> length p0 \<and> prefix (p0 @ [i0]) ((p @ [i]) @ js) \<longleftrightarrow>
          length p \<le> length p0 \<and> prefix (p0 @ [i0]) (p @ i # js)"
        using through by auto
      ultimately show ?thesis using Cons.IH [OF child] Cons.prems(2,3) by simp
    next
      case False
      then have "\<not> (length p \<le> length p0 \<and> prefix (p0 @ [i0]) (p @ i # js))" using leads by blast
      moreover have "tree_walk tbl m p (i # js) = tree_walk tbl (mem s) p (i # js)" using False t eq by (auto simp: Let_def)
      ultimately show ?thesis by auto
    qed
  qed
qed

text \<open>Hanging an empty table under a zero entry changes no walk.\<close>

lemma tree_walk_add:
  assumes tree: "pt_tree M own fl tbl pml4 s" and p0: "tbl p0 = Some t0" "i0 < 512" "ent (mem s) t0 i0 = 0" "length p0 < 3"
    and same: "\<And>p t i. tbl p = Some t \<Longrightarrow> i < 512 \<Longrightarrow> (p, i) \<noteq> (p0, i0) \<Longrightarrow> ent m t i = ent (mem s) t i"
    and e: "\<not> bit (ent m t0 i0) 7" and new: "\<And>i. i < 512 \<Longrightarrow> ent m t1 i = 0" and fresh: "tbl (p0 @ [i0]) = None"
    and p: "tbl p \<noteq> None" "length p + length js = 4" "\<forall>i \<in> set js. i < 512"
  shows "tree_walk (tbl(p0 @ [i0] \<mapsto> t1)) m p js = tree_walk tbl (mem s) p js"
  using p
proof (induction js arbitrary: p)
  case (Cons i js)
  obtain t where t: "tbl p = Some t" using Cons.prems(1) by blast
  have i: "i < 512" using Cons.prems(3) by simp
  have len: "js = [] \<longleftrightarrow> length p = 3" using Cons.prems(2) by (cases js) auto
  have t': "(tbl(p0 @ [i0] \<mapsto> t1)) p = Some t" using t fresh by auto
  show ?case
  proof (cases "(p, i) = (p0, i0)")
    case True
    then obtain j ks where js: "js = j # ks" using len p0(4) by (cases js) auto
    then have "ent m t1 j = 0" using new Cons.prems(3) by simp
    then show ?thesis using True t t' p0(1,3) e js by (auto simp: Let_def)
  next
    case False
    have eq: "ent m t i = ent (mem s) t i" by (rule same [OF t i False])
    show ?thesis
    proof (cases "bit (ent (mem s) t i) 0 \<and> \<not> (js = [] \<or> bit (ent (mem s) t i) 7 \<and> p \<noteq> [])")
      case True
      then have "tbl (p @ [i]) \<noteq> None"
        using entry_ok_table(1) [OF pt_treeD(7) [OF tree t i]] len pt_treeD(3) [OF tree t] by auto
      from Cons.IH [OF this] show ?thesis
        using True t t' eq Cons.prems(2,3) by (auto simp: Let_def simp del: fun_upd_apply)
    next
      case not_through: False
      then show ?thesis using t t' eq by (auto simp: Let_def simp del: fun_upd_apply)
    qed
  qed
qed simp

lemma ent_store:
  assumes tree: "pt_tree M own fl tbl pml4 s" and p: "tbl p = Some t" "i < 512" and q: "tbl q = Some u" "j < 512"
  shows "ent (store64 m (entry_at t (of_nat i)) v) u j = (if (q, j) = (p, i) then v else ent m u j)"
proof -
  note inv = pt_treeD(1) [OF tree]
  obtain k where k: "4096 \<le> k" "(t, k) \<in> live own fl s" using pt_treeD(4) [OF tree p(1)] by blast
  obtain l where l: "4096 \<le> l" "(u, l) \<in> live own fl s" using pt_treeD(4) [OF tree q(1)] by blast
  have "span (entry_at t (of_nat i)) 8 \<inter> span (entry_at u (of_nat j)) 8 = {}" if ne: "(q, j) \<noteq> (p, i)"
  proof (cases "q = p")
    case True
    then have ut: "u = t" and ij: "i \<noteq> j" using p(1) q(1) ne by auto
    obtain n where "8 dvd unat t" "unat t + k \<le> 2 ^ 64" using big_block [OF inv k(2,1)] by metis
    then show ?thesis unfolding ut using p(2) q(2) ij k(1) by (intro entry_disjoint) simp_all
  next
    case False
    then have "t \<noteq> u" using pt_treeD(5) [OF tree p(1)] q(1) by auto
    then have "span t k \<inter> span u l = {}" by (intro live_disjoint [OF inv k(2) l(2)]) simp
    then show ?thesis
      using entry_span [OF p(2) k(1) live_length(2) [OF inv k(2)], of t]
        entry_span [OF q(2) l(1) live_length(2) [OF inv l(2)], of u] by blast
  qed
  moreover have "u = t" if "(q, j) = (p, i)" using that p q by simp
  ultimately show ?thesis by (auto simp: ent_def load64_store64_disjoint)
qed

text \<open>A store into an entry keeps the heap well formed.\<close>

lemma entry_store_live:
  assumes tree: "pt_tree M own fl tbl pml4 s" and p: "tbl p = Some t" "i < 512"
  shows "heap_inv M own fl (s\<lparr>mem := store64 (mem s) (entry_at t (of_nat i)) v\<rparr>)"
    "live own fl (s\<lparr>mem := store64 (mem s) (entry_at t (of_nat i)) v\<rparr>) = live own fl s"
    "\<And>x l. (x, l) \<in> live own fl s \<Longrightarrow> x \<noteq> t \<Longrightarrow> b \<in> span x l \<Longrightarrow> store64 (mem s) (entry_at t (of_nat i)) v b = mem s b"
proof -
  note inv = pt_treeD(1) [OF tree]
  obtain k where k: "4096 \<le> k" "(t, k) \<in> live own fl s" using pt_treeD(4) [OF tree p(1)] by blast
  note sub = entry_span [OF p(2) k(1) live_length(2) [OF inv k(2)], of t]
  have out: "store64 (mem s) (entry_at t (of_nat i)) v a = mem s a" if "a \<notin> span t k" for a
    using that sub by (intro store64_outside) blast
  note w = live_write [OF inv k(2), where m = "store64 (mem s) (entry_at t (of_nat i)) v", OF out]
  show "heap_inv M own fl (s\<lparr>mem := store64 (mem s) (entry_at t (of_nat i)) v\<rparr>)"
    "live own fl (s\<lparr>mem := store64 (mem s) (entry_at t (of_nat i)) v\<rparr>) = live own fl s" using w by blast+
  show "store64 (mem s) (entry_at t (of_nat i)) v b = mem s b" if "(x, l) \<in> live own fl s" "x \<noteq> t" "b \<in> span x l" for x l
    using keepsD [OF w(3), of x l b] that by simp
qed

lemma entry_ok_cong:
  assumes "ent (mem s') t i = ent (mem s) t i" and "hhdm_offset s' = hhdm_offset s" and "tbl' (p @ [i]) = tbl (p @ [i])"
  shows "entry_ok tbl' s' p t i = entry_ok tbl s p t i"
  unfolding entry_ok_def assms ..

lemma pt_tree_update:
  assumes tree: "pt_tree M own fl tbl pml4 s" and p: "tbl p = Some t" "i < 512" "tbl (p @ [i]) = None"
    and e: "e = 0 \<or> bit e 0" "length p < 3 \<Longrightarrow> bit e 0 \<Longrightarrow> bit e 7 \<and> p \<noteq> []"
  shows "pt_tree M own fl tbl pml4 (s\<lparr>mem := store64 (mem s) (entry_at t (of_nat i)) e\<rparr>)" (is "pt_tree _ _ _ _ _ ?s")
proof -
  note w = entry_store_live [OF tree p(1,2), where v = e]
  have "entry_ok tbl ?s q u j" if "tbl q = Some u" "j < 512" for q u j
  proof (cases "(q, j) = (p, i)")
    case True
    then have "ent (mem ?s) u j = e" using ent_store [OF tree p(1,2) that] by simp
    moreover have "length p = 3 \<or> length p < 3" using pt_treeD(3) [OF tree p(1)] by auto
    ultimately show ?thesis using True p(3) e by (auto simp: entry_ok_def)
  next
    case False
    then have "ent (mem ?s) u j = ent (mem s) u j" using ent_store [OF tree p(1,2) that] by auto
    then have "entry_ok tbl ?s q u j = entry_ok tbl s q u j" by (intro entry_ok_cong) simp_all
    then show ?thesis using pt_treeD(7) [OF tree that] by simp
  qed
  then show ?thesis using w(1) pt_treeD(2-6) [OF tree] unfolding pt_tree_def w(2) by blast
qed

section \<open>New tables\<close>

lemma ent_zero:
  assumes "\<forall>b \<in> span t k. m b = 0" and "4096 \<le> k" and "k \<le> 2 ^ 64" and "i < 512"
  shows "ent m t i = 0" "store64 m (entry_at t (of_nat i)) 0 = m"
proof -
  have z: "m b = 0" if "b \<in> span (entry_at t (of_nat i)) 8" for b using that assms(1) entry_span [OF assms(4,2,3), of t] by blast
  then show "store64 m (entry_at t (of_nat i)) 0 = m"
    by (intro ext) (simp add: store64_def store_le_def)
  then have "load64 m (entry_at t (of_nat i)) = 0" by (metis load64_store64_same)
  then show "ent m t i = 0" by (simp add: ent_def)
qed

lemma new_page_table_malloc:
  assumes inv: "heap_inv M own fl s"
  shows "new_page_table s = malloc 0x1000 s"
proof (cases "malloc 0x1000 s")
  case (Inr r)
  obtain t s' where r: "r = (t, s')" by (cases r)
  from inv _ Inr [unfolded r] obtain own' fl' k where b: "heap_inv M own' fl' s'" "unat (0x1000 :: u64) \<le> k"
    "live own' fl' s' = insert (t, k) (live own fl s)" "\<forall>b \<in> span t k. mem s' b = 0"
    by (rule malloc_block) simp
  have "k \<le> 2 ^ 64" using live_length(2) [OF b(1)] b(3) by blast
  then have "store64 (mem s') (entry_at t (of_nat i)) 0 = mem s'" if "i < 512" for i
    using ent_zero(2) [OF b(4) _ _ that] b(2) by simp
  then have "fold (\<lambda>i m. store64 m (entry_at t (of_nat i)) 0) js (mem s') = mem s'" if "\<forall>i \<in> set js. i < 512" for js
    using that by (induction js) simp_all
  then show ?thesis using Inr r by (simp add: new_page_table_def)
qed (simp add: new_page_table_def)

text \<open>The entry \<^verbatim>\<open>get_next_lvl\<close> writes for a new table.\<close>

definition link_entry :: "u64 \<Rightarrow> u64 \<Rightarrow> u64" where
  "link_entry v pa = pte_set_flags (pte_set_address v pa) (present OR pte_write OR user_super) True"

lemma link_entry_bits:
  assumes "pa AND pa_mask = pa"
  shows "pte_address (link_entry 0 pa) = pa" "bit (link_entry 0 pa) 0" "bit (link_entry 0 pa) 1" "bit (link_entry 0 pa) 2" "\<not> bit (link_entry 0 pa) 7"
proof -
  have f: "bit (present OR pte_write OR user_super) n \<longleftrightarrow> n \<in> {0, 1, 2}" for n by (auto simp: bit_or_iff flag_bits)
  have lo: "\<not> bit pa n" if "n < 12" for n using assms that by (metis bit_and_iff not_less pa_mask_bits)
  note e = entry_bits [OF assms, where v = 0 and f = "present OR pte_write OR user_super", folded link_entry_def]
  show "pte_address (link_entry 0 pa) = pa" "bit (link_entry 0 pa) 0" "bit (link_entry 0 pa) 1" "bit (link_entry 0 pa) 2" "\<not> bit (link_entry 0 pa) 7"
    using e lo [of 7] by (simp_all add: f)
qed

text \<open>What an operation on the tables promises: the fields of other layers stay, no block of the heap
  is lost, and blocks that are not tables keep their contents.\<close>

definition tables_only ::
  "tables \<Rightarrow> (u64 \<times> nat) set \<Rightarrow> (u64 \<times> nat) set \<Rightarrow> 'a heap_scheme \<Rightarrow> 'a heap_scheme \<Rightarrow> bool" where
  "tables_only tbl B B' s s' \<longleftrightarrow> fixed_part s' = fixed_part s \<and> B \<subseteq> B'
     \<and> (\<forall>x k b. (x, k) \<in> B \<longrightarrow> x \<notin> ran tbl \<longrightarrow> b \<in> span x k \<longrightarrow> mem s' b = mem s b)"

lemma tables_only_trans:
  assumes "tables_only tbl B B' s s'" and "tables_only tbl' B' B'' s' s''" and "\<And>t. t \<in> ran tbl' \<Longrightarrow> t \<in> ran tbl \<or> (\<forall>k. (t, k) \<notin> B)"
  shows "tables_only tbl B B'' s s''"
proof -
  have "mem s'' b = mem s b" if x: "(x, k) \<in> B" "x \<notin> ran tbl" "b \<in> span x k" for x k b
  proof -
    have "(x, k) \<in> B'" "x \<notin> ran tbl'" using assms(1) x(1,2) assms(3) [of x] unfolding tables_only_def by blast+
    then have "mem s'' b = mem s' b" using assms(2) x(3) unfolding tables_only_def by blast
    then show ?thesis using assms(1) x unfolding tables_only_def by metis
  qed
  then show ?thesis using assms(1,2) unfolding tables_only_def by auto
qed

lemma tables_only_refl [simp]: "tables_only tbl B B s s"
  by (simp add: tables_only_def)

lemma table_live:
  assumes tree: "pt_tree M own fl tbl pml4 s" and "tbl p = Some t"
  obtains k where "4096 \<le> k" "(t, k) \<in> live own fl s" "k \<le> 2 ^ 64" "t \<noteq> 0"
proof -
  obtain k where k: "4096 \<le> k" "(t, k) \<in> live own fl s" using pt_treeD(4) [OF tree assms(2)] by blast
  show ?thesis using that [OF k live_length(2) [OF pt_treeD(1) [OF tree] k(2)] table_root(4) [OF pt_treeD(1) [OF tree] k(2,1)]] .
qed

text \<open>Whatever keeps the contents of all blocks and loses none leaves the tree as it is.\<close>

lemma pt_tree_keeps:
  assumes tree: "pt_tree M own fl tbl pml4 s" and inv: "heap_inv M own' fl' s'" and sub: "live own fl s \<subseteq> live own' fl' s'"
    and keep: "keeps (live own fl s) s s'" and h: "hhdm_offset s' = hhdm_offset s"
  shows "pt_tree M own' fl' tbl pml4 s'" "\<And>q u j. tbl q = Some u \<Longrightarrow> j < 512 \<Longrightarrow> ent (mem s') u j = ent (mem s) u j"
proof -
  show old: "ent (mem s') u j = ent (mem s) u j" if q: "tbl q = Some u" and j: "j < 512" for q u j
  proof -
    from tree q obtain l where l: "4096 \<le> l" "(u, l) \<in> live own fl s" "l \<le> 2 ^ 64" by (rule table_live)
    then show ?thesis
      unfolding ent_def using keepsD [OF keep l(2)] entry_span [OF j l(1,3), of u] by (intro load64_cong) blast
  qed
  have "entry_ok tbl s' q u j" if "tbl q = Some u" "j < 512" for q u j
    using pt_treeD(7) [OF tree that] entry_ok_cong [OF old [OF that] h, of tbl q tbl] by simp
  moreover have "\<exists>k \<ge> 4096. (t, k) \<in> live own' fl' s'" if "tbl p = Some t" for p t
    using pt_treeD(4) [OF tree that] sub by blast
  ultimately show "pt_tree M own' fl' tbl pml4 s'"
    using inv pt_treeD(2,3,5,6) [OF tree] unfolding pt_tree_def by blast
qed

text \<open>An allocation does.\<close>

lemma pt_tree_malloc:
  assumes tree: "pt_tree M own fl tbl pml4 s" and run: "malloc 0x1000 s = Inr (r, s1)"
  obtains own' fl' k where "pt_tree M own' fl' tbl pml4 s1" "4096 \<le> k" "live own' fl' s1 = insert (r, k) (live own fl s)"
    "\<forall>l. (r, l) \<notin> live own fl s" "keeps (live own fl s) s s1" "\<forall>b \<in> span r k. mem s1 b = 0" "fixed_part s1 = fixed_part s"
    "\<forall>q u j. tbl q = Some u \<longrightarrow> j < 512 \<longrightarrow> ent (mem s1) u j = ent (mem s) u j"
proof -
  note inv = pt_treeD(1) [OF tree]
  from inv _ run obtain own' fl' k where b: "heap_inv M own' fl' s1" "unat (0x1000 :: u64) \<le> k"
    "(r, k) \<notin> live own fl s" "live own' fl' s1 = insert (r, k) (live own fl s)" "keeps (live own fl s) s s1" "\<forall>b \<in> span r k. mem s1 b = 0"
    by (rule malloc_block) simp
  have fixed: "fixed_part s1 = fixed_part s" by (rule malloc_fixed [OF run])
  have k: "4096 \<le> k" "(r, k) \<in> live own' fl' s1" using b(2,4) by auto
  have fresh: "(r, l) \<notin> live own fl s" for l using live_unique [OF b(1) k(2), of l] b(3,4) by auto
  have "hhdm_offset s1 = hhdm_offset s" "live own fl s \<subseteq> live own' fl' s1" using fixed b(4) by (auto simp: fixed_part_iff)
  note pt_tree_keeps [OF tree b(1) this(2) b(5) this(1)]
  then show ?thesis using that k(1) b(4) fresh b(5,6) fixed by blast
qed

lemma entry_nonzero:
  assumes tree: "pt_tree M own fl tbl pml4 s" and "tbl p = Some t" and "i < 512"
  shows "entry_at t (of_nat i) \<noteq> 0"
proof -
  from tree assms(2) obtain k where k: "4096 \<le> k" "(t, k) \<in> live own fl s" "t \<noteq> 0" by (rule table_live)
  then obtain n where "unat t + k \<le> 2 ^ 64" using big_block [OF pt_treeD(1) [OF tree] k(2,1)] by metis
  then have "unat (entry_at t (of_nat i)) = unat t + 8 * i" using k(1) assms(3) by (intro unat_entry) simp_all
  moreover have "0 < unat t" using k(3) by (simp add: unat_gt_0)
  ultimately show ?thesis by (auto dest: arg_cong [of _ _ unat])
qed

text \<open>Where an operation on the tables writes: in the bitmap of the page manager, in pages that were free, and in tables.
  A set of bytes with room for these keeps it, and memory outside the set stays as it is.\<close>

definition roomy :: "u64 set \<Rightarrow> nat set \<Rightarrow> tables \<Rightarrow> 'a heap_scheme \<Rightarrow> bool" where
  "roomy W M tbl s \<longleftrightarrow> span (bm_buffer (bitmap s)) 256 \<subseteq> W \<and> (\<forall>n \<in> M. page_free s n \<longrightarrow> span (page_addr s n) 4096 \<subseteq> W)
     \<and> (\<forall>t \<in> ran tbl. span t 4096 \<subseteq> W)"

definition confined :: "nat set \<Rightarrow> tables \<Rightarrow> tables \<Rightarrow> 'a heap_scheme \<Rightarrow> 'a heap_scheme \<Rightarrow> bool" where
  "confined M tbl tbl' s s' \<longleftrightarrow> (\<forall>W. roomy W M tbl s \<longrightarrow> roomy W M tbl' s' \<and> (\<forall>b. b \<notin> W \<longrightarrow> mem s' b = mem s b))"

lemma confined_refl [simp]: "confined M tbl tbl s s"
  by (simp add: confined_def)

lemma confined_trans: "confined M tbl tbl' s s' \<Longrightarrow> confined M tbl' tbl'' s' s'' \<Longrightarrow> confined M tbl tbl'' s s''"
  unfolding confined_def by metis

lemma confinedD:
  assumes "confined M tbl tbl' s s'" and "b \<notin> span (bm_buffer (bitmap s)) 256"
    and "\<And>n. n \<in> M \<Longrightarrow> page_free s n \<Longrightarrow> b \<notin> span (page_addr s n) 4096" and "\<And>t. t \<in> ran tbl \<Longrightarrow> b \<notin> span t 4096"
  shows "mem s' b = mem s b"
proof -
  have "roomy (- {b}) M tbl s" using assms(2-4) unfolding roomy_def by blast
  then show ?thesis using assms(1) unfolding confined_def by blast
qed

lemma confined_store:
  assumes tree: "pt_tree M own fl tbl pml4 s" and t: "tbl q = Some t" "i < 512" and ran: "t \<in> ran tbl'"
  shows "confined M tbl' tbl' s (s\<lparr>mem := store64 (mem s) (entry_at t (of_nat i)) e\<rparr>)"
proof -
  let ?s = "s\<lparr>mem := store64 (mem s) (entry_at t (of_nat i)) e\<rparr>"
  from tree t(1) obtain k where k: "4096 \<le> k" "(t, k) \<in> live own fl s" "k \<le> 2 ^ 64" by (rule table_live)
  have e: "span (entry_at t (of_nat i)) 8 \<subseteq> span t 4096" by (rule entry_span) (use t(2) in simp_all)
  have "span t 4096 \<subseteq> span t k" using k(1,3) by (intro span_mono) simp_all
  then have "b \<notin> span t 4096" if "b \<in> span (bm_buffer (bitmap s)) 256" for b
    using live_apart(1) [OF pt_treeD(1) [OF tree] k(2), of b] that by blast
  then have "b \<notin> span (entry_at t (of_nat i)) 8" if "b \<in> span (bm_buffer (bitmap s)) 256" for b using e that by blast
  then have "page_free ?s n = page_free s n" for n
    by (intro page_free_cong) (simp_all add: store64_outside del: in_span)
  moreover have "mem ?s b = mem s b" if "span t 4096 \<subseteq> W" "b \<notin> W" for b W
  proof -
    have "b \<notin> span (entry_at t (of_nat i)) 8" using e that by blast
    then show ?thesis by (simp add: store64_outside del: in_span)
  qed
  moreover have "page_addr ?s n = page_addr s n" for n by (simp add: page_addr_def)
  moreover have "bitmap ?s = bitmap s" by simp
  ultimately show ?thesis using ran unfolding confined_def roomy_def by metis
qed

text \<open>A new table takes two free pages, one for its header.\<close>

lemma malloc_two_pages:
  assumes inv: "heap_inv M own fl s" and run: "malloc 0x1000 s = Inr (r, s1)"
  obtains a where "a \<in> M" "a + 1 \<in> M" "page_free s a" "page_free s (a + 1)" "r = page_addr s (a + 1)" "bitmap s1 = bitmap s"
    "hhdm_offset s1 = hhdm_offset s" "\<And>n. n \<in> M \<Longrightarrow> page_free s1 n \<Longrightarrow> page_free s n"
    "\<And>b. b \<notin> span (page_addr s a) 4096 \<Longrightarrow> b \<notin> span (page_addr s (a + 1)) 4096 \<Longrightarrow> b \<notin> span (bm_buffer (bitmap s)) 256
       \<Longrightarrow> mem s1 b = mem s b"
proof -
  note pmm = heap_envD(1) [OF heap_invD(1) [OF inv]]
  have "get_slab 0x1000 s = 0"
  proof (rule get_slab_spec [OF inv, of "0x1000"])
    fix j assume "j < 10" "(0x1000 :: u64) \<le> slab_sizes ! j"
    then show ?thesis using slab_geometry(5) [OF nth_slab_sizes, of j] by (simp add: word_le_nat_alt)
  qed
  then have big: "big_malloc 0x1000 s = Inr (r, s1)" using run by (simp add: malloc_def)
  have two: "div_roundup 0x1000 0x1000 + 1 = (2 :: u64)" "div_roundup 0x1000 0x1000 = (1 :: u64)" by (simp_all add: div_roundup_def align_up_def align_down_def)
  obtain ret s0 where alloc: "alloc 2 s = Inr (ret, s0)" using big unfolding big_malloc_def two by (cases "alloc 2 s") auto
  have "(2 :: u64) \<noteq> 0" by simp
  from pmm this alloc obtain a where a: "ret = of_nat a * page_size" "s0 = take_run a 2 s" "{a..<a + unat (2 :: u64)} \<subseteq> M"
    "a + unat (2 :: u64) \<le> page_limit s" "0 < unat (2 :: u64)" "\<And>i. a \<le> i \<Longrightarrow> i < a + unat (2 :: u64) \<Longrightarrow> page_free s i"
    by (rule alloc_cases) blast
  note eff = take_run_effect [OF pmm a(3-5), folded a(2), folded page_addr_def]
  have M: "a \<in> M" "a + 1 \<in> M" using a(3) by auto
  have ptr: "tohh (hhdm_offset s) ret = page_addr s a" using managed_run(2) [OF pmm a(3)] a(4,5) by (simp add: a(1) page_addr_def)
  have s1: "r = page_addr s a + 0x1000" "s1 = s0\<lparr>mem := store64 (store64 (mem s0) (page_addr s a) 1) (page_addr s a + 8) 0x1000\<rparr>"
    using big alloc ptr unfolding big_malloc_def two by (auto simp: a(2) Let_def)
  show ?thesis
  proof (rule that [OF M])
    show "page_free s a" "page_free s (a + 1)" using a(6) by simp_all
    show "r = page_addr s (a + 1)" by (simp add: s1(1) page_addr_def algebra_simps)
    show "bitmap s1 = bitmap s" "hhdm_offset s1 = hhdm_offset s" by (simp_all add: s1(2) a(2))
    note meta = store_meta(3) [of "page_addr s a" _ "mem s0" 1 "0x1000"]
    have pa: "unat (page_addr s a) + 16 \<le> 2 ^ 64" using managed_page(1) [OF pmm M(1)] by simp
    have sub: "span (page_addr s a) 16 \<subseteq> span (page_addr s a) 4096" by (rule span_mono) simp_all
    have "x \<notin> span (page_addr s a) 16" if "x \<in> span (bm_buffer (bitmap s)) 256" for x
      using that sub pmm_invD(8) [OF pmm M(1), of x] unfolding page_image_addr by blast
    then have same: "page_free s1 n = page_free s0 n" for n
      using meta [OF pa] by (intro page_free_cong) (simp_all add: s1(2) a(2) del: in_span)
    show "page_free s n" if "n \<in> M" "page_free s1 n" for n
    proof -
      have "n < 2048" using that(1) pmm_invD(1,5) [OF pmm] by force
      then show ?thesis using that(2) same eff(1) by simp
    qed
    fix b assume b: "b \<notin> span (page_addr s a) 4096" "b \<notin> span (page_addr s (a + 1)) 4096" "b \<notin> span (bm_buffer (bitmap s)) 256"
    have "b \<notin> span (page_addr s a) (unat (2 :: u64) * 4096)"
    proof
      assume "b \<in> span (page_addr s a) (unat (2 :: u64) * 4096)"
      then obtain n where "a \<le> n" "n < a + 2" "b \<in> span (page_addr s n) 4096"
        using run_images [of b "hhdm_offset s" a "unat (2 :: u64)"] unfolding page_image_addr page_addr_def [symmetric] by auto
      moreover from this have "n = a \<or> n = a + 1" by linarith
      ultimately show False using b(1,2) by blast
    qed
    then have "mem s0 b = mem s b" using eff(3) b(3) by blast
    moreover have "b \<notin> span (page_addr s a) 16" using b(1) sub by blast
    ultimately show "mem s1 b = mem s b" using meta [OF pa] by (simp add: s1(2) del: in_span)
  qed
qed

lemma confined_malloc:
  assumes inv: "heap_inv M own fl s" and run: "malloc 0x1000 s = Inr (r, s1)"
  shows "confined M tbl (tbl(q \<mapsto> r)) s s1"
proof -
  from inv run obtain a where a: "a \<in> M" "a + 1 \<in> M" "page_free s a" "page_free s (a + 1)" "r = page_addr s (a + 1)"
    "bitmap s1 = bitmap s" "hhdm_offset s1 = hhdm_offset s" "\<And>n. n \<in> M \<Longrightarrow> page_free s1 n \<Longrightarrow> page_free s n"
    "\<And>b. b \<notin> span (page_addr s a) 4096 \<Longrightarrow> b \<notin> span (page_addr s (a + 1)) 4096 \<Longrightarrow> b \<notin> span (bm_buffer (bitmap s)) 256
       \<Longrightarrow> mem s1 b = mem s b" by (rule malloc_two_pages) blast
  have "roomy W M (tbl(q \<mapsto> r)) s1 \<and> (\<forall>b. b \<notin> W \<longrightarrow> mem s1 b = mem s b)" if W: "roomy W M tbl s" for W
  proof -
    have new: "span (page_addr s a) 4096 \<subseteq> W" "span (page_addr s (a + 1)) 4096 \<subseteq> W" "span (bm_buffer (bitmap s)) 256 \<subseteq> W"
      using W a(1-4) unfolding roomy_def by blast+
    have "page_addr s1 n = page_addr s n" for n by (simp add: page_addr_def a(7))
    moreover have "t \<in> ran tbl" if "t \<in> ran (tbl(q \<mapsto> r))" "t \<noteq> r" for t using that by (auto simp: ran_def split: if_splits)
    ultimately have "roomy W M (tbl(q \<mapsto> r)) s1" using W a(5,6,8) new unfolding roomy_def by metis
    moreover have "mem s1 b = mem s b" if "b \<notin> W" for b using that new a(9) by blast
    ultimately show ?thesis by blast
  qed
  then show ?thesis unfolding confined_def by blast
qed

text \<open>Linking a cleared table into a free entry keeps every entry well formed.\<close>

lemma entry_ok_add:
  assumes tree: "pt_tree M own fl tbl pml4 s" and p: "tbl p = Some t" "length p < 3" and none: "tbl (p @ [i]) = None"
    and h: "hhdm_offset s' = hhdm_offset s"
    and link: "hhdm_offset s + pte_address e = r" "bit e 0" "\<not> bit e 7"
    and e1: "\<And>q u j. tbl q = Some u \<Longrightarrow> j < 512 \<Longrightarrow> ent (mem s') u j = (if (q, j) = (p, i) then e else ent (mem s) u j)"
    and zero: "\<And>j. j < 512 \<Longrightarrow> ent (mem s') r j = 0"
    and q: "(tbl(p @ [i] \<mapsto> r)) q = Some u" and j: "j < 512"
  shows "entry_ok (tbl(p @ [i] \<mapsto> r)) s' q u j"
proof (cases "q = p @ [i]")
  case True
  have "tbl (q @ [j]) = None" using pt_treeD(6) [OF tree, of q j] none unfolding True by blast
  then show ?thesis using True q zero [OF j] by (simp add: entry_ok_def)
next
  case False
  then have q: "tbl q = Some u" using q by simp
  show ?thesis
  proof (cases "(q, j) = (p, i)")
    case True
    then show ?thesis using e1 [OF q j] link p h by (simp add: entry_ok_def)
  next
    case False
    then have "entry_ok (tbl(p @ [i] \<mapsto> r)) s' q u j = entry_ok tbl s q u j"
      using e1 [OF q j] h by (intro entry_ok_cong) auto
    then show ?thesis using pt_treeD(7) [OF tree q j] by simp
  qed
qed

lemma pt_tree_add:
  assumes tree: "pt_tree M own fl tbl pml4 s" and p: "tbl p = Some t" "i < 512" "length p < 3" "ent (mem s) t i = 0"
    and run: "malloc 0x1000 s = Inr (r, s1)"
  defines "e \<equiv> link_entry 0 (fromhh (hhdm_offset s) r)"
  defines "s' \<equiv> s1\<lparr>mem := store64 (mem s1) (entry_at t (of_nat i)) e\<rparr>"
  shows "\<exists>own' fl'. pt_tree M own' fl' (tbl(p @ [i] \<mapsto> r)) pml4 s' \<and> tables_only tbl (live own fl s) (live own' fl' s') s s'
    \<and> ent (mem s1) t i = 0 \<and> r \<noteq> 0 \<and> (\<forall>k. (r, k) \<notin> live own fl s)
    \<and> (\<forall>va. tree_walk (tbl(p @ [i] \<mapsto> r)) (mem s') [] (va_path va) = tree_walk tbl (mem s) [] (va_path va))"
proof -
  from tree run obtain own' fl' k where tree1: "pt_tree M own' fl' tbl pml4 s1"
    and b: "4096 \<le> k" "live own' fl' s1 = insert (r, k) (live own fl s)" "\<forall>l. (r, l) \<notin> live own fl s"
      "keeps (live own fl s) s s1" "\<forall>b \<in> span r k. mem s1 b = 0"
    and fixed: "fixed_part s1 = fixed_part s"
    and old: "\<forall>q u j. tbl q = Some u \<longrightarrow> j < 512 \<longrightarrow> ent (mem s1) u j = ent (mem s) u j"
    by (rule pt_tree_malloc)
  have h: "hhdm_offset s1 = hhdm_offset s" using fixed by (simp add: fixed_part_iff)
  note inv1 = pt_treeD(1) [OF tree1]
  have rl: "(r, k) \<in> live own' fl' s1" using b(2) by blast
  note root = table_root [OF inv1 rl b(1), unfolded h]
  note bits = link_entry_bits [OF root(3), folded e_def]
  let ?tbl = "tbl(p @ [i] \<mapsto> r)"
  have none: "tbl (p @ [i]) = None"
    using pt_treeD(7) [OF tree p(1,2)] p(3,4) by (auto simp: entry_ok_def split: option.splits)
  have rt: "tbl q \<noteq> Some r" for q using pt_treeD(4) [OF tree, of q r] b(3) by blast
  note w = entry_store_live [OF tree1 p(1,2), where v = e, folded s'_def]
  have e1: "ent (mem s') u j = (if (q, j) = (p, i) then e else ent (mem s) u j)" if "tbl q = Some u" "j < 512" for q u j
    unfolding s'_def using ent_store [OF tree1 p(1,2) that, of "mem s1" e] old that by simp
  have zero: "ent (mem s') r j = 0" if "j < 512" for j
  proof -
    have "mem s' b = mem s1 b" if "b \<in> span r k" for b
      using w(3) [OF rl _ that] rt [of p] p(1) by (auto simp: s'_def)
    then have "\<forall>b \<in> span r k. mem s' b = 0" using b(5) by simp
    then show ?thesis using ent_zero(1) [OF _ b(1) live_length(2) [OF inv1 rl] that] by blast
  qed
  have hs: "hhdm_offset s' = hhdm_offset s" using h by (simp add: s'_def)
  have "hhdm_offset s + pte_address e = r" using root(1,3) bits(1) by simp
  note entries = entry_ok_add [OF tree p(1,3) none hs this bits(2,5) e1 zero]
  have "entry_ok ?tbl s' q u j" if "?tbl q = Some u" "j < 512" for q u j
    using entries that by blast
  moreover have "length q \<le> 3 \<and> (\<exists>l \<ge> 4096. (u, l) \<in> live own' fl' s')" if "?tbl q = Some u" for q u
    using that pt_treeD(3,4) [OF tree1, of q u] p(3) rl b(1) unfolding w(2) by (cases "q = p @ [i]") auto
  moreover have "q = q'" if "?tbl q = Some u" "?tbl q' = Some u" for q q' u
    using that rt pt_treeD(5) [OF tree, of q u q'] by (auto split: if_splits)
  moreover have "?tbl q \<noteq> None" if "?tbl (q @ [j]) \<noteq> None" for q j
    using that p(1) pt_treeD(6) [OF tree, of q j] by (auto split: if_splits)
  moreover have "?tbl [] = Some pml4" using pt_treeD(2) [OF tree] by simp
  ultimately have new: "pt_tree M own' fl' ?tbl pml4 s'"
    using w(1) unfolding pt_tree_def by blast
  have walk: "tree_walk ?tbl (mem s') [] (va_path va) = tree_walk tbl (mem s) [] (va_path va)" for va
    using e1 [OF p(1,2)] e1 zero bits(5) none va_path_simps [of va] pt_treeD(2) [OF tree] by (intro tree_walk_add [OF tree p(1,2,4,3)]) auto
  have "mem s' y = mem s y" if x: "(x, l) \<in> live own fl s" "x \<notin> ran tbl" "y \<in> span x l" for x l y
  proof -
    have "x \<noteq> t" using x(2) p(1) by (auto simp: ran_def)
    then have "mem s' y = mem s1 y" using w(3) [of x l y] x b(2) by (simp add: s'_def)
    then show ?thesis using keepsD [OF b(4) x(1,3)] by simp
  qed
  then have "tables_only tbl (live own fl s) (live own' fl' s') s s'"
    using fixed b(2) unfolding tables_only_def w(2) by (auto simp: s'_def)
  then show ?thesis using new walk root(4) b(3) old p(1,2,4) by (intro exI [of _ own'] exI [of _ fl']) simp
qed

section \<open>Walking down\<close>

lemma next_present:
  assumes tree: "pt_tree M own fl tbl pml4 s" and p: "tbl p = Some t" "i < 512" "length p < 3" "tbl (p @ [i]) = Some r"
  shows "get_next_lvl t (of_nat i) allocate s = Inr (r, s)"
proof -
  have e: "bit (ent (mem s) t i) 0" "hhdm_offset s + pte_address (ent (mem s) t i) = r"
    using pt_treeD(7) [OF tree p(1,2)] p(3,4) by (simp_all add: entry_ok_def)
  from tree p(4) obtain k where k: "4096 \<le> k" "(r, k) \<in> live own fl s" by (rule table_live)
  from tree p(1) obtain l where t: "t \<noteq> 0" by (rule table_live)
  obtain n where n: "r = hhdm_offset s + of_nat n * page_size" "of_nat n * page_size < hhdm_offset s"
    using big_block [OF pt_treeD(1) [OF tree] k(2,1)] by metis
  then have "pte_address (ent (mem s) t i) = of_nat n * page_size" using e(2) by simp
  then have "tohh (hhdm_offset s) (pte_address (ent (mem s) t i)) = r" using n by (simp add: tohh_phys)
  then show ?thesis using t e(1) by (simp add: get_next_lvl_def has_present ent_def)
qed

lemma next_zero:
  assumes "ent (mem s) t i = 0"
  shows "get_next_lvl t (of_nat i) False s = Inr (0, s)"
  using assms by (simp add: get_next_lvl_def has_present ent_def)

lemma next_new:
  assumes tree: "pt_tree M own fl tbl pml4 s" and p: "tbl p = Some t" "i < 512" "length p < 3" "ent (mem s) t i = 0"
    and run: "get_next_lvl t (of_nat i) True s = Inr (r, s')"
  obtains own' fl' where "pt_tree M own' fl' (tbl(p @ [i] \<mapsto> r)) pml4 s'" "tables_only tbl (live own fl s) (live own' fl' s') s s'"
    "\<forall>k. (r, k) \<notin> live own fl s" "r \<noteq> 0"
    "\<forall>va. tree_walk (tbl(p @ [i] \<mapsto> r)) (mem s') [] (va_path va) = tree_walk tbl (mem s) [] (va_path va)"
    "confined M tbl (tbl(p @ [i] \<mapsto> r)) s s'"
proof -
  from tree p(1) obtain l where t: "t \<noteq> 0" by (rule table_live)
  obtain s1 where s1: "malloc 0x1000 s = Inr (r, s1)"
    "s' = s1\<lparr>mem := store64 (mem s1) (entry_at t (of_nat i)) (link_entry (ent (mem s1) t i) (fromhh (hhdm_offset s1) r))\<rparr>"
    using run t p(4) new_page_table_malloc [OF pt_treeD(1) [OF tree]]
    by (auto simp: get_next_lvl_def has_present ent_def bind_run_Inr Let_def link_entry_def)
  have h: "hhdm_offset s1 = hhdm_offset s" using malloc_fixed [OF s1(1)] by (simp add: fixed_part_iff)
  from tree s1(1) obtain own1 fl1 where tree1: "pt_tree M own1 fl1 tbl pml4 s1" by (rule pt_tree_malloc)
  have "t \<in> ran (tbl(p @ [i] \<mapsto> r))" using p(1) by (intro ranI [of _ p]) simp
  then have "confined M (tbl(p @ [i] \<mapsto> r)) (tbl(p @ [i] \<mapsto> r)) s1 s'" unfolding s1(2) by (rule confined_store [OF tree1 p(1,2)])
  note c = confined_trans [OF confined_malloc [OF pt_treeD(1) [OF tree] s1(1)] this]
  from pt_tree_add [OF tree p s1(1)] obtain own' fl' where
    r: "pt_tree M own' fl' (tbl(p @ [i] \<mapsto> r)) pml4 s'" "tables_only tbl (live own fl s) (live own' fl' s') s s'"
      "\<forall>k. (r, k) \<notin> live own fl s" "r \<noteq> 0"
      "\<forall>va. tree_walk (tbl(p @ [i] \<mapsto> r)) (mem s') [] (va_path va) = tree_walk tbl (mem s) [] (va_path va)"
    unfolding s1(2) h by (auto simp del: fun_upd_apply)
  then show ?thesis using c by (rule that)
qed

text \<open>A walk passes through every table on its path.\<close>

lemma tree_walk_skip:
  assumes tree: "pt_tree M own fl tbl pml4 s" and "tbl q \<noteq> None" and "length q + length js = 4" and "\<forall>i \<in> set q. i < 512"
  shows "tree_walk tbl (mem s) [] (q @ js) = tree_walk tbl (mem s) q js"
  using assms(2-4)
proof (induction q arbitrary: js rule: rev_induct)
  case (snoc i q)
  obtain t where t: "tbl q = Some t" using pt_treeD(6) [OF tree snoc.prems(1)] by blast
  have i: "i < 512" using snoc.prems(3) by simp
  note e = entry_towards [OF tree t i snoc.prems(1)]
  have "js \<noteq> []" using e(3) snoc.prems(2) by auto
  then have "tree_walk tbl (mem s) q (i # js) = tree_walk tbl (mem s) (q @ [i]) js" using t e(1,2) by (simp add: Let_def)
  moreover have "tree_walk tbl (mem s) [] (q @ i # js) = tree_walk tbl (mem s) q (i # js)"
    using snoc.IH [of "i # js"] snoc.prems(2,3) t by simp
  ultimately show ?case by simp
qed simp

text \<open>On a path that ends in a page of a lower level, an entry leads to a table or is zero.\<close>

lemma entry_clear:
  assumes tree: "pt_tree M own fl tbl pml4 s" and p: "tbl p = Some t" "length p < n" and path: "va_path va = p @ i # js"
    and clear: "\<forall>q e. tree_walk tbl (mem s) [] (va_path va) = Some (q, e) \<longrightarrow> n \<le> length q" "n \<le> 3"
  shows "ent (mem s) t i = 0 \<or> tbl (p @ [i]) \<noteq> None"
proof (rule ccontr)
  assume neg: "\<not> ?thesis"
  have all: "\<forall>j \<in> set (p @ i # js). j < 512" "length (p @ i # js) = 4" using va_path_simps [of va] path by simp_all
  then have "bit (ent (mem s) t i) 0" "bit (ent (mem s) t i) 7" "p \<noteq> []"
    using pt_treeD(7) [OF tree p(1), of i] neg p(2) clear(2) by (auto simp: entry_ok_def split: option.splits)
  then have "tree_walk tbl (mem s) [] (va_path va) = Some (p, ent (mem s) t i)"
    using tree_walk_skip [OF tree, of p "i # js"] all p(1) unfolding path by (simp add: Let_def)
  then show False using clear(1) p(2) by auto
qed

fun descend :: "u64 \<Rightarrow> nat list \<Rightarrow> bool \<Rightarrow> 'a heap_scheme \<Rightarrow> (u64, 'a heap_scheme) run" where
  "descend t [] allocate s = Inr (t, s)"
| "descend t (i # js) allocate s =
     bind_run (get_next_lvl t (of_nat i) allocate s) (\<lambda>t s. if t = 0 then Inr (0, s) else descend t js allocate s)"

definition standard :: "pagemap_t \<Rightarrow> bool" where
  "standard pm \<longleftrightarrow> pm_llpage_size pm = GiB1 \<and> pm_lpage_size pm = MiB2 \<and> pm_page_size pm = KiB4"

text \<open>The length of the path to the table with the entry of a page.\<close>

definition size_level :: "u64 \<Rightarrow> nat" where
  "size_level psize = (if psize = GiB1 then 1 else if psize = MiB2 then 2 else 3)"

lemma size_level_simps [simp]: "size_level KiB4 = 3" "size_level MiB2 = 2" "size_level GiB1 = 1"
  by (simp_all add: size_level_def KiB4_def MiB2_def GiB1_def)

lemma virtual_to_pt_entry_descend:
  assumes "top_level pm \<noteq> 0" and "standard pm"
  shows "virtual_to_pt_entry pm va allocate psize s =
    (let n = size_level psize
     in bind_run (descend (top_level pm) (take n (va_path va)) allocate s) (\<lambda>t s.
          if t = 0 then Inr (0, s) else Inr (entry_at t (of_nat (va_path va ! n)), s)))"
  using assms
  by (auto simp: virtual_to_pt_entry_def standard_def size_level_def va_path_def level_index Let_def bind_run_def split: sum.split)

text \<open>What growing the tree along a path of length \<open>n\<close> promises.\<close>

definition grown ::
  "nat set \<Rightarrow> nat \<Rightarrow> tables \<Rightarrow> tables \<Rightarrow> (u64 \<times> nat) set \<Rightarrow> (u64 \<times> nat) set \<Rightarrow> 'a heap_scheme \<Rightarrow> 'a heap_scheme \<Rightarrow> bool" where
  "grown M n tbl tbl' B B' s s' \<longleftrightarrow> tables_only tbl B B' s s' \<and> (\<forall>t \<in> ran tbl'. t \<in> ran tbl \<or> (\<forall>k. (t, k) \<notin> B))
     \<and> confined M tbl tbl' s s' \<and> tbl \<subseteq>\<^sub>m tbl' \<and> (\<forall>q. n < length q \<longrightarrow> tbl' q = tbl q)
     \<and> (\<forall>va. tree_walk tbl' (mem s') [] (va_path va) = tree_walk tbl (mem s) [] (va_path va))"

lemma grown_refl [simp]: "grown M n tbl tbl B B s s"
  by (simp add: grown_def)

lemma grownD:
  assumes "grown M n tbl tbl' B B' s s'"
  shows "tables_only tbl B B' s s'" "B \<subseteq> B'" "\<And>t. t \<in> ran tbl' \<Longrightarrow> t \<in> ran tbl \<or> (\<forall>k. (t, k) \<notin> B)" "tbl \<subseteq>\<^sub>m tbl'"
    "\<And>q. n < length q \<Longrightarrow> tbl' q = tbl q" "\<And>va. tree_walk tbl' (mem s') [] (va_path va) = tree_walk tbl (mem s) [] (va_path va)"
    "fixed_part s' = fixed_part s" "confined M tbl tbl' s s'"
  using assms unfolding grown_def tables_only_def by blast+

lemma grown_trans:
  assumes 1: "grown M n tbl tbl' B B' s s'" and 2: "grown M n tbl' tbl'' B' B'' s' s''"
  shows "grown M n tbl tbl'' B B'' s s''"
  unfolding grown_def
proof (intro conjI ballI allI impI)
  show "t \<in> ran tbl \<or> (\<forall>k. (t, k) \<notin> B)" if "t \<in> ran tbl''" for t
    using grownD(3) [OF 2 that] grownD(3) [OF 1, of t] grownD(2) [OF 1] by blast
  show "tables_only tbl B B'' s s''"
    by (rule tables_only_trans [OF grownD(1) [OF 1] grownD(1) [OF 2] grownD(3) [OF 1]])
  show "tbl \<subseteq>\<^sub>m tbl''" by (rule map_le_trans [OF grownD(4) [OF 1] grownD(4) [OF 2]])
  show "confined M tbl tbl'' s s''" by (rule confined_trans [OF grownD(8) [OF 1] grownD(8) [OF 2]])
qed (simp_all add: grownD(5,6) [OF 1] grownD(5,6) [OF 2])

lemma descend_alloc:
  assumes "pt_tree M own fl tbl pml4 s" and "tbl p = Some t" and path: "va_path va = p @ js @ ks" and len: "length p + length js = n" "n \<le> 3"
    and "\<forall>q e. tree_walk tbl (mem s) [] (va_path va) = Some (q, e) \<longrightarrow> n \<le> length q" and "descend t js True s = Inr (r, s')"
  shows "\<exists>own' fl' tbl'. pt_tree M own' fl' tbl' pml4 s' \<and> tbl' (p @ js) = Some r
    \<and> grown M n tbl tbl' (live own fl s) (live own' fl' s') s s'"
  using assms
proof (induction js arbitrary: p t tbl own fl s)
  case Nil
  then have "r = t" "s' = s" by simp_all
  then show ?case using Nil.prems(1,2) by (metis append_Nil2 grown_refl)
next
  case (Cons i js)
  note tree = Cons.prems(1)
  have i: "i < 512" "length p < n" "length p < 3" using va_path_simps(2) [of va] Cons.prems(3,4,5) by auto
  have path': "va_path va = (p @ [i]) @ js @ ks" "length (p @ [i]) + length js = n" using Cons.prems(3,4) by simp_all
  have cases: "ent (mem s) t i = 0 \<or> tbl (p @ [i]) \<noteq> None"
    using entry_clear [OF tree Cons.prems(2) i(2) _ Cons.prems(6,5), of i "js @ ks"] Cons.prems(3) by simp
  show ?case
  proof (cases "tbl (p @ [i])")
    case (Some u)
    from tree Some obtain k where u: "u \<noteq> 0" by (rule table_live)
    then have "descend u js True s = Inr (r, s')"
      using Cons.prems(7) next_present [OF tree Cons.prems(2) i(1,3) Some] by simp
    from Cons.IH [OF tree Some path' Cons.prems(5,6) this] show ?thesis by simp
  next
    case None
    then have zero: "ent (mem s) t i = 0" using cases by simp
    obtain u s1 where run: "get_next_lvl t (of_nat i) True s = Inr (u, s1)" "u \<noteq> 0 \<longrightarrow> descend u js True s1 = Inr (r, s')"
      using Cons.prems(7) by (auto simp: bind_run_Inr split: if_splits)
    from tree Cons.prems(2) i(1,3) zero run(1) obtain own1 fl1 where
      1: "pt_tree M own1 fl1 (tbl(p @ [i] \<mapsto> u)) pml4 s1" "tables_only tbl (live own fl s) (live own1 fl1 s1) s s1"
        "\<forall>k. (u, k) \<notin> live own fl s" "u \<noteq> 0"
        "\<forall>va. tree_walk (tbl(p @ [i] \<mapsto> u)) (mem s1) [] (va_path va) = tree_walk tbl (mem s) [] (va_path va)"
        "confined M tbl (tbl(p @ [i] \<mapsto> u)) s s1"
      by (rule next_new)
    have g: "grown M n tbl (tbl(p @ [i] \<mapsto> u)) (live own fl s) (live own1 fl1 s1) s s1"
      using 1 None i(2) unfolding grown_def by (auto simp: map_le_def ran_def split: if_splits)
    have "\<forall>q e. tree_walk (tbl(p @ [i] \<mapsto> u)) (mem s1) [] (va_path va) = Some (q, e) \<longrightarrow> n \<le> length q"
      using Cons.prems(6) 1(5) by simp
    moreover have "(tbl(p @ [i] \<mapsto> u)) (p @ [i]) = Some u" "descend u js True s1 = Inr (r, s')" using run(2) 1(4) by simp_all
    ultimately obtain own' fl' tbl' where
      "pt_tree M own' fl' tbl' pml4 s'" "tbl' ((p @ [i]) @ js) = Some r"
      "grown M n (tbl(p @ [i] \<mapsto> u)) tbl' (live own1 fl1 s1) (live own' fl' s') s1 s'"
      using Cons.IH [OF 1(1) _ path' Cons.prems(5), of u] by blast
    then show ?thesis using grown_trans [OF g] by (metis append.assoc append_Cons append_Nil)
  qed
qed

text \<open>Without allocation the state stays and the table is found if it exists.\<close>

lemma descend_find:
  assumes tree: "pt_tree M own fl tbl pml4 s" and "tbl p = Some t" and "va_path va = p @ js @ ks" and "length p + length js = n" and "n \<le> 3"
    and "\<forall>q e. tree_walk tbl (mem s) [] (va_path va) = Some (q, e) \<longrightarrow> n \<le> length q"
  shows "descend t js False s = Inr (case tbl (p @ js) of None \<Rightarrow> 0 | Some u \<Rightarrow> u, s)"
  using assms(2-6)
proof (induction js arbitrary: p t)
  case (Cons i js)
  have i: "i < 512" "length p < n" "length p < 3" using va_path_simps(2) [of va] Cons.prems(2-4) by auto
  have cases: "ent (mem s) t i = 0 \<or> tbl (p @ [i]) \<noteq> None"
    using entry_clear [OF tree Cons.prems(1) i(2) _ Cons.prems(5,4), of i "js @ ks"] Cons.prems(2) by simp
  show ?case
  proof (cases "tbl (p @ [i])")
    case (Some u)
    from tree Some obtain k where u: "u \<noteq> 0" by (rule table_live)
    show ?thesis
      using Cons.IH [OF Some, of] Cons.prems(2-5) next_present [OF tree Cons.prems(1) i(1,3) Some] u by simp
  next
    case None
    moreover have "prefix (p @ [i]) (p @ i # js)" by simp
    ultimately have "tbl (p @ i # js) = None" using tbl_prefix [OF tree, of "p @ i # js" "p @ [i]"] by blast
    then show ?thesis using next_zero [of s t i] cases None by simp
  qed
qed simp

section \<open>Small pages\<close>

lemma va_path_split: "va_path va = take 3 (va_path va) @ [va_path va ! 3]" "va_path va ! 3 < 512" "length (take 3 (va_path va)) = 3"
    "\<forall>i \<in> set (take 3 (va_path va)). i < 512"
  by (auto simp: va_path_def va_index_less)

definition leaf :: "(nat list \<times> u64) option \<Rightarrow> u64" where
  "leaf w = (case w of None \<Rightarrow> 0 | Some (q, e) \<Rightarrow> e)"

lemma leaf_entry:
  assumes tree: "pt_tree M own fl tbl pml4 s" and t: "tbl (take 3 (va_path va)) = Some t"
  shows "ent (mem s) t (va_path va ! 3) = leaf (tree_walk tbl (mem s) [] (va_path va))"
proof -
  let ?q = "take 3 (va_path va)" and ?i = "va_path va ! 3"
  have "tree_walk tbl (mem s) [] (?q @ [?i]) = tree_walk tbl (mem s) ?q [?i]"
    using tree_walk_skip [OF tree, of ?q "[?i]"] t va_path_split(3,4) [of va] by auto
  then have "tree_walk tbl (mem s) [] (va_path va) = (if bit (ent (mem s) t ?i) 0 then Some (?q, ent (mem s) t ?i) else None)"
    unfolding va_path_split(1) [of va, symmetric] using t by (simp add: Let_def)
  moreover have "ent (mem s) t ?i = 0 \<or> bit (ent (mem s) t ?i) 0"
    using pt_treeD(7) [OF tree t va_path_split(2)] va_path_split(3) [of va] by (simp add: entry_ok_def)
  ultimately show ?thesis by (auto simp: leaf_def)
qed

text \<open>Writing an entry that leads to no table.\<close>

lemma entry_update:
  assumes tree: "pt_tree M own fl tbl pml4 s" and t: "tbl q = Some t" "i < 512" "tbl (q @ [i]) = None"
    and e: "e = 0 \<or> bit e 0" "length q < 3 \<Longrightarrow> bit e 0 \<Longrightarrow> bit e 7 \<and> q \<noteq> []"
  defines "s' \<equiv> s\<lparr>mem := store64 (mem s) (entry_at t (of_nat i)) e\<rparr>"
  shows "pt_tree M own fl tbl pml4 s'" "tables_only tbl (live own fl s) (live own fl s') s s'"
    "tree_walk tbl (mem s') [] (va_path va') =
       (if prefix (q @ [i]) (va_path va') then if bit e 0 then Some (q, e) else None else tree_walk tbl (mem s) [] (va_path va'))"
proof -
  show "pt_tree M own fl tbl pml4 s'" unfolding s'_def by (rule pt_tree_update [OF tree t e])
  note w = entry_store_live [OF tree t(1,2), where v = e, folded s'_def]
  have "mem s' b = mem s b" if "(x, k) \<in> live own fl s" "x \<notin> ran tbl" "b \<in> span x k" for x k b
    using w(3) [of x k b] that t(1) by (auto simp: s'_def ran_def)
  then show "tables_only tbl (live own fl s) (live own fl s') s s'" unfolding tables_only_def w(2) by (simp add: s'_def)
  have "tree_walk tbl (mem s') [] (va_path va') =
      (if length ([] :: nat list) \<le> length q \<and> prefix (q @ [i]) ([] @ va_path va') then if bit e 0 then Some (q, e) else None
       else tree_walk tbl (mem s) [] (va_path va'))"
    using va_path_simps [of va'] pt_treeD(2) [OF tree] e(2) ent_store [OF tree t(1,2), where m = "mem s" and v = e]
      ent_store [OF tree t(1,2) t(1,2), where m = "mem s" and v = e]
    by (intro tree_walk_update [OF tree t]) (auto simp: s'_def)
  then show "tree_walk tbl (mem s') [] (va_path va') =
       (if prefix (q @ [i]) (va_path va') then if bit e 0 then Some (q, e) else None else tree_walk tbl (mem s) [] (va_path va'))"
    by simp
qed

lemma leaf_update:
  assumes tree: "pt_tree M own fl tbl pml4 s" and t: "tbl (take 3 (va_path va)) = Some t" and e: "e = 0 \<or> bit e 0"
  defines "s' \<equiv> s\<lparr>mem := store64 (mem s) (entry_at t (of_nat (va_path va ! 3))) e\<rparr>"
  shows "pt_tree M own fl tbl pml4 s'" "tables_only tbl (live own fl s) (live own fl s') s s'"
    "tree_walk tbl (mem s') [] (va_path va') =
       (if va_path va' = va_path va then if bit e 0 then Some (take 3 (va_path va), e) else None else tree_walk tbl (mem s) [] (va_path va'))"
proof -
  let ?q = "take 3 (va_path va)" and ?i = "va_path va ! 3"
  note i = va_path_split(2) [of va] and len = va_path_split(3) [of va]
  have none: "tbl (?q @ [?i]) = None" using pt_treeD(3) [OF tree, of "?q @ [?i]"] len by (cases "tbl (?q @ [?i])") auto
  note u = entry_update [OF tree t i none e, folded s'_def]
  show "pt_tree M own fl tbl pml4 s'" "tables_only tbl (live own fl s) (live own fl s') s s'" using u(1,2) len by simp_all
  have "prefix (?q @ [?i]) (va_path va') \<longleftrightarrow> va_path va' = va_path va"
    unfolding va_path_split(1) [of va, symmetric] va_path_def by (auto simp: prefix_def)
  then show "tree_walk tbl (mem s') [] (va_path va') =
       (if va_path va' = va_path va then if bit e 0 then Some (?q, e) else None else tree_walk tbl (mem s) [] (va_path va'))"
    using u(3) len by simp
qed

text \<open>Only small pages lie on the way to an address.\<close>

definition small_path :: "tables \<Rightarrow> memory \<Rightarrow> u64 \<Rightarrow> bool" where
  "small_path tbl m va \<longleftrightarrow> (\<forall>q e. tree_walk tbl m [] (va_path va) = Some (q, e) \<longrightarrow> 3 \<le> length q)"

lemma va_path_cut:
  assumes "n \<le> 3"
  shows "va_path va = take n (va_path va) @ (va_path va ! n) # drop (Suc n) (va_path va)" "va_path va ! n < 512"
    "length (take n (va_path va)) = n" "\<forall>i \<in> set (take n (va_path va)). i < 512"
proof -
  have n: "n < length (va_path va)" using assms va_path_simps(1) [of va] by simp
  show "va_path va = take n (va_path va) @ (va_path va ! n) # drop (Suc n) (va_path va)" using id_take_nth_drop [OF n] .
  show "va_path va ! n < 512" using va_path_simps(2) [of va] n by simp
  show "length (take n (va_path va)) = n" "\<forall>i \<in> set (take n (va_path va)). i < 512"
    using n va_path_simps(2) [of va] by (auto dest: in_set_takeD)
qed

lemma entry_alloc:
  assumes tree: "pt_tree M own fl tbl (top_level pm) s" and pm: "standard pm" and n: "n = size_level psize"
    and clear: "\<forall>q e. tree_walk tbl (mem s) [] (va_path va) = Some (q, e) \<longrightarrow> n \<le> length q"
    and run: "virtual_to_pt_entry pm va True psize s = Inr (x, s')"
  obtains own' fl' tbl' t where "pt_tree M own' fl' tbl' (top_level pm) s'" "tbl' (take n (va_path va)) = Some t"
    "x = entry_at t (of_nat (va_path va ! n))" "grown M n tbl tbl' (live own fl s) (live own' fl' s') s s'"
proof -
  have n3: "n \<le> 3" by (simp add: n size_level_def)
  from tree pt_treeD(2) [OF tree] obtain k where top: "top_level pm \<noteq> 0" by (rule table_live)
  obtain t where d: "descend (top_level pm) (take n (va_path va)) True s = Inr (t, s')"
    and x: "x = (if t = 0 then 0 else entry_at t (of_nat (va_path va ! n)))"
    using run unfolding virtual_to_pt_entry_descend [OF top pm] n [symmetric]
    by (cases "descend (top_level pm) (take n (va_path va)) True s") (auto split: if_splits)
  obtain own' fl' tbl' where r: "pt_tree M own' fl' tbl' (top_level pm) s'" "tbl' (take n (va_path va)) = Some t"
    "grown M n tbl tbl' (live own fl s) (live own' fl' s') s s'"
    using descend_alloc [OF tree pt_treeD(2) [OF tree] _ _ n3 clear d, simplified, OF va_path_cut(1) [OF n3]] va_path_cut(3) [OF n3, of va] by auto
  from r(1,2) obtain k where "t \<noteq> 0" by (rule table_live)
  then show ?thesis using that [OF r(1,2) _ r(3)] x by simp
qed

lemma entry_find:
  assumes tree: "pt_tree M own fl tbl (top_level pm) s" and pm: "standard pm" and n: "n = size_level psize"
    and clear: "\<forall>q e. tree_walk tbl (mem s) [] (va_path va) = Some (q, e) \<longrightarrow> n \<le> length q"
  shows "virtual_to_pt_entry pm va False psize s =
    Inr (case tbl (take n (va_path va)) of None \<Rightarrow> 0 | Some t \<Rightarrow> entry_at t (of_nat (va_path va ! n)), s)"
proof -
  have n3: "n \<le> 3" by (simp add: n size_level_def)
  from tree pt_treeD(2) [OF tree] obtain k where top: "top_level pm \<noteq> 0" by (rule table_live)
  have "descend (top_level pm) (take n (va_path va)) False s = Inr (case tbl (take n (va_path va)) of None \<Rightarrow> 0 | Some u \<Rightarrow> u, s)"
    using descend_find [OF tree pt_treeD(2) [OF tree] _ _ n3 clear, of "take n (va_path va)"] va_path_cut(1,3) [OF n3, of va] by simp
  moreover have "u \<noteq> 0" if "tbl (take n (va_path va)) = Some u" for u using table_live [OF tree that] by blast
  ultimately show ?thesis
    unfolding virtual_to_pt_entry_descend [OF top pm] n [symmetric] by (auto split: option.split)
qed

lemmas small_entry_alloc = entry_alloc [where psize = KiB4, unfolded size_level_simps, OF _ _ refl, folded small_path_def]
lemmas small_entry_find = entry_find [where psize = KiB4, unfolded size_level_simps, OF _ _ refl, folded small_path_def]

lemma get_page_size_small:
  assumes "standard pm" and "\<not> is_lpage flags"
  shows "get_page_size pm flags = KiB4" "pm_page_size pm = KiB4" "KiB4 \<noteq> pm_llpage_size pm"
  using assms by (auto simp: get_page_size_def standard_def is_lpage_def KiB4_def GiB1_def)

text \<open>The effect of mapping a small page.\<close>

definition new_leaf :: "u64 \<Rightarrow> u64 \<Rightarrow> u64 \<Rightarrow> caching \<Rightarrow> u64" where
  "new_leaf v pa flags cache = pte_set_flags (pte_set_address v pa) (real_flags flags cache) True"

lemma new_leaf_bits:
  assumes "pa AND pa_mask = pa"
  shows "bit (new_leaf v pa flags cache) 0" "pte_address (new_leaf v pa flags cache) = pa"
    "new_leaf 0 pa flags cache = pa OR real_flags flags cache"
proof -
  note e = entry_bits [OF assms real_flags_bits(2), folded new_leaf_def]
  show "bit (new_leaf v pa flags cache) 0" "pte_address (new_leaf v pa flags cache) = pa"
    using e real_flags_bits(1) by simp_all
  show "new_leaf 0 pa flags cache = pa OR real_flags flags cache"
    by (rule bit_word_eqI) (auto simp: e(2) bit_or_iff)
qed

lemma map_one_small:
  assumes tree: "pt_tree M own fl tbl (top_level pm) s" and pm: "standard pm" and small: "small_path tbl (mem s) va"
    and pa: "pa AND pa_mask = pa" and run: "map_one pm va pa flags cache KiB4 s = Inr (ok, s')"
  defines "e \<equiv> new_leaf (leaf (tree_walk tbl (mem s) [] (va_path va))) pa flags cache"
  shows "ok \<and> (\<exists>own' fl' tbl'. pt_tree M own' fl' tbl' (top_level pm) s' \<and> tables_only tbl (live own fl s) (live own' fl' s') s s'
    \<and> confined M tbl tbl' s s' \<and> (\<forall>va'. tree_walk tbl' (mem s') [] (va_path va') =
         (if va_path va' = va_path va then Some (take 3 (va_path va), e) else tree_walk tbl (mem s) [] (va_path va'))))"
proof -
  obtain x s1 where x: "virtual_to_pt_entry pm va True KiB4 s = Inr (x, s1)"
    using run by (auto simp: map_one_def bind_run_Inr)
  from tree pm small x obtain own' fl' tbl' t where
    1: "pt_tree M own' fl' tbl' (top_level pm) s1" "tbl' (take 3 (va_path va)) = Some t" "x = entry_at t (of_nat (va_path va ! 3))"
      "grown M 3 tbl tbl' (live own fl s) (live own' fl' s1) s s1"
    by (rule small_entry_alloc)
  have old: "ent (mem s1) t (va_path va ! 3) = leaf (tree_walk tbl (mem s) [] (va_path va))"
    using leaf_entry [OF 1(1,2)] grownD(6) [OF 1(4)] by simp
  have bit: "bit e 0" unfolding e_def by (rule new_leaf_bits(1) [OF pa])
  have x0: "x \<noteq> 0" unfolding 1(3) by (rule entry_nonzero [OF 1(1,2) va_path_split(2)])
  have ok: "ok" and s': "s' = s1\<lparr>mem := store64 (mem s1) (entry_at t (of_nat (va_path va ! 3))) e\<rparr>"
    using run x x0 pm old unfolding map_one_def standard_def e_def new_leaf_def real_flags_def by (auto simp: Let_def 1(3) ent_def)
  note u = leaf_update [OF 1(1,2) disjI2, of e, OF bit, folded s']
  have "tables_only tbl (live own fl s) (live own' fl' s') s s'"
    by (rule tables_only_trans [OF grownD(1) [OF 1(4)] u(2) grownD(3) [OF 1(4)]])
  moreover have "confined M tbl tbl' s s'"
    unfolding s' by (rule confined_trans [OF grownD(8) [OF 1(4)] confined_store [OF 1(1,2) va_path_split(2) ranI [of tbl', OF 1(2)]]])
  ultimately show ?thesis
    using ok u(1,3) bit grownD(6) [OF 1(4)] by (intro conjI exI [of _ own'] exI [of _ fl'] exI [of _ tbl']) simp_all
qed

text \<open>The list of invalidated addresses is no part of the heap or of the tables.\<close>

lemma heap_invalidated [simp]:
  "page_free (s\<lparr>invalidated := v\<rparr>) n = page_free s n" "pmm_inv M (s\<lparr>invalidated := v\<rparr>) = pmm_inv M s"
  "objs own (s\<lparr>invalidated := v\<rparr>) i = objs own s i" "page_addr (s\<lparr>invalidated := v\<rparr>) n = page_addr s n"
  "slab_at (s\<lparr>invalidated := v\<rparr>) i = slab_at s i"
  by (simp_all add: page_free_def pmm_inv_def objs_def page_addr_def slab_at_def)

lemma heap_inv_invalidated [simp]:
  "heap_part K M own fl (s\<lparr>invalidated := v\<rparr>) = heap_part K M own fl s" "live own fl (s\<lparr>invalidated := v\<rparr>) = live own fl s"
  by (simp_all add: heap_part_def heap_env_def page_ok_def slab_ok_def live_def cong: option.case_cong owner.case_cong)

lemma pt_tree_invalidated [simp]: "pt_tree M own fl tbl pml4 (s\<lparr>invalidated := v\<rparr>) = pt_tree M own fl tbl pml4 s"
proof -
  have "entry_ok tbl (s\<lparr>invalidated := v\<rparr>) p t i = entry_ok tbl s p t i" for p t i by (rule entry_ok_cong) simp_all
  then show ?thesis by (simp add: pt_tree_def)
qed

text \<open>The state after an entry has been cleared and its address invalidated.\<close>

definition cleared_entry :: "u64 \<Rightarrow> nat \<Rightarrow> u64 \<Rightarrow> 'a vmm_scheme \<Rightarrow> 'a vmm_scheme" where
  "cleared_entry t i va s = s\<lparr>mem := store64 (mem s) (entry_at t (of_nat i)) 0, invalidated := invalidated s @ [va]\<rparr>"

lemma unmap_one_small:
  assumes tree: "pt_tree M own fl tbl (top_level pm) s" and pm: "standard pm" and small: "small_path tbl (mem s) va"
  obtains s1 where "unmap_one pm va s = Inr (tbl (take 3 (va_path va)) \<noteq> None, s1)" "pt_tree M own fl tbl (top_level pm) s1"
    "live own fl s1 = live own fl s" "hhdm_offset s1 = hhdm_offset s"
    "\<forall>x k b. (x, k) \<in> live own fl s \<longrightarrow> x \<notin> ran tbl \<longrightarrow> b \<in> span x k \<longrightarrow> mem s1 b = mem s b"
    "\<forall>va'. tree_walk tbl (mem s1) [] (va_path va') = (if va_path va' = va_path va then None else tree_walk tbl (mem s) [] (va_path va'))"
    "tree_walk tbl (mem s) [] (va_path va) \<noteq> None \<longrightarrow> invalidated s1 = invalidated s @ [va]"
    "s1 = (case tbl (take 3 (va_path va)) of None \<Rightarrow> s | Some t \<Rightarrow> cleared_entry t (va_path va ! 3) va s)"
proof (cases "tbl (take 3 (va_path va))")
  case None
  have r: "unmap_one pm va s = Inr (False, s)"
    using small_entry_find [OF tree pm small] None pm by (simp add: unmap_one_def standard_def)
  have gone: "tree_walk tbl (mem s) [] (va_path va) = None"
  proof (rule ccontr)
    assume "tree_walk tbl (mem s) [] (va_path va) \<noteq> None"
    then obtain q e where q: "tree_walk tbl (mem s) [] (va_path va) = Some (q, e)" "3 \<le> length q"
      using small by (auto simp: small_path_def)
    then obtain zs where "tbl q \<noteq> None" "va_path va = q @ zs" "length q = 3"
      using tree_walk_table [OF q(1)] va_path_simps(1) [of va] by (auto simp: prefix_def)
    then show False using None by simp
  qed
  show ?thesis by (rule that [OF _ tree]) (simp_all add: r None gone)
next
  case (Some t)
  let ?x = "entry_at t (of_nat (va_path va ! 3))"
  note u = leaf_update [OF tree Some, of 0]
  have x: "?x \<noteq> 0" by (rule entry_nonzero [OF tree Some va_path_split(2)])
  let ?s = "s\<lparr>mem := store64 (mem s) ?x 0\<rparr>"
  have r: "unmap_one pm va s = Inr (True, ?s\<lparr>invalidated := invalidated s @ [va]\<rparr>)"
    using small_entry_find [OF tree pm small] Some x pm by (simp add: unmap_one_def standard_def)
  have l: "live own fl ?s = live own fl s" by (rule entry_store_live(2) [OF tree Some va_path_split(2)])
  have c: "cleared_entry t (va_path va ! 3) va s = ?s\<lparr>invalidated := invalidated s @ [va]\<rparr>" by (simp add: cleared_entry_def)
  show ?thesis
    by (rule that [of "?s\<lparr>invalidated := invalidated s @ [va]\<rparr>"]) (use r l u Some c in \<open>simp_all add: tables_only_def\<close>)
qed

end
