(* ===== verification/Ice_Virtual.thy ===== *)
theory Ice_Virtual
  imports Ice_Pagetable
begin

text \<open>
  The properties of the virtual memory manager, stated over the hardware's page walk: what \<^verbatim>\<open>map\<close>,
  \<^verbatim>\<open>unmap\<close> and \<^verbatim>\<open>set_flags\<close> do to the translation of every address, and what \<^verbatim>\<open>virtual_to_physical\<close>
  returns.
\<close>

unbundle bit_operations_syntax

section \<open>The translation of a page map\<close>

definition mapped :: "pagemap_t \<Rightarrow> 'a heap_scheme \<Rightarrow> u64 \<Rightarrow> (nat \<times> u64) option" where
  "mapped pm s va = hw_walk (mem s) (hhdm_offset s) (fromhh (hhdm_offset s) (top_level pm)) va"

definition pagemap_ok :: "nat set \<Rightarrow> (nat \<rightharpoonup> owner) \<Rightarrow> (nat \<Rightarrow> u64 list) \<Rightarrow> tables \<Rightarrow> pagemap_t \<Rightarrow> 'a heap_scheme \<Rightarrow> bool" where
  "pagemap_ok M own fl tbl pm s \<longleftrightarrow> standard pm \<and> pt_tree M own fl tbl (top_level pm) s"

text \<open>Two addresses lie in the same small page, as far as the walk can tell.\<close>

definition same_page :: "u64 \<Rightarrow> u64 \<Rightarrow> bool" where
  "same_page va va' \<longleftrightarrow> va AND 0x0000FFFFFFFFF000 = va' AND 0x0000FFFFFFFFF000"

lemma word_bits_eq: "(x :: u64) = y \<longleftrightarrow> (\<forall>k. bit x k = bit y k)"
  by (auto intro: bit_word_eqI)

lemma va_index_eq:
  assumes "n + 9 \<le> 64"
  shows "va_index n a = va_index n b \<longleftrightarrow> (\<forall>k. n \<le> k \<and> k < n + 9 \<longrightarrow> bit a k = bit b k)"
proof -
  have m: "(0x1FF :: u64) = mask 9" by (simp add: mask_eq_exp_minus_1)
  have b: "bit (drop_bit n x AND 0x1FF) k \<longleftrightarrow> bit x (n + k) \<and> k < 9" for x :: u64 and k
    unfolding m by (auto simp: bit_and_iff bit_drop_bit_eq bit_mask_iff)
  have "va_index n a = va_index n b \<longleftrightarrow> (\<forall>k. bit a (n + k) \<and> k < 9 \<longleftrightarrow> bit b (n + k) \<and> k < 9)"
    unfolding va_index_def word_unat_eq_iff [symmetric] word_bits_eq b ..
  also have "\<dots> \<longleftrightarrow> (\<forall>k. n \<le> k \<and> k < n + 9 \<longrightarrow> bit a k = bit b k)"
  proof
    assume all: "\<forall>k. bit a (n + k) \<and> k < 9 \<longleftrightarrow> bit b (n + k) \<and> k < 9"
    show "\<forall>k. n \<le> k \<and> k < n + 9 \<longrightarrow> bit a k = bit b k"
    proof (intro allI impI)
      fix k assume k: "n \<le> k \<and> k < n + 9"
      then have "n + (k - n) = k" "k - n < 9" by auto
      then show "bit a k = bit b k" using spec [OF all, of "k - n"] by simp
    qed
  qed auto
  finally show ?thesis .
qed

lemma same_page_path: "same_page va va' \<longleftrightarrow> va_path va = va_path va'"
proof -
  have m: "(0x0000FFFFFFFFF000 :: u64) = push_bit 12 (mask 36)" by (simp add: push_bit_eq_mult mask_eq_exp_minus_1)
  have b: "bit (x AND 0x0000FFFFFFFFF000) k \<longleftrightarrow> bit x k \<and> 12 \<le> k \<and> k < 48" for x :: u64 and k
    unfolding m by (auto simp: bit_and_iff bit_push_bit_iff bit_mask_iff dest: bit_imp_le_length)
  have "same_page va va' \<longleftrightarrow> (\<forall>k. 12 \<le> k \<and> k < 48 \<longrightarrow> bit va k = bit va' k)"
    unfolding same_page_def word_bits_eq b by blast
  also have "\<dots> \<longleftrightarrow> va_path va = va_path va'"
  proof -
    have "12 \<le> k \<and> k < 48 \<longleftrightarrow> 39 \<le> k \<and> k < 39 + 9 \<or> 30 \<le> k \<and> k < 30 + 9 \<or> 21 \<le> k \<and> k < 21 + 9 \<or> 12 \<le> k \<and> k < 12 + 9" for k :: nat
      by arith
    then show ?thesis unfolding va_path_def list.inject by (simp only: va_index_eq) blast
  qed
  finally show ?thesis .
qed

lemma mapped_tree:
  assumes "pagemap_ok M own fl tbl pm s"
  shows "mapped pm s va = map_option (\<lambda>(p, e). (level_bits p, e)) (tree_walk tbl (mem s) [] (va_path va))"
  unfolding mapped_def using assms hw_walk_tree [of M own fl tbl "top_level pm" s] by (simp add: pagemap_ok_def)

lemma mapped_small:
  assumes ok: "pagemap_ok M own fl tbl pm s"
  shows "small_path tbl (mem s) va \<longleftrightarrow> (\<forall>n e. mapped pm s va = Some (n, e) \<longrightarrow> n = 12)"
proof -
  have "length q < 4 \<and> (level_bits q = 12 \<longleftrightarrow> 3 \<le> length q)" if "tree_walk tbl (mem s) [] (va_path va) = Some (q, e)" for q e
    using tree_walk_table [OF that] va_path_simps(1) [of va] by (auto simp: level_bits_def)
  then show ?thesis unfolding small_path_def mapped_tree [OF ok] by auto
qed

lemma leaf_mapped:
  assumes "pagemap_ok M own fl tbl pm s"
  shows "leaf (tree_walk tbl (mem s) [] (va_path va)) = (case mapped pm s va of None \<Rightarrow> 0 | Some (n, e) \<Rightarrow> e)"
  unfolding mapped_tree [OF assms] leaf_def by (auto split: option.split)

lemma hw_walk_present: "hw_walk m h root va = Some (n, e) \<Longrightarrow> bit e 0"
  by (auto simp: hw_walk_def Let_def split: if_splits)

lemma small_path_table:
  assumes "small_path tbl m va" and "tree_walk tbl m [] (va_path va) = Some (q, e)"
  shows "q = take 3 (va_path va)" "tbl (take 3 (va_path va)) \<noteq> None"
proof -
  obtain zs where "tbl q \<noteq> None" "va_path va = q @ zs" "length q = 3"
    using tree_walk_table [OF assms(2)] assms va_path_simps(1) [of va] by (auto simp: prefix_def small_path_def)
  then show "q = take 3 (va_path va)" "tbl (take 3 (va_path va)) \<noteq> None" by simp_all
qed

lemma small_path_none:
  assumes "small_path tbl m va" and "tbl (take 3 (va_path va)) = None"
  shows "tree_walk tbl m [] (va_path va) = None"
  using small_path_table(2) [OF assms(1)] assms(2) by (cases "tree_walk tbl m [] (va_path va)") auto

section \<open>Allocation along a path\<close>

lemma pages_needed_table: "pages_needed 0x1000 = 2"
  by (simp add: pages_needed_def div_roundup_def align_up_def align_down_def)

lemma fresh_store:
  assumes tree: "pt_tree M own fl tbl pml4 s" and "tbl p = Some t" and "i < 512"
  shows "fresh f (s\<lparr>mem := store64 (mem s) (entry_at t (of_nat i)) v\<rparr>) = fresh f s"
proof (rule fresh_cong)
  note inv = pt_treeD(1) [OF tree]
  from tree assms(2) obtain k where k: "4096 \<le> k" "(t, k) \<in> live own fl s" "k \<le> 2 ^ 64" by (rule table_live)
  have "store64 (mem s) (entry_at t (of_nat i)) v x = mem s x" if "x \<in> span (bm_buffer (bitmap s)) 256" for x
    using live_apart(1) [OF inv k(2), of x] that entry_span [OF assms(3) k(1,3), of t] by (intro store64_outside) blast
  then show "page_free (s\<lparr>mem := store64 (mem s) (entry_at t (of_nat i)) v\<rparr>) n = page_free s n" for n
    by (intro page_free_cong) (simp_all del: in_span)
qed simp_all

lemma next_returns:
  assumes tree: "pt_tree M own fl tbl pml4 s" and p: "tbl p = Some t" "i < 512" "length p < 3" "ent (mem s) t i = 0"
    and f: "fresh f s" "f + 2 \<le> page_limit s"
  obtains r s' where "get_next_lvl t (of_nat i) True s = Inr (r, s')" "fresh (f + 2) s'" "mem_usable_top s' = mem_usable_top s"
proof -
  note inv = pt_treeD(1) [OF tree]
  obtain r s1 where r: "malloc 0x1000 s = Inr (r, s1)" "fresh (f + 2) s1" "mem_usable_top s1 = mem_usable_top s"
    using malloc_fresh [OF inv _ f(1), of "0x1000"] f(2) unfolding pages_needed_table by auto
  from tree p(1) obtain l where t: "t \<noteq> 0" by (rule table_live)
  from tree r(1) obtain own' fl' k where tree1: "pt_tree M own' fl' tbl pml4 s1" by (rule pt_tree_malloc)
  let ?v = "link_entry (load64 (mem s1) (entry_at t (of_nat i))) (fromhh (hhdm_offset s1) r)"
  have "get_next_lvl t (of_nat i) True s = Inr (r, s1\<lparr>mem := store64 (mem s1) (entry_at t (of_nat i)) ?v\<rparr>)"
    using r(1) t p(4) new_page_table_malloc [OF inv] by (simp add: get_next_lvl_def has_present ent_def Let_def link_entry_def)
  then show ?thesis using that r(2,3) fresh_store [OF tree1 p(1,2)] by simp
qed

lemma descend_returns:
  assumes "pt_tree M own fl tbl pml4 s" and "tbl p = Some t" and path: "va_path va = p @ js @ ks" and len: "length p + length js = n" "n \<le> 3"
    and "\<forall>q e. tree_walk tbl (mem s) [] (va_path va) = Some (q, e) \<longrightarrow> n \<le> length q"
    and "fresh f s" and "f + 2 * length js \<le> page_limit s"
  shows "\<exists>r s'. descend t js True s = Inr (r, s')"
  using assms
proof (induction js arbitrary: p t tbl own fl s f)
  case (Cons i js)
  note tree = Cons.prems(1)
  have i: "i < 512" "length p < n" "length p < 3" using va_path_simps(2) [of va] Cons.prems(3,4,5) by auto
  have path': "va_path va = (p @ [i]) @ js @ ks" "length (p @ [i]) + length js = n" using Cons.prems(3,4) by simp_all
  show ?case
  proof (cases "tbl (p @ [i])")
    case (Some u)
    have "\<exists>r s'. descend u js True s = Inr (r, s')"
      using Cons.IH [OF tree Some path' Cons.prems(5,6,7)] Cons.prems(8) by simp
    then show ?thesis using next_present [OF tree Cons.prems(2) i(1,3) Some] by (cases "u = 0") auto
  next
    case None
    then have zero: "ent (mem s) t i = 0"
      using entry_clear [OF tree Cons.prems(2) i(2) _ Cons.prems(6,5), of i "js @ ks"] Cons.prems(3) by simp
    have "f + 2 \<le> page_limit s" using Cons.prems(8) by simp
    with tree Cons.prems(2) i(1,3) zero Cons.prems(7) obtain u s1 where
      u: "get_next_lvl t (of_nat i) True s = Inr (u, s1)" "fresh (f + 2) s1" "mem_usable_top s1 = mem_usable_top s"
      by (rule next_returns)
    from tree Cons.prems(2) i(1,3) zero u(1) obtain own1 fl1 where
      1: "pt_tree M own1 fl1 (tbl(p @ [i] \<mapsto> u)) pml4 s1" "u \<noteq> 0"
        "\<forall>va. tree_walk (tbl(p @ [i] \<mapsto> u)) (mem s1) [] (va_path va) = tree_walk tbl (mem s) [] (va_path va)"
      by (rule next_new)
    have "\<exists>r s'. descend u js True s1 = Inr (r, s')"
      using Cons.IH [OF 1(1) _ path' Cons.prems(5) _ u(2), of u] Cons.prems(6,8) 1(3) u(3) by (simp del: fun_upd_apply) simp
    then show ?thesis using u(1) 1(2) by simp
  qed
qed simp

text \<open>Tables that exist are found without allocation.\<close>

lemma descend_present:
  assumes tree: "pt_tree M own fl tbl pml4 s" and "tbl p = Some t" and "tbl (p @ js) = Some r" and "\<forall>i \<in> set js. i < 512"
  shows "descend t js allocate s = Inr (r, s)"
  using assms(2-4)
proof (induction js arbitrary: p t)
  case (Cons i js)
  have "prefix (p @ [i]) (p @ i # js)" by simp
  then obtain u where u: "tbl (p @ [i]) = Some u" using tbl_prefix [OF tree, of "p @ i # js"] Cons.prems(2) by blast
  have "length p < 3" using pt_treeD(3) [OF tree u] by simp
  then have "get_next_lvl t (of_nat i) allocate s = Inr (u, s)"
    using Cons.prems(1,3) u by (intro next_present [OF tree]) simp_all
  moreover have "u \<noteq> 0" using table_live [OF tree u] by blast
  moreover have "descend u js allocate s = Inr (r, s)" using Cons.IH [OF u] Cons.prems(2,3) by simp
  ultimately show ?case by simp
qed simp

lemma small_entry_present:
  assumes ok: "pagemap_ok M own fl tbl pm s" and t: "tbl (take 3 (va_path va)) = Some t"
  shows "virtual_to_pt_entry pm va allocate KiB4 s = Inr (entry_at t (of_nat (va_path va ! 3)), s)"
proof -
  have pm: "standard pm" and tree: "pt_tree M own fl tbl (top_level pm) s" using ok by (simp_all add: pagemap_ok_def)
  from tree pt_treeD(2) [OF tree] obtain k where top: "top_level pm \<noteq> 0" by (rule table_live)
  have "descend (top_level pm) (take 3 (va_path va)) allocate s = Inr (t, s)"
    using descend_present [OF tree pt_treeD(2) [OF tree], of "take 3 (va_path va)"] t va_path_split(4) [of va] by simp
  moreover have "t \<noteq> 0" using table_live [OF tree t] by blast
  ultimately show ?thesis unfolding virtual_to_pt_entry_descend [OF top pm] by simp
qed

section \<open>Mapping\<close>

lemma map_page_small:
  assumes "pagemap_ok M own fl tbl pm s" and "\<not> is_lpage flags"
  shows "map_page pm va pa flags cache s = map_one pm va pa flags cache KiB4 s"
  using get_page_size_small [of pm flags] assms by (simp add: map_page_def pagemap_ok_def)

lemma map_page_effect:
  assumes ok: "pagemap_ok M own fl tbl pm s" and "\<not> is_lpage flags" and pa: "pa AND pa_mask = pa"
    and small: "\<forall>n e. mapped pm s va = Some (n, e) \<longrightarrow> n = 12"
    and run: "map_page pm va pa flags cache s = Inr (r, s')"
  defines "e \<equiv> new_leaf (case mapped pm s va of None \<Rightarrow> 0 | Some (n, e) \<Rightarrow> e) pa flags cache"
  shows "r \<and> (\<exists>own' fl' tbl'. pagemap_ok M own' fl' tbl' pm s' \<and> tables_only tbl (live own fl s) (live own' fl' s') s s'
      \<and> confined M tbl tbl' s s')
    \<and> (\<forall>va'. mapped pm s' va' = (if same_page va va' then Some (12, e) else mapped pm s va'))"
proof -
  have pm: "standard pm" and tree: "pt_tree M own fl tbl (top_level pm) s" using ok by (simp_all add: pagemap_ok_def)
  have sp: "small_path tbl (mem s) va" using small mapped_small [OF ok] by blast
  have run': "map_one pm va pa flags cache KiB4 s = Inr (r, s')" using run map_page_small [OF ok assms(2)] by simp
  note e = e_def [folded leaf_mapped [OF ok]]
  from map_one_small [OF tree pm sp pa run', folded e] obtain own' fl' tbl' where
    r: "r" "pt_tree M own' fl' tbl' (top_level pm) s'" "tables_only tbl (live own fl s) (live own' fl' s') s s'"
      "\<forall>va'. tree_walk tbl' (mem s') [] (va_path va') =
         (if va_path va' = va_path va then Some (take 3 (va_path va), e) else tree_walk tbl (mem s) [] (va_path va'))"
      "confined M tbl tbl' s s'" by blast
  have ok': "pagemap_ok M own' fl' tbl' pm s'" using pm r(2) by (simp add: pagemap_ok_def)
  have "mapped pm s' va' = (if same_page va va' then Some (12, e) else mapped pm s va')" for va'
    unfolding mapped_tree [OF ok'] mapped_tree [OF ok] r(4) [rule_format] same_page_path
    using va_path_simps(1) [of va] by (auto simp: level_bits_def)
  then show ?thesis using r(1,3,5) ok' by blast
qed

lemma map_page_returns:
  assumes ok: "pagemap_ok M own fl tbl pm s" and "\<not> is_lpage flags"
    and small: "\<forall>n e. mapped pm s va = Some (n, e) \<longrightarrow> n = 12" and f: "fresh f s" "f + 6 \<le> page_limit s"
  shows "\<not> halted (map_page pm va pa flags cache s)"
proof -
  have pm: "standard pm" and tree: "pt_tree M own fl tbl (top_level pm) s" using ok by (simp_all add: pagemap_ok_def)
  have sp: "small_path tbl (mem s) va" using small mapped_small [OF ok] by blast
  from tree pt_treeD(2) [OF tree] obtain k where top: "top_level pm \<noteq> 0" by (rule table_live)
  have "\<exists>t s'. descend (top_level pm) (take 3 (va_path va)) True s = Inr (t, s')"
    using descend_returns [OF tree pt_treeD(2) [OF tree], of va "take 3 (va_path va)" "[va_path va ! 3]" 3 f]
      va_path_split(1,3) [of va] sp f unfolding small_path_def by simp
  then show ?thesis
    unfolding map_page_small [OF ok assms(2)] map_one_def virtual_to_pt_entry_descend [OF top pm]
    by (auto simp: Let_def split: if_splits)
qed

lemma set_page_flags_effect:
  assumes ok: "pagemap_ok M own fl tbl pm s" and "\<not> is_lpage flags"
    and small: "\<forall>n e. mapped pm s va = Some (n, e) \<longrightarrow> n = 12"
    and run: "set_page_flags pm va flags cache s = Inr (r, s')"
  defines "e \<equiv> pte_address (case mapped pm s va of None \<Rightarrow> 0 | Some (n, e) \<Rightarrow> e) OR real_flags flags cache"
  shows "r \<and> (\<exists>own' fl' tbl'. pagemap_ok M own' fl' tbl' pm s' \<and> tables_only tbl (live own fl s) (live own' fl' s') s s')
    \<and> (\<forall>va'. mapped pm s' va' = (if same_page va va' then Some (12, e) else mapped pm s va'))"
proof -
  have pm: "standard pm" and tree: "pt_tree M own fl tbl (top_level pm) s" using ok by (simp_all add: pagemap_ok_def)
  have sp: "small_path tbl (mem s) va" using small mapped_small [OF ok] by blast
  note sz = get_page_size_small [OF pm assms(2)]
  obtain x s1 where x: "virtual_to_pt_entry pm va True KiB4 s = Inr (x, s1)"
    using run sz(1) by (auto simp: set_page_flags_def bind_run_Inr)
  from tree pm sp x obtain own' fl' tbl' t where
    1: "pt_tree M own' fl' tbl' (top_level pm) s1" "tbl' (take 3 (va_path va)) = Some t" "x = entry_at t (of_nat (va_path va ! 3))"
      "grown M 3 tbl tbl' (live own fl s) (live own' fl' s1) s s1"
    by (rule small_entry_alloc)
  let ?old = "case mapped pm s va of None \<Rightarrow> 0 | Some (n, e) \<Rightarrow> e"
  have old: "ent (mem s1) t (va_path va ! 3) = ?old"
    using leaf_entry [OF 1(1,2)] grownD(6) [OF 1(4)] leaf_mapped [OF ok] by simp
  have "pte_address v AND pa_mask = pte_address v" for v by (simp add: pte_address_def)
  then have e: "new_leaf 0 (pte_address ?old) flags cache = e" unfolding e_def by (rule new_leaf_bits(3))
  have bit: "bit e 0" using real_flags_bits(1) by (simp add: e_def bit_or_iff)
  have x0: "x \<noteq> 0" unfolding 1(3) by (rule entry_nonzero [OF 1(1,2) va_path_split(2)])
  have r: "r" and s': "s' = s1\<lparr>mem := store64 (mem s1) (entry_at t (of_nat (va_path va ! 3))) e\<rparr>"
    using run x x0 sz old e unfolding set_page_flags_def new_leaf_def real_flags_def by (auto simp: Let_def 1(3) ent_def)
  note u = leaf_update [OF 1(1,2) disjI2, of e, OF bit, folded s']
  have ok': "pagemap_ok M own' fl' tbl' pm s'" using pm u(1) by (simp add: pagemap_ok_def)
  have to: "tables_only tbl (live own fl s) (live own' fl' s') s s'"
    by (rule tables_only_trans [OF grownD(1) [OF 1(4)] u(2) grownD(3) [OF 1(4)]])
  have "mapped pm s' va' = (if same_page va va' then Some (12, e) else mapped pm s va')" for va'
    unfolding mapped_tree [OF ok'] mapped_tree [OF ok] u(3) same_page_path grownD(6) [OF 1(4)]
    using va_path_simps(1) [of va] bit by (auto simp: level_bits_def)
  then show ?thesis using r to ok' by blast
qed

lemma set_page_flags_returns:
  assumes ok: "pagemap_ok M own fl tbl pm s" and "\<not> is_lpage flags" and m: "mapped pm s va = Some (12, e)"
  obtains r s' where "set_page_flags pm va flags cache s = Inr (r, s')"
proof -
  have "small_path tbl (mem s) va" using m mapped_small [OF ok] by simp
  then have "tbl (take 3 (va_path va)) \<noteq> None"
    using small_path_none [of tbl "mem s" va] m unfolding mapped_tree [OF ok] by fastforce
  then obtain y where y: "tbl (take 3 (va_path va)) = Some y" by blast
  have st: "standard pm" "pt_tree M own fl tbl (top_level pm) s" using ok by (simp_all add: pagemap_ok_def)
  note small_entry_present [OF ok y, of True] entry_nonzero [OF st(2) y va_path_split(2)] get_page_size_small(1) [OF st(1) assms(2)]
  then show ?thesis using that by (simp add: set_page_flags_def Let_def)
qed

lemma unmap_page_effect:
  assumes ok: "pagemap_ok M own fl tbl pm s" and "\<not> is_lpage flags"
    and small: "\<forall>n e. mapped pm s va = Some (n, e) \<longrightarrow> n = 12"
  obtains r s' where "unmap_page pm va flags s = Inr (r, s')" "pagemap_ok M own fl tbl pm s'" "live own fl s' = live own fl s"
    "\<forall>x k b. (x, k) \<in> live own fl s \<longrightarrow> x \<notin> ran tbl \<longrightarrow> b \<in> span x k \<longrightarrow> mem s' b = mem s b"
    "\<forall>va'. mapped pm s' va' = (if same_page va va' then None else mapped pm s va')"
    "mapped pm s va \<noteq> None \<longrightarrow> r \<and> invalidated s' = invalidated s @ [va]"
    "(r, s') = (case tbl (take 3 (va_path va)) of None \<Rightarrow> (False, s) | Some t \<Rightarrow> (True, cleared_entry t (va_path va ! 3) va s))"
proof -
  have pm: "standard pm" and tree: "pt_tree M own fl tbl (top_level pm) s" using ok by (simp_all add: pagemap_ok_def)
  have sp: "small_path tbl (mem s) va" using small mapped_small [OF ok] by blast
  note sz = get_page_size_small [OF pm assms(2)]
  from tree pm sp obtain s1 where 1: "unmap_one pm va s = Inr (tbl (take 3 (va_path va)) \<noteq> None, s1)" "pt_tree M own fl tbl (top_level pm) s1"
    "live own fl s1 = live own fl s" "hhdm_offset s1 = hhdm_offset s"
    "\<forall>x k b. (x, k) \<in> live own fl s \<longrightarrow> x \<notin> ran tbl \<longrightarrow> b \<in> span x k \<longrightarrow> mem s1 b = mem s b"
    "\<forall>va'. tree_walk tbl (mem s1) [] (va_path va') = (if va_path va' = va_path va then None else tree_walk tbl (mem s) [] (va_path va'))"
    "tree_walk tbl (mem s) [] (va_path va) \<noteq> None \<longrightarrow> invalidated s1 = invalidated s @ [va]"
    "s1 = (case tbl (take 3 (va_path va)) of None \<Rightarrow> s | Some t \<Rightarrow> cleared_entry t (va_path va ! 3) va s)"
    by (rule unmap_one_small)
  have ok': "pagemap_ok M own fl tbl pm s1" using pm 1(2) by (simp add: pagemap_ok_def)
  have m: "\<forall>va'. mapped pm s1 va' = (if same_page va va' then None else mapped pm s va')"
    unfolding mapped_tree [OF ok'] mapped_tree [OF ok] 1(6) [rule_format] same_page_path by auto
  have "tbl (take 3 (va_path va)) \<noteq> None" if "mapped pm s va \<noteq> None"
    using that small_path_none [OF sp] unfolding mapped_tree [OF ok, of va] by fastforce
  moreover have "unmap_page pm va flags s = unmap_one pm va s" using sz by (simp add: unmap_page_def)
  ultimately show ?thesis
    using that [OF _ ok' 1(3,5) m] 1(1,7,8) mapped_tree [OF ok, of va] by (auto split: option.splits)
qed

lemma virtual_to_physical_small:
  assumes ok: "pagemap_ok M own fl tbl pm s" and "\<not> is_lpage flags"
    and small: "\<forall>n e. mapped pm s va = Some (n, e) \<longrightarrow> n = 12"
  shows "virtual_to_physical pm va flags s =
    Inr (case mapped pm s va of None \<Rightarrow> invalid_addr | Some p \<Rightarrow> hw_phys p va, s)"
proof -
  have pm: "standard pm" and tree: "pt_tree M own fl tbl (top_level pm) s" using ok by (simp_all add: pagemap_ok_def)
  have sp: "small_path tbl (mem s) va" using small mapped_small [OF ok] by blast
  note sz = get_page_size_small [OF pm assms(2)] and find = small_entry_find [OF tree pm sp]
  have phys: "pte_address e + va mod KiB4 = hw_phys (12, e) va" for e
  proof -
    have "va mod KiB4 = va AND mask 12"
      by (simp add: KiB4_def flip: take_bit_eq_mask take_bit_eq_mod [where n = 12, simplified])
    moreover have "pte_address e AND (va AND mask 12) = 0"
      unfolding pte_address_def word_bits_eq by (auto simp: bit_and_iff bit_mask_iff)
    moreover have "e AND pa_mask AND NOT (mask 12) = pte_address e"
      unfolding pte_address_def word_bits_eq by (auto simp: bit_and_iff bit_not_iff bit_mask_iff)
    ultimately show ?thesis unfolding hw_phys_def by (simp add: disjunctive_add_eq_or)
  qed
  show ?thesis
  proof (cases "tbl (take 3 (va_path va))")
    case None
    then have "mapped pm s va = None" using mapped_tree [OF ok, of va] small_path_none [OF sp] by simp
    then show ?thesis using find None sz(1) by (simp add: virtual_to_physical_def Let_def)
  next
    case (Some t)
    have x0: "entry_at t (of_nat (va_path va ! 3)) \<noteq> 0" by (rule entry_nonzero [OF tree Some va_path_split(2)])
    have old: "load64 (mem s) (entry_at t (of_nat (va_path va ! 3))) = (case mapped pm s va of None \<Rightarrow> 0 | Some (n, e) \<Rightarrow> e)"
      using leaf_entry [OF tree Some] leaf_mapped [OF ok] by (simp add: ent_def)
    have "bit e 0 \<and> n = 12" if "mapped pm s va = Some (n, e)" for n e
      using that small hw_walk_present [of "mem s"] unfolding mapped_def by blast
    then show ?thesis
      using find Some sz(1) x0 old phys
      by (cases "mapped pm s va") (auto simp: virtual_to_physical_def Let_def has_present)
  qed
qed

section \<open>What the virtual memory manager promises\<close>

text \<open>A page map with only its top level.\<close>

lemma new_table_tree:
  assumes inv: "heap_inv M own fl s" and run: "new_page_table s = Inr (t, s')"
  obtains own' fl' where "pt_tree M own' fl' [[] \<mapsto> t] t s'" "fixed_part s' = fixed_part s"
    "live own fl s \<subseteq> live own' fl' s'" "keeps (live own fl s) s s'" "\<forall>i < 512. ent (mem s') t i = 0" "\<forall>k. (t, k) \<notin> live own fl s"
proof -
  have m: "malloc 0x1000 s = Inr (t, s')" using run new_page_table_malloc [OF inv] by simp
  from inv _ m obtain own' fl' k where b: "heap_inv M own' fl' s'" "unat (0x1000 :: u64) \<le> k" "(t, k) \<notin> live own fl s"
    "live own' fl' s' = insert (t, k) (live own fl s)" "keeps (live own fl s) s s'" "\<forall>b \<in> span t k. mem s' b = 0"
    by (rule malloc_block) simp
  have k: "(t, k) \<in> live own' fl' s'" "4096 \<le> k" using b(2,4) by auto
  have zero: "ent (mem s') t i = 0" if "i < 512" for i using ent_zero(1) [OF b(6) k(2) live_length(2) [OF b(1) k(1)] that] .
  have "pt_tree M own' fl' [[] \<mapsto> t] t s'"
    unfolding pt_tree_def using b(1) k zero by (auto simp: entry_ok_def split: if_splits)
  moreover have "\<forall>k. (t, k) \<notin> live own fl s" using live_unique [OF b(1) k(1)] b(3,4) by auto
  ultimately show ?thesis using that b(4,5) zero malloc_fixed [OF m] by blast
qed

definition page_map :: "u64 \<Rightarrow> pagemap_t" where
  "page_map t = \<lparr>top_level = t, pm_llpage_size = GiB1, pm_lpage_size = MiB2, pm_page_size = KiB4\<rparr>"

lemma page_map_simps [simp]: "standard (page_map t)" "top_level (page_map t) = t"
  by (simp_all add: page_map_def standard_def)

text \<open>A machine with sixty-four pages, the first two in use.\<close>

definition vm_base :: "'a \<Rightarrow> 'a vmm_scheme" where
  "vm_base x = \<lparr>mem = \<lambda>x. if x = 0x101000 then 3 else 0, hhdm_offset = 0x100000,
     mem_usable_top = 0x40000, last_index = 2, bitmap = \<lparr>bm_buffer = 0x101000, bm_size = 0x1000\<rparr>,
     usable_memory = 0x3F000, total_memory = 0x3F000, used_memory = 0x1000, mem_top = 0x40000000, memmaps = [],
     slabs_addr = 0x800000, gib1_pages = False, kernel_pagemap = None, cr3 = 0, invalidated = [], \<dots> = x\<rparr>"

abbreviation vm_state :: vmm where
  "vm_state \<equiv> vm_base ()"

lemma vm_state_free:
  assumes "n < 2048"
  shows "page_free (vm_base x) n \<longleftrightarrow> 2 \<le> n"
proof -
  have "page_free (vm_base x) n = page_free sixteen_pages n"
    by (simp add: page_free_def vm_base_def sixteen_pages_def)
  then show ?thesis using sixteen_pages_free [OF assms] by simp
qed

lemma vm_state_simps:
  "page_limit (vm_base x) = 64" "hhdm_offset (vm_base x) = 0x100000" "bm_buffer (bitmap (vm_base x)) = 0x101000"
  "slabs_addr (vm_base x) = 0x800000" "last_index (vm_base x) = 2" "mem_usable_top (vm_base x) = 0x40000"
  by (simp_all add: vm_base_def unat_div)

lemma vm_state_env: "heap_env {2..<64} Map.empty (vm_base x)"
proof -
  have img1: "page_image 0x100000 n \<inter> span 0x101000 256 = {}" if "2 \<le> n" "n < 64" for n
    unfolding page_image_def using that page_address(1) [of n] by (intro span_disjoint_nat) (simp_all add: unat_plus_nowrap)
  have img2: "page_image 0x100000 n \<inter> span 0x800000 160 = {}" if "2 \<le> n" "n < 64" for n
    unfolding page_image_def using that page_address(1) [of n] by (intro span_disjoint_nat) (simp_all add: unat_plus_nowrap)
  note img = img1 img2 and simps = vm_state_simps
  have "pmm_inv {2..<64} (vm_base x)"
    unfolding pmm_inv_def simps using img by (auto simp: vm_state_free)
  moreover have "span 0x800000 160 \<inter> span 0x101000 256 = {}" by (intro span_disjoint_nat) simp_all
  ultimately show ?thesis unfolding heap_env_def simps using img by simp
qed

lemma vm_state_fresh: "fresh 2 (vm_base x)"
  unfolding fresh_def vm_state_simps by (simp add: vm_state_free)

text \<open>From it, the heap and a page map come up with memory to spare.\<close>

lemma vm_state_runs:
  obtains s1 t s2 own fl where "slab_allocator (vm_base x) = Inr ((), s1)" "new_page_table s1 = Inr (t, s2)"
    "pagemap_ok {2..<64} own fl [[] \<mapsto> t] (page_map t) s2" "fresh 14 s2" "page_limit s2 = 64" "\<forall>i < 512. ent (mem s2) t i = 0"
proof -
  have "free_pages {2..<64} (vm_base x) = {2..<64}" by (auto simp: free_pages_def vm_state_free)
  then have "10 \<le> card (free_pages {2..<64} (vm_base x))" by simp
  with vm_state_env obtain s1 own fl where s1: "slab_allocator (vm_base x) = Inr ((), s1)" "heap_inv {2..<64} own fl s1" "live own fl s1 = {}"
    "hhdm_offset s1 = hhdm_offset (vm_base x)" "slabs_addr s1 = slabs_addr (vm_base x)" "bitmap s1 = bitmap (vm_base x)"
    "card (free_pages {2..<64} s1) = card (free_pages {2..<64} (vm_base x)) - 10" "mem_usable_top s1 = mem_usable_top (vm_base x)"
    "\<forall>f. fresh f (vm_base x) \<longrightarrow> f + 10 \<le> page_limit (vm_base x) \<longrightarrow> fresh (f + 10) s1"
    by (rule slab_allocator_ready)
  have f: "fresh 12 s1" "page_limit s1 = 64" using s1(8,9) vm_state_fresh [of x] vm_state_simps(1) [of x] by force+
  obtain t s2 where t: "malloc 0x1000 s1 = Inr (t, s2)" "fresh 14 s2" "mem_usable_top s2 = mem_usable_top s1"
    using malloc_fresh [OF s1(2) _ f(1), of "0x1000"] f(2) unfolding pages_needed_table by auto
  then have n: "new_page_table s1 = Inr (t, s2)" using new_page_table_malloc [OF s1(2)] by simp
  with s1(2) obtain own' fl' where "pt_tree {2..<64} own' fl' [[] \<mapsto> t] t s2" "\<forall>i < 512. ent (mem s2) t i = 0" by (rule new_table_tree)
  then show ?thesis using that [OF s1(1) n] t f(2) by (simp add: pagemap_ok_def)
qed

lemma empty_map:
  assumes ok: "pagemap_ok M own fl [[] \<mapsto> t] (page_map t) s" and "\<forall>i < 512. ent (mem s) t i = 0"
  shows "mapped (page_map t) s va = None"
  unfolding mapped_tree [OF ok] using assms(2) va_index_less [of 39 va] by (simp add: va_path_def Let_def)

lemma RWX_small: "\<not> is_lpage RWX" "(0x7000 :: u64) AND pa_mask = 0x7000"
  by (simp_all add: is_lpage_def RWX_def LPAGE_def LLPAGE_def pa_mask_def)

lemma vm_state_mapped:
  obtains s1 t s2 s3 own fl tbl e where "slab_allocator (vm_base x) = Inr ((), s1)" "new_page_table s1 = Inr (t, s2)"
    "map_page (page_map t) 0x400000 0x7000 RWX WRITE_BACK s2 = Inr (True, s3)"
    "pagemap_ok {2..<64} own fl tbl (page_map t) s3" "mapped (page_map t) s3 0x400000 = Some (12, e)"
    "e = 0x7000 OR real_flags RWX WRITE_BACK"
proof -
  obtain s1 t s2 own fl where s: "slab_allocator (vm_base x) = Inr ((), s1)" "new_page_table s1 = Inr (t, s2)"
    "pagemap_ok {2..<64} own fl [[] \<mapsto> t] (page_map t) s2" "fresh 14 s2" "page_limit s2 = 64" "\<forall>i < 512. ent (mem s2) t i = 0"
    by (rule vm_state_runs)
  note none = empty_map [OF s(3,6)]
  have "\<not> halted (map_page (page_map t) 0x400000 0x7000 RWX WRITE_BACK s2)"
    using map_page_returns [OF s(3) RWX_small(1) _ s(4)] s(5) none by simp
  then obtain r s3 where r: "map_page (page_map t) 0x400000 0x7000 RWX WRITE_BACK s2 = Inr (r, s3)"
    by (cases "map_page (page_map t) 0x400000 0x7000 RWX WRITE_BACK s2") auto
  note eff = map_page_effect [OF s(3) RWX_small _ r]
  obtain own' fl' tbl' where "pagemap_ok {2..<64} own' fl' tbl' (page_map t) s3" using eff none by auto
  moreover have "mapped (page_map t) s3 0x400000 = Some (12, new_leaf 0 0x7000 RWX WRITE_BACK)" "r = True"
    using eff none by (simp_all add: same_page_def)
  ultimately show ?thesis using that [OF s(1,2)] r new_leaf_bits(3) [OF RWX_small(2)] by simp
qed

text \<open>C2: \<^verbatim>\<open>map\<close> of a small page to a physical address within the mask of an entry, where no large page is in the way, changes the translation of exactly that page.
  Afterwards the processor finds the given physical page with the flags that were asked for (on top of whatever flags
  an entry that was present already had), and every other address translates as before. Of memory, it changes only
  bytes of page tables, of pages that were free (new tables and their headers), and of the bitmap of the page manager;
  in particular no block of the heap other than a page table changes, and none is lost. With six pages of fresh memory
  the call succeeds.\<close>

theorem map_page_correct:
  assumes "pagemap_ok M own fl tbl pm s" and "\<not> is_lpage flags" and "pa AND pa_mask = pa"
    and "\<forall>n e. mapped pm s va = Some (n, e) \<longrightarrow> n = 12"
  shows "(\<forall>r s'. map_page pm va pa flags cache s = Inr (r, s') \<longrightarrow>
      r \<and> (\<exists>own' fl' tbl'. pagemap_ok M own' fl' tbl' pm s' \<and> tables_only tbl (live own fl s) (live own' fl' s') s s')
      \<and> (\<forall>b. mem s' b \<noteq> mem s b \<longrightarrow> b \<in> span (bm_buffer (bitmap s)) 256
           \<or> (\<exists>n \<in> M. page_free s n \<and> b \<in> span (page_addr s n) 4096) \<or> (\<exists>t \<in> ran tbl. b \<in> span t 4096))
      \<and> (\<exists>e. (\<forall>va'. mapped pm s' va' = (if same_page va va' then Some (12, e) else mapped pm s va'))
           \<and> pte_address e = pa \<and> (mapped pm s va = None \<longrightarrow> e = pa OR flags_to_arch flags OR cache_to_flags cache False)
           \<and> (\<forall>va'. hw_phys (12, e) va' = pa OR (va' AND 0xFFF))))
    \<and> (\<forall>f. fresh f s \<and> f + 6 \<le> page_limit s \<longrightarrow> \<not> halted (map_page pm va pa flags cache s))"
proof (intro conjI allI impI)
  fix r s' assume run: "map_page pm va pa flags cache s = Inr (r, s')"
  note eff = map_page_effect [OF assms run]
  let ?e = "new_leaf (case mapped pm s va of None \<Rightarrow> 0 | Some (n, e) \<Rightarrow> e) pa flags cache"
  note e = new_leaf_bits [OF assms(3)]
  have "hw_phys (12, ?e) va' = pa OR (va' AND 0xFFF)" for va'
  proof -
    have "(0xFFF :: u64) = mask 12" by (simp add: mask_eq_exp_minus_1)
    moreover have "?e AND pa_mask AND NOT (mask 12) = ?e AND pa_mask"
      unfolding word_bits_eq by (auto simp: bit_and_iff bit_not_iff bit_mask_iff)
    ultimately show ?thesis using e(2) by (simp add: hw_phys_def pte_address_def)
  qed
  moreover have "mapped pm s va = None \<longrightarrow> ?e = pa OR flags_to_arch flags OR cache_to_flags cache False"
    using e(3) by (simp add: real_flags_def or.assoc)
  ultimately show "\<exists>e. (\<forall>va'. mapped pm s' va' = (if same_page va va' then Some (12, e) else mapped pm s va'))
      \<and> pte_address e = pa \<and> (mapped pm s va = None \<longrightarrow> e = pa OR flags_to_arch flags OR cache_to_flags cache False)
      \<and> (\<forall>va'. hw_phys (12, e) va' = pa OR (va' AND 0xFFF))"
    using eff e(2) by (intro exI [of _ ?e]) blast
  show "r" "\<exists>own' fl' tbl'. pagemap_ok M own' fl' tbl' pm s' \<and> tables_only tbl (live own fl s) (live own' fl' s') s s'"
    using eff by blast+
  obtain tbl' where "confined M tbl tbl' s s'" using eff by blast
  then show "b \<in> span (bm_buffer (bitmap s)) 256 \<or> (\<exists>n \<in> M. page_free s n \<and> b \<in> span (page_addr s n) 4096)
      \<or> (\<exists>t \<in> ran tbl. b \<in> span t 4096)" if "mem s' b \<noteq> mem s b" for b
    using confinedD [of M tbl tbl' s s' b] that by blast
qed (use map_page_returns [OF assms(1,2,4)] in blast)

theorem map_page_correct_witness:
  "\<exists>s1 t s2 s3 e. slab_allocator vm_state = Inr ((), s1) \<and> new_page_table s1 = Inr (t, s2)
    \<and> map_page (page_map t) 0x400000 0x7000 RWX WRITE_BACK s2 = Inr (True, s3)
    \<and> mapped (page_map t) s3 0x400123 = Some (12, e) \<and> hw_phys (12, e) 0x400123 = 0x7123
    \<and> mapped (page_map t) s3 0x401000 = None"
proof -
  obtain s1 t s2 own fl where s: "slab_allocator vm_state = Inr ((), s1)" "new_page_table s1 = Inr (t, s2)"
    "pagemap_ok {2..<64} own fl [[] \<mapsto> t] (page_map t) s2" "fresh 14 s2" "page_limit s2 = 64" "\<forall>i < 512. ent (mem s2) t i = 0"
    by (rule vm_state_runs)
  note none = empty_map [OF s(3,6)]
  note c = map_page_correct [OF s(3) RWX_small, of "0x400000" WRITE_BACK]
  have "\<not> halted (map_page (page_map t) 0x400000 0x7000 RWX WRITE_BACK s2)" using c s(4,5) none by force
  then obtain r s3 where r: "map_page (page_map t) 0x400000 0x7000 RWX WRITE_BACK s2 = Inr (r, s3)"
    by (cases "map_page (page_map t) 0x400000 0x7000 RWX WRITE_BACK s2") auto
  then obtain e where e: "r" "\<forall>va'. mapped (page_map t) s3 va' = (if same_page 0x400000 va' then Some (12, e) else mapped (page_map t) s2 va')"
    "\<forall>va'. hw_phys (12, e) va' = 0x7000 OR (va' AND 0xFFF)"
    using c none by auto
  have "same_page 0x400000 0x400123" "\<not> same_page 0x400000 0x401000" by (simp_all add: same_page_def)
  then have "mapped (page_map t) s3 0x400123 = Some (12, e)" "mapped (page_map t) s3 0x401000 = None" using e(2) none by simp_all
  moreover have "hw_phys (12, e) 0x400123 = 0x7123" using e(3) by simp
  moreover have "r = True" using e(1) by simp
  ultimately show ?thesis using s(1,2) r by blast
qed

text \<open>C7: \<^verbatim>\<open>unmap\<close> of an address that is not in a large page always returns and removes exactly its small page from the
  translation. If no last-level table leads to the address, it reports failure and changes nothing; otherwise it
  reports success, clears the eight bytes of the entry for the page in that table, and invalidates the address the
  processor may have cached, and that is all it changes: no table is freed. A page that was mapped is always in the
  second case. (The message it logs on failure is not part of the state of this layer.)\<close>

theorem unmap_page_correct:
  assumes "pagemap_ok M own fl tbl pm s" and "\<not> is_lpage flags" and "\<forall>n e. mapped pm s va = Some (n, e) \<longrightarrow> n = 12"
  shows "\<exists>r s'. unmap_page pm va flags s = Inr (r, s') \<and> pagemap_ok M own fl tbl pm s' \<and> live own fl s' = live own fl s
    \<and> (\<forall>x k b. (x, k) \<in> live own fl s \<longrightarrow> x \<notin> ran tbl \<longrightarrow> b \<in> span x k \<longrightarrow> mem s' b = mem s b)
    \<and> (\<forall>va'. mapped pm s' va' = (if same_page va va' then None else mapped pm s va'))
    \<and> (mapped pm s va \<noteq> None \<longrightarrow> r \<and> invalidated s' = invalidated s @ [va])
    \<and> (r, s') = (case tbl (take 3 (va_path va)) of None \<Rightarrow> (False, s)
        | Some t \<Rightarrow> (True, s\<lparr>mem := store64 (mem s) (entry_at t (of_nat (va_path va ! 3))) 0, invalidated := invalidated s @ [va]\<rparr>))"
  using assms by (rule unmap_page_effect) (unfold cleared_entry_def, blast)

theorem unmap_page_correct_witness:
  "\<exists>s1 t s2 s3 s4. slab_allocator vm_state = Inr ((), s1) \<and> new_page_table s1 = Inr (t, s2)
    \<and> map_page (page_map t) 0x400000 0x7000 RWX WRITE_BACK s2 = Inr (True, s3)
    \<and> unmap_page (page_map t) 0x400000 RWX s3 = Inr (True, s4) \<and> mapped (page_map t) s4 0x400000 = None
    \<and> unmap_page (page_map t) 0x400000 RWX s2 = Inr (False, s2)"
proof -
  obtain s1 t s2 s3 own fl tbl e where s: "slab_allocator vm_state = Inr ((), s1)" "new_page_table s1 = Inr (t, s2)"
    "map_page (page_map t) 0x400000 0x7000 RWX WRITE_BACK s2 = Inr (True, s3)"
    "pagemap_ok {2..<64} own fl tbl (page_map t) s3" "mapped (page_map t) s3 0x400000 = Some (12, e)"
    by (rule vm_state_mapped)
  obtain r s4 where r: "unmap_page (page_map t) 0x400000 RWX s3 = Inr (r, s4)" "r"
    "\<forall>va'. mapped (page_map t) s4 va' = (if same_page 0x400000 va' then None else mapped (page_map t) s3 va')"
    using unmap_page_correct [OF s(4) RWX_small(1), of "0x400000"] s(5) by auto
  have "mapped (page_map t) s4 0x400000 = None" using r(3) by (simp add: same_page_def)
  moreover have "unmap_page (page_map t) 0x400000 RWX s3 = Inr (True, s4)" using r(1,2) by simp
  moreover have "unmap_page (page_map t) 0x400000 RWX s2 = Inr (False, s2)"
  proof -
    obtain own fl where ok: "pagemap_ok {2..<64} own fl [[] \<mapsto> t] (page_map t) s2" "\<forall>i < 512. ent (mem s2) t i = 0"
    proof (rule vm_state_runs [where x = "()"], goal_cases)
      case (1 s1' t' s2' own fl)
      then have "s1' = s1" using s(1) by simp
      then have "t' = t" "s2' = s2" using s(2) 1(3) by simp_all
      then show ?case using 1(4,7) that by blast
    qed
    have "[[] \<mapsto> t] (take 3 (va_path 0x400000)) = None" using va_path_simps(1) [of "0x400000"] by auto
    then show ?thesis using unmap_page_correct [OF ok(1) RWX_small(1), of "0x400000"] empty_map [OF ok] by auto
  qed
  ultimately show ?thesis using s(1-3) by blast
qed

text \<open>C19: \<^verbatim>\<open>set_flags\<close> replaces the flags of a small page and keeps its physical address; no other address
  is affected. An address that was not mapped becomes mapped to physical page 0.\<close>

theorem set_page_flags_correct:
  assumes "pagemap_ok M own fl tbl pm s" and "\<not> is_lpage flags" and "\<forall>n e. mapped pm s va = Some (n, e) \<longrightarrow> n = 12"
    and "set_page_flags pm va flags cache s = Inr (r, s')"
  shows "r \<and> (\<exists>own' fl' tbl'. pagemap_ok M own' fl' tbl' pm s' \<and> tables_only tbl (live own fl s) (live own' fl' s') s s')
    \<and> (\<forall>va'. mapped pm s' va' =
        (if same_page va va'
         then Some (12, (case mapped pm s va of None \<Rightarrow> 0 | Some (n, e) \<Rightarrow> e AND pa_mask) OR flags_to_arch flags OR cache_to_flags cache False)
         else mapped pm s va'))"
proof -
  have "pte_address (case mapped pm s va of None \<Rightarrow> 0 | Some (n, e) \<Rightarrow> e) OR real_flags flags cache =
      (case mapped pm s va of None \<Rightarrow> 0 | Some (n, e) \<Rightarrow> e AND pa_mask) OR flags_to_arch flags OR cache_to_flags cache False"
    by (auto simp: pte_address_def real_flags_def or.assoc split: option.split)
  then show ?thesis using set_page_flags_effect [OF assms] by simp
qed

theorem set_page_flags_correct_witness:
  "\<exists>s1 t s2 s3 s4. slab_allocator vm_state = Inr ((), s1) \<and> new_page_table s1 = Inr (t, s2)
    \<and> map_page (page_map t) 0x400000 0x7000 RWX WRITE_BACK s2 = Inr (True, s3)
    \<and> set_page_flags (page_map t) 0x400000 READ UNCACHABLE s3 = Inr (True, s4)
    \<and> mapped (page_map t) s4 0x400000 = Some (12, 0x7000 OR present OR no_exec)"
proof -
  obtain s1 t s2 s3 own fl tbl e where s: "slab_allocator vm_state = Inr ((), s1)" "new_page_table s1 = Inr (t, s2)"
    "map_page (page_map t) 0x400000 0x7000 RWX WRITE_BACK s2 = Inr (True, s3)"
    "pagemap_ok {2..<64} own fl tbl (page_map t) s3" "mapped (page_map t) s3 0x400000 = Some (12, e)" "e = 0x7000 OR real_flags RWX WRITE_BACK"
    by (rule vm_state_mapped)
  have small: "\<forall>n e. mapped (page_map t) s3 0x400000 = Some (n, e) \<longrightarrow> n = 12" "\<not> is_lpage READ"
    using s(5) by (simp_all add: is_lpage_def READ_def LPAGE_def LLPAGE_def)
  from s(4) small(2) s(5) obtain r s4 where r: "set_page_flags (page_map t) 0x400000 READ UNCACHABLE s3 = Inr (r, s4)"
    by (rule set_page_flags_returns)
  note c = set_page_flags_correct [OF s(4) small(2,1) r]
  have pa: "e AND pa_mask = 0x7000"
    unfolding s(6) using new_leaf_bits(2) [OF RWX_small(2), of 0 RWX WRITE_BACK] new_leaf_bits(3) [OF RWX_small(2), of RWX WRITE_BACK]
    by (simp add: pte_address_def)
  have "r = True" "mapped (page_map t) s4 0x400000 = Some (12, 0x7000 OR flags_to_arch READ OR cache_to_flags UNCACHABLE False)"
    using c s(5) pa by (simp_all add: same_page_def)
  moreover have "flags_to_arch READ = present OR no_exec" "cache_to_flags UNCACHABLE False = 0"
    by (simp_all add: flags_to_arch_def cache_to_flags_def Let_def READ_def WRITE_def USER_def EXEC_def GLOBAL_def small(2) [unfolded READ_def])
  ultimately show ?thesis using s(1-3) r by (auto simp: or.assoc)
qed

text \<open>C15: For small pages \<^verbatim>\<open>virtual_to_physical\<close> agrees with the processor: it returns the physical address
  the hardware walk gives, or the invalid address where nothing is mapped, and changes nothing.\<close>

theorem virtual_to_physical_correct:
  assumes "pagemap_ok M own fl tbl pm s" and "\<not> is_lpage flags" and "\<forall>n e. mapped pm s va = Some (n, e) \<longrightarrow> n = 12"
  shows "virtual_to_physical pm va flags s =
    Inr (case mapped pm s va of None \<Rightarrow> invalid_addr | Some p \<Rightarrow> hw_phys p va, s)"
  using assms by (rule virtual_to_physical_small)

theorem virtual_to_physical_correct_witness:
  "\<exists>s1 t s2. slab_allocator vm_state = Inr ((), s1) \<and> new_page_table s1 = Inr (t, s2)
    \<and> virtual_to_physical (page_map t) 0x400000 RWX s2 = Inr (invalid_addr, s2)"
proof -
  obtain s1 t s2 own fl where s: "slab_allocator vm_state = Inr ((), s1)" "new_page_table s1 = Inr (t, s2)"
    "pagemap_ok {2..<64} own fl [[] \<mapsto> t] (page_map t) s2" "fresh 14 s2" "page_limit s2 = 64" "\<forall>i < 512. ent (mem s2) t i = 0"
    by (rule vm_state_runs)
  note none = empty_map [OF s(3,6)]
  show ?thesis using virtual_to_physical_correct [OF s(3) RWX_small(1), of "0x400000"] none s(1,2) by auto
qed

end
