(* ===== verification/Ice_Space.thy ===== *)
theory Ice_Space
  imports Ice_Virtual
begin

text \<open>
  Operations on whole ranges of pages and on page maps: the loops of \<^verbatim>\<open>virtual.hpp\<close>, the address of a large page,
  and the constructor that gives every page map the kernel's half of the address space.
\<close>

section \<open>Sweeping over pages\<close>

text \<open>A loop over pages whose body changes the view of one page and nothing else of the view.\<close>

locale page_sweep =
  fixes body :: "u64 \<Rightarrow> 's \<Rightarrow> (bool, 's) run" and inv :: "'s \<Rightarrow> bool" and view :: "'s \<Rightarrow> u64 \<Rightarrow> 'e"
    and same :: "u64 \<Rightarrow> u64 \<Rightarrow> bool" and ok :: "'e \<Rightarrow> bool" and upd :: "'e \<Rightarrow> 'e"
  assumes body: "inv s \<Longrightarrow> ok (view s a) \<Longrightarrow> \<exists>s'. body a s = Inr (True, s') \<and> inv s'
      \<and> (\<forall>b. view s' b = (if same a b then upd (view s b) else view s b))"
    and ok_upd: "ok e \<Longrightarrow> ok (upd e)" and upd_upd: "ok e \<Longrightarrow> upd (upd e) = upd e"
    and view_same: "inv s \<Longrightarrow> same a b \<Longrightarrow> view s a = view s b"
begin

lemma sweep:
  assumes "inv s" and "\<forall>a \<in> set xs. ok (view s a)"
  shows "\<exists>s'. run_all body xs s = Inr (True, s') \<and> inv s'
    \<and> (\<forall>b. view s' b = (if \<exists>a \<in> set xs. same a b then upd (view s b) else view s b))"
  using assms
proof (induction xs arbitrary: s)
  case (Cons x xs)
  obtain s1 where 1: "body x s = Inr (True, s1)" "inv s1" "\<forall>b. view s1 b = (if same x b then upd (view s b) else view s b)"
    using body [OF Cons.prems(1), of x] Cons.prems(2) by (auto simp del: split_paired_All)
  have "\<forall>a \<in> set xs. ok (view s1 a)" using Cons.prems(2) 1(3) ok_upd by auto
  from Cons.IH [OF 1(2) this] obtain s' where s': "run_all body xs s1 = Inr (True, s')" "inv s'"
    "\<forall>b. view s' b = (if \<exists>a \<in> set xs. same a b then upd (view s1 b) else view s1 b)" by blast
  have "view s' b = (if \<exists>a \<in> set (x # xs). same a b then upd (view s b) else view s b)" for b
  proof (cases "same x b")
    case True
    then have "ok (view s b)" using Cons.prems view_same [OF Cons.prems(1) True] by auto
    then show ?thesis using s'(3) 1(3) True upd_upd by auto
  qed (use s'(3) 1(3) in auto)
  then show ?case using 1(1) s'(1,2) by auto
qed simp

end

text \<open>The pages a view of a page map may have: none or small ones.\<close>

definition at_most_small :: "(nat \<times> u64) option \<Rightarrow> bool" where
  "at_most_small e \<longleftrightarrow> (\<forall>n x. e = Some (n, x) \<longrightarrow> n = 12)"

definition some_pagemap :: "nat set \<Rightarrow> pagemap_t \<Rightarrow> 'a heap_scheme \<Rightarrow> bool" where
  "some_pagemap M pm s \<longleftrightarrow> (\<exists>own fl tbl. pagemap_ok M own fl tbl pm s)"

lemma mapped_same_page: "some_pagemap M pm s \<Longrightarrow> same_page a b \<Longrightarrow> mapped pm s a = mapped pm s b"
  unfolding some_pagemap_def using mapped_tree same_page_path by metis

text \<open>Unmapping ignores its result; changing flags is considered on pages that are mapped.\<close>

interpretation unmapping: page_sweep "\<lambda>a s. ignore (unmap_page pm a flags s)"
  "\<lambda>s. \<not> is_lpage flags \<and> some_pagemap M pm s" "mapped pm" same_page at_most_small "\<lambda>_. None"
proof (unfold_locales, goal_cases)
  case (1 s a)
  then obtain own fl tbl where ok: "pagemap_ok M own fl tbl pm s" "\<not> is_lpage flags" unfolding some_pagemap_def by blast
  from ok 1(2) [unfolded at_most_small_def] obtain r s' where "unmap_page pm a flags s = Inr (r, s')" "pagemap_ok M own fl tbl pm s'"
    "\<forall>va'. mapped pm s' va' = (if same_page a va' then None else mapped pm s va')"
    by (rule unmap_page_effect)
  then show ?case using ok(2) by (auto simp: ignore_def some_pagemap_def)
next
  case (4 s a b)
  then show ?case using mapped_same_page by blast
qed (simp_all add: at_most_small_def)

definition reflagged :: "u64 \<Rightarrow> caching \<Rightarrow> (nat \<times> u64) option \<Rightarrow> (nat \<times> u64) option" where
  "reflagged flags cache e = map_option (\<lambda>(n, x). (12, (x AND pa_mask) OR real_flags flags cache)) e"

definition small_page :: "(nat \<times> u64) option \<Rightarrow> bool" where
  "small_page e \<longleftrightarrow> (\<exists>x. e = Some (12, x))"

lemma set_page_flags_mapped:
  assumes "some_pagemap M pm s" and "\<not> is_lpage flags" and "small_page (mapped pm s a)"
  obtains s' where "set_page_flags pm a flags cache s = Inr (True, s')" "some_pagemap M pm s'"
    "\<forall>b. mapped pm s' b = (if same_page a b then reflagged flags cache (mapped pm s b) else mapped pm s b)"
proof -
  obtain own fl tbl where ok: "pagemap_ok M own fl tbl pm s" using assms(1) unfolding some_pagemap_def by blast
  obtain x where x: "mapped pm s a = Some (12, x)" using assms(3) unfolding small_page_def by blast
  from ok assms(2) x obtain r s' where r: "set_page_flags pm a flags cache s = Inr (r, s')" by (rule set_page_flags_returns)
  have small: "\<forall>n e. mapped pm s a = Some (n, e) \<longrightarrow> n = 12" using x by simp
  have eff: "r" "some_pagemap M pm s'"
    "\<forall>b. mapped pm s' b = (if same_page a b then Some (12, pte_address x OR real_flags flags cache) else mapped pm s b)"
    using set_page_flags_effect [OF ok assms(2) small r] x unfolding some_pagemap_def by auto
  have "mapped pm s b = Some (12, x)" if "same_page a b" for b using mapped_same_page [OF assms(1) that] x by simp
  then show ?thesis using that [of s'] r eff by (simp add: reflagged_def pte_address_def)
qed

lemma reflagged_twice: "reflagged flags cache (reflagged flags cache e) = reflagged flags cache e"
proof -
  have "(((x AND pa_mask) OR real_flags flags cache) AND pa_mask) = x AND pa_mask" for x
    by (rule bit_word_eqI) (auto simp: bit_and_iff bit_or_iff real_flags_bits(2))
  then show ?thesis by (cases e) (auto simp: reflagged_def)
qed

interpretation reflagging: page_sweep "\<lambda>a s. ignore (set_page_flags pm a flags cache s)"
  "\<lambda>s. \<not> is_lpage flags \<and> some_pagemap M pm s" "mapped pm" same_page small_page "reflagged flags cache"
proof (unfold_locales, goal_cases)
  case (1 s a)
  then obtain s' where "set_page_flags pm a flags cache s = Inr (True, s')" "some_pagemap M pm s'"
    "\<forall>b. mapped pm s' b = (if same_page a b then reflagged flags cache (mapped pm s b) else mapped pm s b)"
    using set_page_flags_mapped by blast
  then show ?case using 1 by (auto simp: ignore_def)
next
  case (2 e)
  then show ?case by (auto simp: small_page_def reflagged_def)
next
  case (3 e)
  show ?case by (rule reflagged_twice)
next
  case (4 s a b)
  then show ?case using mapped_same_page by blast
qed

section \<open>Ranges\<close>

lemma run_all_map: "run_all (\<lambda>i. f (g i)) xs s = run_all f (map g xs) s"
  by (induction xs arbitrary: s) (simp_all add: bind_run_def split: sum.split)

text \<open>The pages of a range.\<close>

definition in_range :: "u64 \<Rightarrow> u64 \<Rightarrow> u64 \<Rightarrow> bool" where
  "in_range va sz b \<longleftrightarrow> (\<exists>k. k * 4096 < unat sz \<and> same_page (va + of_nat k * 0x1000) b)"

lemma visits_pages: "set (map ((+) va) (visits 0 sz 0x1000)) = {va + of_nat k * 0x1000 | k. k * 4096 < unat sz}"
proof -
  have "k < (4095 + a) div 4096 \<longleftrightarrow> k * 4096 < a" for k a :: nat
    using less_eq_div_iff_mult_less_eq [of 4096 "Suc k" "4095 + a"] by (simp add: Suc_le_eq)
  then have "k < rounds 0 sz 0x1000 \<longleftrightarrow> k * 4096 < unat sz" for k by (simp add: rounds_def)
  then show ?thesis by (auto simp: visits_def image_iff)
qed

lemma in_range_visits: "(\<exists>a \<in> set (map ((+) va) (visits 0 sz 0x1000)). same_page a b) \<longleftrightarrow> in_range va sz b"
  unfolding visits_pages in_range_def by auto

lemma range_loop:
  assumes "standard pm" and "\<not> is_lpage flags" and "unat sz + 4096 \<le> 2 ^ 64"
  shows "for_run 0 sz (get_page_size pm flags) (\<lambda>i. body (va + i)) s = Some (run_all body (map ((+) va) (visits 0 sz 0x1000)) s)"
  using for_run_returns [of "0x1000" sz 0 "\<lambda>i. body (va + i)" s] assms get_page_size_small [OF assms(1,2)]
  by (simp add: run_all_map KiB4_def)

lemma visits_in_range: "a \<in> set (map ((+) va) (visits 0 sz 0x1000)) \<Longrightarrow> in_range va sz a"
  unfolding in_range_visits [symmetric] by (auto simp: same_page_def)

lemma one_page: "in_range va 0x1000 b \<longleftrightarrow> same_page va b"
  by (auto simp: in_range_def)

text \<open>C17: Small pages: with flags that ask for no large page, and where no page of the range is mapped by a large page, the
  loops of \<^verbatim>\<open>unmap_range\<close> and of the \<^verbatim>\<open>map_range\<close> that takes a caching mode end, for every size at least a page below
  \<open>2 ^ 64\<close>. They unmap every page of the range that was mapped and change the translation of no other page; the second
  one therefore maps nothing.\<close>

theorem unmap_range_correct:
  assumes "pagemap_ok M own fl tbl pm s" and "\<not> is_lpage flags" and "unat sz + 4096 \<le> 2 ^ 64"
    and "\<forall>b. in_range va sz b \<longrightarrow> (\<forall>n e. mapped pm s b = Some (n, e) \<longrightarrow> n = 12)"
  shows "\<exists>s'. unmap_range pm va sz flags s = Some (Inr (True, s')) \<and> map_range_cached pm va pa sz flags cache s = Some (Inr (True, s'))
    \<and> some_pagemap M pm s' \<and> (\<forall>b. mapped pm s' b = (if in_range va sz b then None else mapped pm s b))"
proof -
  have inv: "\<not> is_lpage flags \<and> some_pagemap M pm s" "standard pm"
    using assms(1,2) unfolding some_pagemap_def by (auto simp: pagemap_ok_def)
  have "\<forall>a \<in> set (map ((+) va) (visits 0 sz 0x1000)). at_most_small (mapped pm s a)"
    using assms(4) visits_in_range unfolding at_most_small_def by blast
  from unmapping.sweep [OF inv(1) this] show ?thesis
    unfolding in_range_visits unmap_range_def map_range_cached_def
      range_loop [OF inv(2) assms(2,3), of "\<lambda>a s. ignore (unmap_page pm a flags s)"] by auto
qed

theorem unmap_range_correct_witness:
  "\<exists>s1 t s2 s3 s4. slab_allocator vm_state = Inr ((), s1) \<and> new_page_table s1 = Inr (t, s2)
    \<and> map_page (page_map t) 0x400000 0x7000 RWX WRITE_BACK s2 = Inr (True, s3)
    \<and> unmap_range (page_map t) 0x400000 0x1000 RWX s3 = Some (Inr (True, s4)) \<and> mapped (page_map t) s4 0x400000 = None"
proof -
  obtain s1 t s2 s3 own fl tbl e where s: "slab_allocator vm_state = Inr ((), s1)" "new_page_table s1 = Inr (t, s2)"
    "map_page (page_map t) 0x400000 0x7000 RWX WRITE_BACK s2 = Inr (True, s3)"
    "pagemap_ok {2..<64} own fl tbl (page_map t) s3" "mapped (page_map t) s3 0x400000 = Some (12, e)"
    by (rule vm_state_mapped)
  have "some_pagemap {2..<64} (page_map t) s3" using s(4) unfolding some_pagemap_def by blast
  then have "\<forall>b. in_range 0x400000 0x1000 b \<longrightarrow> (\<forall>n e. mapped (page_map t) s3 b = Some (n, e) \<longrightarrow> n = 12)"
    unfolding one_page using mapped_same_page s(5) by fastforce
  then obtain s4 where s4: "unmap_range (page_map t) 0x400000 0x1000 RWX s3 = Some (Inr (True, s4))"
    "\<forall>b. mapped (page_map t) s4 b = (if in_range 0x400000 0x1000 b then None else mapped (page_map t) s3 b)"
    using unmap_range_correct [OF s(4) RWX_small(1), of "0x1000" "0x400000" 0 WRITE_BACK] by auto
  have "mapped (page_map t) s4 0x400000 = None" using s4(2) unfolding one_page by (simp add: same_page_def)
  with s(1-3) s4(1) show ?thesis by blast
qed

text \<open>C20: \<^verbatim>\<open>set_flags_range\<close>, with flags that ask for no large page, on a range all of whose pages are mapped as small pages
  and whose size is at least a page below \<open>2 ^ 64\<close>: it ends, replaces the flags of every page of the range, keeps the
  physical address of each, and changes the translation of no page outside the range.\<close>

theorem set_flags_range_correct:
  assumes "pagemap_ok M own fl tbl pm s" and "\<not> is_lpage flags" and "unat sz + 4096 \<le> 2 ^ 64"
    and "\<forall>b. in_range va sz b \<longrightarrow> (\<exists>e. mapped pm s b = Some (12, e))"
  shows "\<exists>s'. set_flags_range pm va sz flags cache s = Some (Inr (True, s')) \<and> some_pagemap M pm s'
    \<and> (\<forall>b e. mapped pm s b = Some (12, e) \<longrightarrow> in_range va sz b \<longrightarrow>
         mapped pm s' b = Some (12, (e AND pa_mask) OR flags_to_arch flags OR cache_to_flags cache False))
    \<and> (\<forall>b. \<not> in_range va sz b \<longrightarrow> mapped pm s' b = mapped pm s b)"
proof -
  have inv: "\<not> is_lpage flags \<and> some_pagemap M pm s" "standard pm"
    using assms(1,2) unfolding some_pagemap_def by (auto simp: pagemap_ok_def)
  have "\<forall>a \<in> set (map ((+) va) (visits 0 sz 0x1000)). small_page (mapped pm s a)"
    using assms(4) visits_in_range unfolding small_page_def by blast
  from reflagging.sweep [OF inv(1) this, of cache] obtain s' where
    s': "run_all (\<lambda>a s. ignore (set_page_flags pm a flags cache s)) (map ((+) va) (visits 0 sz 0x1000)) s = Inr (True, s')"
      "some_pagemap M pm s'" "\<forall>b. mapped pm s' b = (if in_range va sz b then reflagged flags cache (mapped pm s b) else mapped pm s b)"
    unfolding in_range_visits by blast
  have "set_flags_range pm va sz flags cache s = Some (Inr (True, s'))"
    unfolding set_flags_range_def range_loop [OF inv(2) assms(2,3), of "\<lambda>a s. ignore (set_page_flags pm a flags cache s)"] s'(1) ..
  then show ?thesis using s'(2,3) by (auto simp: reflagged_def real_flags_def or.assoc)
qed

theorem set_flags_range_correct_witness:
  "\<exists>s1 t s2 s3 s4. slab_allocator vm_state = Inr ((), s1) \<and> new_page_table s1 = Inr (t, s2)
    \<and> map_page (page_map t) 0x400000 0x7000 RWX WRITE_BACK s2 = Inr (True, s3)
    \<and> set_flags_range (page_map t) 0x400000 0x1000 RWX UNCACHABLE s3 = Some (Inr (True, s4))
    \<and> mapped (page_map t) s4 0x401000 = mapped (page_map t) s3 0x401000"
proof -
  obtain s1 t s2 s3 own fl tbl e where s: "slab_allocator vm_state = Inr ((), s1)" "new_page_table s1 = Inr (t, s2)"
    "map_page (page_map t) 0x400000 0x7000 RWX WRITE_BACK s2 = Inr (True, s3)"
    "pagemap_ok {2..<64} own fl tbl (page_map t) s3" "mapped (page_map t) s3 0x400000 = Some (12, e)"
    by (rule vm_state_mapped)
  have "some_pagemap {2..<64} (page_map t) s3" using s(4) unfolding some_pagemap_def by blast
  then have "\<forall>b. in_range 0x400000 0x1000 b \<longrightarrow> (\<exists>e. mapped (page_map t) s3 b = Some (12, e))"
    unfolding one_page using mapped_same_page s(5) by metis
  then obtain s4 where s4: "set_flags_range (page_map t) 0x400000 0x1000 RWX UNCACHABLE s3 = Some (Inr (True, s4))"
    "\<forall>b. \<not> in_range 0x400000 0x1000 b \<longrightarrow> mapped (page_map t) s4 b = mapped (page_map t) s3 b"
    using set_flags_range_correct [OF s(4) RWX_small(1), of "0x1000" "0x400000" UNCACHABLE] by auto
  have "mapped (page_map t) s4 0x401000 = mapped (page_map t) s3 0x401000"
    using s4(2) unfolding one_page by (simp add: same_page_def)
  with s(1-3) s4(1) show ?thesis by blast
qed

section \<open>New page maps\<close>

text \<open>Copying entries between two tables.\<close>

definition copy_entries :: "u64 \<Rightarrow> u64 \<Rightarrow> nat list \<Rightarrow> memory \<Rightarrow> memory" where
  "copy_entries dst kt js m = fold (\<lambda>i m. store64 m (entry_at dst (of_nat i)) (load64 m (entry_at kt (of_nat i)))) js m"

lemma copy_entries_outside:
  assumes "4096 \<le> k" and "k \<le> 2 ^ 64" and "\<forall>i \<in> set js. i < 512" and "b \<notin> span dst k"
  shows "copy_entries dst kt js m b = m b"
  using assms(3)
proof (induction js arbitrary: m)
  case (Cons i js)
  have "b \<notin> span (entry_at dst (of_nat i)) 8" using entry_span [OF _ assms(1,2), of i dst] Cons.prems assms(4) by auto
  then have "store64 m (entry_at dst (of_nat i)) v b = m b" for v by (rule store64_outside)
  then show ?case using Cons by (simp add: copy_entries_def)
qed (simp add: copy_entries_def)

lemma copy_entries_ent:
  assumes t: "8 dvd unat dst" "unat dst + 4096 \<le> 2 ^ 64" and apart: "span dst 4096 \<inter> span kt 4096 = {}"
    and "\<forall>i \<in> set js. i < 512" and "j < 512"
  shows "ent (copy_entries dst kt js m) dst j = (if j \<in> set js then ent m kt j else ent m dst j)"
  using assms(4)
proof (induction js arbitrary: m)
  case (Cons i js)
  let ?m = "store64 m (entry_at dst (of_nat i)) (load64 m (entry_at kt (of_nat i)))"
  have i: "i < 512" using Cons.prems by simp
  have "span (entry_at dst (of_nat i)) 8 \<inter> span (entry_at kt (of_nat j)) 8 = {}"
    using entry_span [OF i, of 4096 dst] entry_span [OF assms(5), of 4096 kt] apart by auto
  then have k: "ent ?m kt j = ent m kt j" unfolding ent_def by (rule load64_store64_disjoint)
  have "ent ?m dst j = (if j = i then ent m kt j else ent m dst j)"
    using load64_store64_disjoint [OF entry_disjoint [OF i assms(5) _ t]] by (auto simp: ent_def)
  then show ?case using Cons k by (auto simp: copy_entries_def)
qed (simp add: copy_entries_def)

lemma pagemap_ctor_copies:
  assumes "kernel_pagemap s = Some k" and "new_page_table s = Inr (t, s1)" and "kernel_pagemap s1 = Some k"
  shows "pagemap_ctor s = Inr (page_map t, s1\<lparr>mem := copy_entries t (top_level k) [256..<512] (mem s1)\<rparr>)"
  using assms by (simp add: pagemap_ctor_def page_map_def copy_entries_def kernel_half_def fold_map comp_def del: upt_rec_numeral)

text \<open>The walk depends on the root only through the entry it reads first.\<close>

lemma hw_walk_root: "hw_entry m h r (va_index 39 va) = hw_entry m h r' (va_index 39 va) \<Longrightarrow> hw_walk m h r va = hw_walk m h r' va"
  by (simp add: hw_walk_def)

lemma table_apart:
  assumes inv: "heap_inv M own fl s" and t: "(t, k) \<in> live own fl s" "4096 \<le> k" and u: "(u, l) \<in> live own fl s" "4096 \<le> l" "t \<noteq> u"
  shows "span t 4096 \<inter> span u 4096 = {}"
proof -
  have "span t k \<inter> span u l = {}" using live_disjoint [OF inv t(1) u(1)] u(3) by simp
  moreover have "span t 4096 \<subseteq> span t k" "span u 4096 \<subseteq> span u l" using t(2) u(2) by auto
  ultimately show ?thesis by blast
qed

lemma tree_walk_cong:
  assumes "\<forall>q u j. tbl q = Some u \<longrightarrow> j < 512 \<longrightarrow> ent m' u j = ent m u j" and "\<forall>j \<in> set js. j < 512"
  shows "tree_walk tbl m' p js = tree_walk tbl m p js"
  using assms(2)
proof (induction js arbitrary: p)
  case (Cons j js)
  then show ?case using assms(1) by (cases "tbl p") (simp_all add: Let_def)
qed simp

lemma new_table_copies:
  fixes js s1
  assumes tree: "pt_tree M own fl tbl kt s" and t: "malloc 0x1000 s = Inr (t, s1)" and js: "\<forall>i \<in> set js. i < 512"
  defines "s' \<equiv> s1\<lparr>mem := copy_entries t kt js (mem s1)\<rparr>"
  obtains own' fl' n where "pt_tree M own' fl' tbl kt s'" "(t, n) \<in> live own' fl' s'" "4096 \<le> n" "fixed_part s' = fixed_part s"
    "\<forall>q u j. tbl q = Some u \<longrightarrow> j < 512 \<longrightarrow> ent (mem s') u j = ent (mem s) u j"
    "\<forall>j < 512. ent (mem s') t j = (if j \<in> set js then ent (mem s) kt j else 0)"
    "\<forall>f. fresh f s' = fresh f s1" "live own fl s \<subseteq> live own' fl' s'"
proof -
  from tree t obtain own1 fl1 n where 1: "pt_tree M own1 fl1 tbl kt s1" "4096 \<le> n"
    "live own1 fl1 s1 = insert (t, n) (live own fl s)" "\<forall>l. (t, l) \<notin> live own fl s" "keeps (live own fl s) s s1"
    "\<forall>b \<in> span t n. mem s1 b = 0" "fixed_part s1 = fixed_part s"
    "\<forall>q u j. tbl q = Some u \<longrightarrow> j < 512 \<longrightarrow> ent (mem s1) u j = ent (mem s) u j"
    by (rule pt_tree_malloc)
  note inv1 = pt_treeD(1) [OF 1(1)] and kt = pt_treeD(2) [OF tree]
  have live: "(t, n) \<in> live own1 fl1 s1" using 1(3) by simp
  note len = live_length(2) [OF inv1 live]
  note w = live_write [OF inv1 live, of "copy_entries t kt js (mem s1)", OF copy_entries_outside [OF 1(2) len js], folded s'_def]
  have keep: "keeps (live own fl s) s s'"
  proof (rule keepsI)
    fix x l b assume x: "(x, l) \<in> live own fl s" "b \<in> span x l"
    then show "mem s' b = mem s b" using keepsD [OF w(3), of x l b] keepsD [OF 1(5) x] 1(3,4) by auto
  qed
  have h: "hhdm_offset s' = hhdm_offset s" "live own fl s \<subseteq> live own1 fl1 s'" using 1(3,7) w(2) by (auto simp: s'_def fixed_part_iff)
  note tree' = pt_tree_keeps [OF tree w(1) h(2) keep h(1)]
  from tree kt obtain l where l: "4096 \<le> l" "(kt, l) \<in> live own fl s" by (rule table_live)
  have apart: "span t 4096 \<inter> span kt 4096 = {}"
    using table_apart [OF inv1 live 1(2), of kt l] l 1(3,4) by auto
  from inv1 live 1(2) obtain a where a: "unat t + n \<le> 2 ^ 64" "8 dvd unat t" by (rule big_block)
  have "ent (mem s') t j = (if j \<in> set js then ent (mem s1) kt j else ent (mem s1) t j)" if "j < 512" for j
    using copy_entries_ent [OF a(2) _ apart js that] a(1) 1(2) by (simp add: s'_def)
  moreover have "ent (mem s1) kt j = ent (mem s) kt j" "ent (mem s1) t j = 0" if "j < 512" for j
    using 1(8) kt that ent_zero(1) [OF 1(6,2) len that] by auto
  moreover have "fixed_part s' = fixed_part s" using 1(7) by (simp add: s'_def fixed_part_def)
  moreover have "fresh f s' = fresh f s1" for f
  proof (rule fresh_cong)
    have "b \<notin> span t n" if "b \<in> span (bm_buffer (bitmap s1)) 256" for b using live_apart(1) [OF inv1 live, of b] that by blast
    then have "mem s' b = mem s1 b" if "b \<in> span (bm_buffer (bitmap s1)) 256" for b
      using that copy_entries_outside [OF 1(2) len js] by (simp add: s'_def del: in_span)
    then show "page_free s' k = page_free s1 k" for k by (intro page_free_cong) (simp_all add: s'_def)
  qed (simp_all add: s'_def)
  ultimately show ?thesis using that [OF tree'(1) _ 1(2)] w(2) live tree'(2) h(2) by simp
qed

lemma pagemap_ctor_effect:
  assumes ok: "pagemap_ok M own fl tbl k s" and kp: "kernel_pagemap s = Some k" and run: "pagemap_ctor s = Inr (pm, s')"
  shows "\<exists>own' fl'. pagemap_ok M own' fl' tbl k s' \<and> (\<forall>va. mapped k s' va = mapped k s va)
    \<and> (\<forall>va. mapped pm s' va = (if 256 \<le> va_index 39 va then mapped k s va else None))
    \<and> standard pm \<and> kernel_pagemap s' = Some k"
proof -
  have st: "standard k" and tree: "pt_tree M own fl tbl (top_level k) s" using ok by (simp_all add: pagemap_ok_def)
  note inv = pt_treeD(1) [OF tree] and root = pt_treeD(2) [OF tree]
  obtain t s1 where t: "malloc 0x1000 s = Inr (t, s1)"
    using run unfolding pagemap_ctor_def new_page_table_malloc [OF inv] by (auto simp: bind_run_Inr)
  have kp1: "kernel_pagemap s1 = Some k" using kp malloc_fixed [OF t] by (cases s; cases s1) (simp add: fixed_part_iff)
  define js :: "nat list" where "js = [256..<512]"
  have js: "\<forall>i \<in> set js. i < 512" by (simp add: js_def del: upt_rec_numeral)
  have s': "pm = page_map t" "s' = s1\<lparr>mem := copy_entries t (top_level k) js (mem s1)\<rparr>"
    using run pagemap_ctor_copies [OF kp _ kp1] t new_page_table_malloc [OF inv] unfolding js_def by simp_all
  from new_table_copies [OF tree t js, folded s'(2)] obtain own' fl' n where
    1: "pt_tree M own' fl' tbl (top_level k) s'" "(t, n) \<in> live own' fl' s'" "4096 \<le> n" "fixed_part s' = fixed_part s"
      "\<forall>q u j. tbl q = Some u \<longrightarrow> j < 512 \<longrightarrow> ent (mem s') u j = ent (mem s) u j"
      "\<forall>j < 512. ent (mem s') t j = (if j \<in> set js then ent (mem s) (top_level k) j else 0)" by metis
  have ok': "pagemap_ok M own' fl' tbl k s'" using st 1(1) by (simp add: pagemap_ok_def)
  have same: "mapped k s' va = mapped k s va" for va
    unfolding mapped_tree [OF ok'] mapped_tree [OF ok] using tree_walk_cong [OF 1(5), of "va_path va"] va_path_simps(2) by simp
  from 1(1) root obtain l where l: "4096 \<le> l" "(top_level k, l) \<in> live own' fl' s'" by (rule table_live)
  let ?h = "hhdm_offset s'" and ?m = "mem s'"
  note inv' = pt_treeD(1) [OF 1(1)]
  have new: "hw_entry ?m ?h (fromhh ?h t) j = ent ?m t j" and kern: "hw_entry ?m ?h (fromhh ?h (top_level k)) j = ent ?m (top_level k) j" for j
    by (rule hw_entry_ent [OF table_root(1) [OF inv' 1(2,3)]], rule hw_entry_ent [OF table_root(1) [OF inv' l(2,1)]])
  have "mapped pm s' va = (if 256 \<le> va_index 39 va then mapped k s va else None)" for va
  proof (cases "256 \<le> va_index 39 va")
    case True
    then have "ent ?m t (va_index 39 va) = ent ?m (top_level k) (va_index 39 va)"
      using 1(5,6) root va_index_less [of 39 va] by (simp add: js_def del: upt_rec_numeral)
    then have "mapped pm s' va = mapped k s' va" unfolding mapped_def s'(1) by (auto simp: new kern intro!: hw_walk_root)
    then show ?thesis using True same by simp
  next
    case False
    then have "ent ?m t (va_index 39 va) = 0"
      using 1(6) va_index_less [of 39 va] by (simp add: js_def del: upt_rec_numeral)
    then show ?thesis using False by (simp add: mapped_def hw_walk_def s'(1) new Let_def)
  qed
  moreover have "kernel_pagemap s' = Some k" using kp1 s'(2) by simp
  ultimately show ?thesis using ok' same s'(1) by auto
qed

lemma pagemap_ctor_ready:
  assumes ok: "pagemap_ok M own fl tbl k s" and kp: "kernel_pagemap s = Some k" and f: "fresh f s" "f + 2 \<le> page_limit s"
  obtains pm s' own' fl' where "pagemap_ctor s = Inr (pm, s')" "pagemap_ok M own' fl' tbl k s'" "fresh (f + 2) s'"
    "page_limit s' = page_limit s" "live own fl s \<subseteq> live own' fl' s'"
proof -
  have st: "standard k" and tree: "pt_tree M own fl tbl (top_level k) s" using ok by (simp_all add: pagemap_ok_def)
  note inv = pt_treeD(1) [OF tree]
  have "unat (0x1000 :: u64) + 4096 \<le> 2 ^ 64" "f + pages_needed 0x1000 \<le> page_limit s" using f pages_needed_table by simp_all
  with inv f(1) obtain t s1 where t: "malloc 0x1000 s = Inr (t, s1)" "fresh (f + pages_needed 0x1000) s1" "mem_usable_top s1 = mem_usable_top s"
    by (metis malloc_fresh)
  have kp1: "kernel_pagemap s1 = Some k" using kp malloc_fixed [OF t(1)] by (cases s; cases s1) (simp add: fixed_part_iff)
  define s' where "s' = s1\<lparr>mem := copy_entries t (top_level k) [256..<512] (mem s1)\<rparr>"
  have "\<forall>i \<in> set [256..<512]. i < (512 :: nat)" by (simp del: upt_rec_numeral)
  from new_table_copies [OF tree t(1) this, folded s'_def] obtain own' fl' where
    1: "pt_tree M own' fl' tbl (top_level k) s'" "\<forall>f. fresh f s' = fresh f s1" "live own fl s \<subseteq> live own' fl' s'" by metis
  have "pagemap_ctor s = Inr (page_map t, s')"
    unfolding s'_def using pagemap_ctor_copies [OF kp _ kp1] t(1) new_page_table_malloc [OF inv] by simp
  moreover have "page_limit s' = page_limit s" using t(3) by (simp add: s'_def)
  ultimately show ?thesis using that [of _ s' own' fl'] 1 st t(2) unfolding pages_needed_table by (simp add: pagemap_ok_def)
qed

text \<open>C16: Every page map made after the kernel's own shares the kernel's half of the address space: for an address with
  top-level index 256 or more the processor finds in the new map what it finds in the kernel's, and below that the new map
  is empty. The kernel's map keeps every translation. With two pages of fresh memory the constructor succeeds.\<close>

theorem pagemap_ctor_shares:
  assumes "pagemap_ok M own fl tbl k s" and "kernel_pagemap s = Some k"
  shows "(\<forall>pm s'. pagemap_ctor s = Inr (pm, s') \<longrightarrow>
      (\<exists>own' fl'. pagemap_ok M own' fl' tbl k s') \<and> (\<forall>va. mapped k s' va = mapped k s va)
      \<and> (\<forall>va. mapped pm s' va = (if 256 \<le> va_index 39 va then mapped k s va else None)) \<and> standard pm)
    \<and> (\<forall>f. fresh f s \<and> f + 2 \<le> page_limit s \<longrightarrow> \<not> halted (pagemap_ctor s))"
proof (intro conjI allI impI)
  show "\<not> halted (pagemap_ctor s)" if "fresh f s \<and> f + 2 \<le> page_limit s" for f
    using that pagemap_ctor_ready [OF assms, of f] by (metis halted_simps(2))
qed (use pagemap_ctor_effect [OF assms] in blast)+

text \<open>The heap and the tables depend on the fields of the heap only.\<close>

lemma heap_fields:
  assumes "heap.truncate s' = heap.truncate s"
  shows "mem s' = mem s" "hhdm_offset s' = hhdm_offset s" "mem_usable_top s' = mem_usable_top s" "last_index s' = last_index s"
    "bitmap s' = bitmap s" "slabs_addr s' = slabs_addr s"
  using assms by (simp_all add: heap.truncate_def)

lemma heap_inv_fields:
  fixes s :: "'a heap_scheme" and s' :: "'b heap_scheme"
  assumes "heap.truncate s' = heap.truncate s"
  shows "heap_inv M own fl s' = heap_inv M own fl s" "live own fl s' = live own fl s" "page_free s' n = page_free s n"
proof -
  note f = heap_fields [OF assms]
  have [simp]: "page_free s' n = page_free s n" "pmm_inv M s' = pmm_inv M s" "objs own s' i = objs own s i" "page_addr s' n = page_addr s n"
    "slab_at s' i = slab_at s i" for n i
    by (simp_all add: page_free_def pmm_inv_def objs_def page_addr_def slab_at_def f)
  show "heap_inv M own fl s' = heap_inv M own fl s" "live own fl s' = live own fl s" "page_free s' n = page_free s n"
    by (simp_all add: heap_part_def heap_env_def page_ok_def slab_ok_def live_def f cong: option.case_cong owner.case_cong)
qed

lemma pagemap_ok_fields:
  assumes "heap.truncate s' = heap.truncate s"
  shows "pagemap_ok M own fl tbl pm s' = pagemap_ok M own fl tbl pm s" "mapped pm s' va = mapped pm s va" "fresh f s' = fresh f s"
proof -
  note f = heap_fields [OF assms] and h = heap_inv_fields [OF assms]
  have "entry_ok tbl s' p t i = entry_ok tbl s p t i" for p t i unfolding entry_ok_def f ..
  then show "pagemap_ok M own fl tbl pm s' = pagemap_ok M own fl tbl pm s" by (simp add: pagemap_ok_def pt_tree_def h)
  show "mapped pm s' va = mapped pm s va" by (simp add: mapped_def f)
  show "fresh f s' = fresh f s" by (simp add: fresh_def f h)
qed

theorem pagemap_ctor_shares_witness:
  "\<exists>s1 t s2 pm s3. slab_allocator vm_state = Inr ((), s1) \<and> new_page_table s1 = Inr (t, s2)
    \<and> pagemap_ctor (s2\<lparr>kernel_pagemap := Some (page_map t)\<rparr>) = Inr (pm, s3)
    \<and> mapped pm s3 0xFFFF800000000000 = mapped (page_map t) s3 0xFFFF800000000000 \<and> mapped pm s3 0x400000 = None"
proof -
  obtain s1 t s2 own fl where s: "slab_allocator vm_state = Inr ((), s1)" "new_page_table s1 = Inr (t, s2)"
    "pagemap_ok {2..<64} own fl [[] \<mapsto> t] (page_map t) s2" "fresh 14 s2" "page_limit s2 = 64" "\<forall>i < 512. ent (mem s2) t i = 0"
    by (rule vm_state_runs)
  let ?s = "s2\<lparr>kernel_pagemap := Some (page_map t)\<rparr>"
  have same: "heap.truncate ?s = heap.truncate s2" by (simp add: heap.truncate_def)
  have ok: "pagemap_ok {2..<64} own fl [[] \<mapsto> t] (page_map t) ?s" using s(3) pagemap_ok_fields(1) [OF same] by simp
  have "kernel_pagemap ?s = Some (page_map t)" by simp
  note c = pagemap_ctor_shares [OF ok this]
  have f: "fresh 14 ?s" "page_limit ?s = 64" using s(4,5) pagemap_ok_fields(3) [OF same] by simp_all
  then have "\<not> halted (pagemap_ctor ?s)" using c [THEN conjunct2, rule_format, of 14] by simp
  then obtain pm s3 where pm: "pagemap_ctor ?s = Inr (pm, s3)" by (cases "pagemap_ctor ?s") auto
  have "va_index 39 0xFFFF800000000000 = 256" "va_index 39 0x400000 = 0" by (simp_all add: va_index_def drop_bit_eq_div)
  then have "mapped pm s3 0xFFFF800000000000 = mapped (page_map t) s3 0xFFFF800000000000 \<and> mapped pm s3 0x400000 = None"
    using c pm by auto
  then show ?thesis using s(1,2) pm by blast
qed

end
