(* ===== verification/Ice_Large.thy ===== *)
theory Ice_Large
  imports Ice_Space
begin

text \<open>
  Pages of two mebibytes: what \<^verbatim>\<open>map\<close> with the flag \<^verbatim>\<open>LPAGE\<close> does to the processor's translation, and what
  \<^verbatim>\<open>virtual_to_physical\<close> makes of such a page.
\<close>

unbundle bit_operations_syntax

section \<open>Large entries\<close>

definition large_flags :: "u64 \<Rightarrow> bool" where
  "large_flags flags \<longleftrightarrow> flags AND LPAGE \<noteq> 0 \<and> flags AND LLPAGE = 0"

lemma get_page_size_large:
  assumes "standard pm" and "large_flags flags"
  shows "get_page_size pm flags = MiB2" "is_lpage flags" "MiB2 \<noteq> pm_llpage_size pm" "MiB2 \<noteq> pm_page_size pm"
  using assms by (auto simp: get_page_size_def standard_def is_lpage_def large_flags_def KiB4_def MiB2_def GiB1_def)

definition large_leaf :: "u64 \<Rightarrow> u64 \<Rightarrow> u64 \<Rightarrow> caching \<Rightarrow> u64" where
  "large_leaf v pa flags cache = pte_set_flags (pte_set_address v pa) (flags_to_arch flags OR cache_to_flags cache True) True"

text \<open>The caching modes whose page attribute bit is set.\<close>

definition pat_set :: "caching \<Rightarrow> bool" where
  "pat_set cache \<longleftrightarrow> cache \<in> {WRITE_THROUGH, WRITE_PROTECTED, WRITE_BACK}"

lemma cache_to_flags_large_bits:
  "bit (cache_to_flags c True) n \<longleftrightarrow> n = 3 \<and> c \<in> {WRITE_COMBINING, WRITE_PROTECTED} \<or> n = 4 \<and> c = WRITE_BACK \<or> n = 12 \<and> pat_set c"
  by (cases c) (auto simp: cache_to_flags_def bit_or_iff flag_bits pat_set_def)

lemma large_leaf_bits:
  assumes pa: "pa AND pa_mask = pa" "pa AND mask 21 = 0" and "is_lpage flags"
  shows "bit (large_leaf v pa flags cache) 0" "bit (large_leaf v pa flags cache) 7"
    "pte_address (large_leaf v pa flags cache) = pa OR (if pat_set cache then patlg else 0)"
    "large_leaf v pa flags cache AND pa_mask AND NOT (mask 21) = pa"
proof -
  have "\<not> (bit pa k \<and> k < 21)" "bit pa k \<Longrightarrow> k < 52" for k
    using arg_cong [OF pa(2), of "\<lambda>x. bit x k"] arg_cong [OF pa(1), of "\<lambda>x. bit x k"] bit_imp_le_length [of pa k]
    by (auto simp: bit_and_iff bit_mask_iff)
  then have lo: "bit pa k \<Longrightarrow> 21 \<le> k \<and> k < 52" for k by (meson not_le_imp_less)
  note e = entry_bit [OF pa(1), where f = "flags_to_arch flags OR cache_to_flags cache True", folded large_leaf_def]
  show "bit (large_leaf v pa flags cache) 0" "bit (large_leaf v pa flags cache) 7"
    using assms(3) by (simp_all add: e bit_or_iff flags_to_arch_bits)
  have mid: "bit (large_leaf v pa flags cache) k \<longleftrightarrow> bit pa k \<or> k = 12 \<and> pat_set cache" if "12 \<le> k" "k < 52" for k
    using that by (simp add: e bit_or_iff flags_to_arch_bits cache_to_flags_large_bits) blast
  show "pte_address (large_leaf v pa flags cache) = pa OR (if pat_set cache then patlg else 0)"
  proof (rule bit_word_eqI)
    fix k
    show "bit (pte_address (large_leaf v pa flags cache)) k = bit (pa OR (if pat_set cache then patlg else 0)) k"
      using mid [of k] lo [of k] by (cases "12 \<le> k \<and> k < 52") (auto simp: pte_address_def bit_and_iff bit_or_iff flag_bits)
  qed
  show "large_leaf v pa flags cache AND pa_mask AND NOT (mask 21) = pa"
  proof (rule bit_word_eqI)
    fix k
    show "bit (large_leaf v pa flags cache AND pa_mask AND NOT (mask 21)) k = bit pa k"
      using mid [of k] lo [of k] by (cases "12 \<le> k \<and> k < 52") (auto simp: bit_and_iff bit_not_iff bit_mask_iff)
  qed
qed

text \<open>Two addresses lie in the same large page.\<close>

definition same_large :: "u64 \<Rightarrow> u64 \<Rightarrow> bool" where
  "same_large va va' \<longleftrightarrow> va AND 0x0000FFFFFFE00000 = va' AND 0x0000FFFFFFE00000"

lemma same_large_path: "same_large va va' \<longleftrightarrow> take 3 (va_path va) = take 3 (va_path va')"
proof -
  have m: "(0x0000FFFFFFE00000 :: u64) = push_bit 21 (mask 27)" by (simp add: push_bit_eq_mult mask_eq_exp_minus_1)
  have b: "bit (x AND 0x0000FFFFFFE00000) k \<longleftrightarrow> bit x k \<and> 21 \<le> k \<and> k < 48" for x :: u64 and k
    unfolding m by (auto simp: bit_and_iff bit_push_bit_iff bit_mask_iff dest: bit_imp_le_length)
  have "same_large va va' \<longleftrightarrow> (\<forall>k. 21 \<le> k \<and> k < 48 \<longrightarrow> bit va k = bit va' k)"
    unfolding same_large_def word_bits_eq b by blast
  also have "\<dots> \<longleftrightarrow> take 3 (va_path va) = take 3 (va_path va')"
  proof -
    have "21 \<le> k \<and> k < 48 \<longleftrightarrow> 39 \<le> k \<and> k < 39 + 9 \<or> 30 \<le> k \<and> k < 30 + 9 \<or> 21 \<le> k \<and> k < 21 + 9" for k :: nat by arith
    moreover have "take 3 (va_path va) = take 3 (va_path va') \<longleftrightarrow>
        va_index 39 va = va_index 39 va' \<and> va_index 30 va = va_index 30 va' \<and> va_index 21 va = va_index 21 va'"
      by (simp add: va_path_def)
    ultimately show ?thesis by (simp only: va_index_eq) blast
  qed
  finally show ?thesis .
qed

section \<open>Mapping large pages\<close>

text \<open>No page of a gibibyte and no table of small pages stands where the large page goes.\<close>

definition large_slot :: "tables \<Rightarrow> pagemap_t \<Rightarrow> 'a heap_scheme \<Rightarrow> u64 \<Rightarrow> bool" where
  "large_slot tbl pm s va \<longleftrightarrow> tbl (take 3 (va_path va)) = None \<and> (\<forall>n e. mapped pm s va = Some (n, e) \<longrightarrow> n \<le> 21)"

lemma large_slot_path:
  assumes ok: "pagemap_ok M own fl tbl pm s" and slot: "large_slot tbl pm s va"
  shows "\<forall>q e. tree_walk tbl (mem s) [] (va_path va) = Some (q, e) \<longrightarrow> 2 \<le> length q"
  using slot unfolding large_slot_def mapped_tree [OF ok] by (auto simp: level_bits_def)

lemma prefix_take: "length p \<le> length xs \<Longrightarrow> prefix p xs \<longleftrightarrow> take (length p) xs = p"
  by (metis append_take_drop_id prefixI take_is_prefix append_eq_conv_conj prefix_def)

lemma va_path_take3: "take 3 (va_path va) = take 2 (va_path va) @ [va_path va ! 2]"
  by (simp add: va_path_def)

lemma map_page_large:
  assumes ok: "pagemap_ok M own fl tbl pm s" and lf: "large_flags flags"
    and pa: "pa AND pa_mask = pa" "pa AND mask 21 = 0" and slot: "large_slot tbl pm s va"
    and run: "map_page pm va pa flags cache s = Inr (r, s')"
  obtains own' fl' tbl' v where "r" "pagemap_ok M own' fl' tbl' pm s'" "tables_only tbl (live own fl s) (live own' fl' s') s s'"
    "\<forall>va'. mapped pm s' va' = (if same_large va va' then Some (21, large_leaf v pa flags cache) else mapped pm s va')"
    "tbl' (take 3 (va_path va)) = None"
proof -
  have pm: "standard pm" and tree: "pt_tree M own fl tbl (top_level pm) s" using ok by (simp_all add: pagemap_ok_def)
  note sz = get_page_size_large [OF pm lf]
  have run': "map_one pm va pa flags cache MiB2 s = Inr (r, s')" using run sz by (simp add: map_page_def)
  obtain x s1 where x: "virtual_to_pt_entry pm va True MiB2 s = Inr (x, s1)" using run' by (auto simp: map_one_def bind_run_Inr)
  from entry_alloc [OF tree pm size_level_simps(2) [symmetric] large_slot_path [OF ok slot] x] obtain own' fl' tbl' t where
    1: "pt_tree M own' fl' tbl' (top_level pm) s1" "tbl' (take 2 (va_path va)) = Some t" "x = entry_at t (of_nat (va_path va ! 2))"
      "grown M 2 tbl tbl' (live own fl s) (live own' fl' s1) s s1" by blast
  have i: "va_path va ! 2 < 512" and len: "length (take 2 (va_path va)) = 2" using va_path_cut(2,3) [of 2 va] by simp_all
  let ?e = "large_leaf (ent (mem s1) t (va_path va ! 2)) pa flags cache"
  have none: "tbl' (take 2 (va_path va) @ [va_path va ! 2]) = None"
    using grownD(5) [OF 1(4), of "take 3 (va_path va)"] slot va_path_split(3) [of va] unfolding large_slot_def va_path_take3 by simp
  note bits = large_leaf_bits [OF pa sz(2)]
  have x0: "x \<noteq> 0" unfolding 1(3) by (rule entry_nonzero [OF 1(1,2) i])
  have r: "r" and s': "s' = s1\<lparr>mem := store64 (mem s1) (entry_at t (of_nat (va_path va ! 2))) ?e\<rparr>"
    using run' x x0 sz(4) unfolding map_one_def large_leaf_def by (auto simp: Let_def 1(3) ent_def)
  have "?e = 0 \<or> bit ?e 0" "bit ?e 7 \<and> take 2 (va_path va) \<noteq> []" using bits(1,2) len by auto
  note u = entry_update [OF 1(1,2) i none this, folded s']
  have ok': "pagemap_ok M own' fl' tbl' pm s'" using pm u(1) by (simp add: pagemap_ok_def)
  have to: "tables_only tbl (live own fl s) (live own' fl' s') s s'"
    by (rule tables_only_trans [OF grownD(1) [OF 1(4)] u(2) grownD(3) [OF 1(4)]])
  have "prefix (take 2 (va_path va) @ [va_path va ! 2]) (va_path va') \<longleftrightarrow> same_large va va'" for va'
    unfolding va_path_take3 [symmetric] same_large_path
    using prefix_take [of "take 3 (va_path va)" "va_path va'"] va_path_split(3) [of va] va_path_simps(1) [of va'] by auto
  then have m: "\<forall>va'. mapped pm s' va' = (if same_large va va' then Some (21, ?e) else mapped pm s va')"
    unfolding mapped_tree [OF ok'] mapped_tree [OF ok] u(3) grownD(6) [OF 1(4)] using bits(1) len by (simp add: level_bits_def)
  have "tbl' (take 3 (va_path va)) = None" using none va_path_take3 [of va] by simp
  then show ?thesis by (rule that [OF r ok' to m])
qed

lemma map_page_large_returns:
  assumes ok: "pagemap_ok M own fl tbl pm s" and lf: "large_flags flags" and slot: "large_slot tbl pm s va"
    and f: "fresh f s" "f + 4 \<le> page_limit s"
  shows "\<not> halted (map_page pm va pa flags cache s)"
proof -
  have pm: "standard pm" and tree: "pt_tree M own fl tbl (top_level pm) s" using ok by (simp_all add: pagemap_ok_def)
  from tree pt_treeD(2) [OF tree] obtain k where top: "top_level pm \<noteq> 0" by (rule table_live)
  have "\<exists>t s'. descend (top_level pm) (take 2 (va_path va)) True s = Inr (t, s')"
    using descend_returns [OF tree pt_treeD(2) [OF tree], of va "take 2 (va_path va)" "va_path va ! 2 # drop 3 (va_path va)" 2 f]
      va_path_cut(1,3) [of 2 va] large_slot_path [OF ok slot] f by simp
  then show ?thesis
    unfolding map_page_def map_one_def virtual_to_pt_entry_descend [OF top pm] using get_page_size_large [OF pm lf] by (auto simp: Let_def split: if_splits)
qed

text \<open>The lookup returns the address bits of the entry, whatever the size of the page.\<close>

lemma virtual_to_physical_large:
  assumes ok: "pagemap_ok M own fl tbl pm s" and lf: "large_flags flags" and none: "tbl (take 3 (va_path va)) = None"
    and m: "mapped pm s va = Some (21, e)"
  shows "virtual_to_physical pm va flags s = Inr (pte_address e + (va AND mask 21), s)"
proof -
  have pm: "standard pm" and tree: "pt_tree M own fl tbl (top_level pm) s" using ok by (simp_all add: pagemap_ok_def)
  obtain q where q: "tree_walk tbl (mem s) [] (va_path va) = Some (q, e)" "level_bits q = 21"
    using m unfolding mapped_tree [OF ok] by auto
  obtain ks where ks: "va_path va = q @ ks" "length q = 2" "tbl q \<noteq> None"
    using tree_walk_table [OF q(1)] q(2) va_path_simps(1) [of va] by (auto simp: prefix_def level_bits_def)
  have "take 2 (va_path va) = q" using ks(1,2) by simp
  with ks(3) obtain t where t: "tbl (take 2 (va_path va)) = Some t" "q = take 2 (va_path va)" by blast
  have i: "va_path va ! 2 < 512" using va_path_cut(2) [of 2 va] by simp
  have find: "virtual_to_pt_entry pm va False MiB2 s = Inr (entry_at t (of_nat (va_path va ! 2)), s)"
    using entry_find [OF tree pm size_level_simps(2) [symmetric], of va] q(1) ks(2) t by simp
  have "tree_walk tbl (mem s) [] (va_path va) = tree_walk tbl (mem s) (take 2 (va_path va)) (drop 2 (va_path va))"
    using tree_walk_skip [OF tree, of "take 2 (va_path va)" "drop 2 (va_path va)"] t(1) va_path_cut(3,4) [of 2 va] va_path_simps(1) [of va] by simp
  moreover have "drop 2 (va_path va) = [va_path va ! 2, va_path va ! 3]" by (simp add: va_path_def)
  ultimately have e: "ent (mem s) t (va_path va ! 2) = e" "bit e 0" using q(1) t none va_path_take3 [of va] by (auto simp: Let_def split: if_splits)
  have "va mod MiB2 = va AND mask 21"
    by (simp add: MiB2_def flip: take_bit_eq_mask take_bit_eq_mod [where n = 21, simplified])
  then show ?thesis
    using find e get_page_size_large(1) [OF pm lf] entry_nonzero [OF tree t(1) i] by (simp add: virtual_to_physical_def ent_def has_present Let_def)
qed



end
