(* ===== verification/Ice_Output.thy ===== *)
theory Ice_Output
  imports Ice_Machine
begin

text \<open>
  The output side of \<^verbatim>\<open>kernel/libs/libc/stdio.cpp\<close>. An output gadget is a callback or a bounded buffer in
  memory; every conversion writes through \<^verbatim>\<open>putchar_via_gadget\<close>. The scratch array \<^verbatim>\<open>buf[32]\<close> is the list of the characters
  stored so far, so \<^verbatim>\<open>buf[len++] = c\<close> appends and \<^verbatim>\<open>len--\<close> drops the last one. Then integers: their digits, padding,
  prefix and sign, and the text that reaches the gadget.
\<close>

unbundle bit_operations_syntax

section \<open>Flags and output gadgets\<close>

abbreviation FLAGS_ZEROPAD :: u32 where "FLAGS_ZEROPAD \<equiv> 1"
abbreviation FLAGS_LEFT :: u32 where "FLAGS_LEFT \<equiv> 2"
abbreviation FLAGS_PLUS :: u32 where "FLAGS_PLUS \<equiv> 4"
abbreviation FLAGS_SPACE :: u32 where "FLAGS_SPACE \<equiv> 8"
abbreviation FLAGS_HASH :: u32 where "FLAGS_HASH \<equiv> 16"
abbreviation FLAGS_UPPERCASE :: u32 where "FLAGS_UPPERCASE \<equiv> 32"
abbreviation FLAGS_CHAR :: u32 where "FLAGS_CHAR \<equiv> 64"
abbreviation FLAGS_SHORT :: u32 where "FLAGS_SHORT \<equiv> 128"
abbreviation FLAGS_LONG :: u32 where "FLAGS_LONG \<equiv> 512"
abbreviation FLAGS_LONG_LONG :: u32 where "FLAGS_LONG_LONG \<equiv> 1024"
abbreviation FLAGS_PRECISION :: u32 where "FLAGS_PRECISION \<equiv> 2048"
abbreviation FLAGS_ADAPT_EXP :: u32 where "FLAGS_ADAPT_EXP \<equiv> 4096"
abbreviation FLAGS_POINTER :: u32 where "FLAGS_POINTER \<equiv> 8192"
abbreviation FLAGS_SIGNED :: u32 where "FLAGS_SIGNED \<equiv> 16384"

definition has :: "u32 \<Rightarrow> u32 \<Rightarrow> bool" where
  "has flags f \<longleftrightarrow> flags AND f \<noteq> 0"

abbreviation PRINTF_INTEGER_BUFFER_SIZE :: nat where "PRINTF_INTEGER_BUFFER_SIZE \<equiv> 32"
abbreviation PRINTF_MAX_POSSIBLE_BUFFER_SIZE :: u32 where "PRINTF_MAX_POSSIBLE_BUFFER_SIZE \<equiv> 0x7FFFFFFF"

record 's output_gadget_t =
  out_function :: "(char \<Rightarrow> u64 \<Rightarrow> 's \<Rightarrow> 's) option"
  extra_function_arg :: u64
  buffer :: u64
  pos :: u32
  max_chars :: u32

text \<open>The gadget together with the state its sink changes.\<close>

type_synonym 'a out = "'a machine_scheme output_gadget_t \<times> 'a machine_scheme"

definition putchar_via_gadget :: "char \<Rightarrow> 'a out \<Rightarrow> 'a out" where
  "putchar_via_gadget c out =
     (let (gadget, s) = out; write_pos = pos gadget; gadget' = gadget\<lparr>pos := write_pos + 1\<rparr> in
      if write_pos \<ge> max_chars gadget then (gadget', s)
      else case out_function gadget of
        Some f \<Rightarrow> (gadget', f c (extra_function_arg gadget) s)
      | None \<Rightarrow> (gadget', s\<lparr>mem := (mem s)(buffer gadget + ucast write_pos := of_char c)\<rparr>))"

definition append_termination_with_gadget :: "'a out \<Rightarrow> 'a out" where
  "append_termination_with_gadget out =
     (let (gadget, s) = out in
      if out_function gadget \<noteq> None \<or> max_chars gadget = 0 then out
      else if buffer gadget = 0 then out
      else let null_char_pos = (if pos gadget < max_chars gadget then pos gadget else max_chars gadget - 1)
        in (gadget, s\<lparr>mem := (mem s)(buffer gadget + ucast null_char_pos := 0)\<rparr>))"

definition discarding_gadget :: "'s output_gadget_t" where
  "discarding_gadget =
     \<lparr>out_function = None, extra_function_arg = 0, buffer = 0, pos = 0, max_chars = 0\<rparr>"

definition buffer_gadget :: "u64 \<Rightarrow> u32 \<Rightarrow> 's output_gadget_t" where
  "buffer_gadget buf buffer_size =
     (let usable_buffer_size = (if buffer_size > PRINTF_MAX_POSSIBLE_BUFFER_SIZE
        then PRINTF_MAX_POSSIBLE_BUFFER_SIZE else buffer_size); result = discarding_gadget in
      if buf \<noteq> 0 then result\<lparr>buffer := buf, max_chars := usable_buffer_size\<rparr> else result)"

definition function_gadget :: "(char \<Rightarrow> u64 \<Rightarrow> 's \<Rightarrow> 's) \<Rightarrow> u64 \<Rightarrow> 's output_gadget_t" where
  "function_gadget f extra_arg =
     discarding_gadget\<lparr>out_function := Some f, extra_function_arg := extra_arg,
       max_chars := PRINTF_MAX_POSSIBLE_BUFFER_SIZE\<rparr>"

section \<open>Integers\<close>

text \<open>\<^verbatim>\<open>for (i = len; i < width; i++) putchar_via_gadget(output, ' ')\<close>.\<close>

function pad_from :: "u32 \<Rightarrow> u32 \<Rightarrow> 'a out \<Rightarrow> 'a out" where
  "pad_from i width out = (if i < width then pad_from (i + 1) width (putchar_via_gadget CHR '' '' out) else out)"
  by pat_completeness auto
termination
  by (relation "measure (\<lambda>(i, width, out). unat width - unat i)")
    (auto simp: unat_plus_one word_less_nat_alt)

lemma pos_putchar [simp]: "pos (fst (putchar_via_gadget c out)) = pos (fst out) + 1"
  by (auto simp: putchar_via_gadget_def Let_def split: prod.splits option.splits)

text \<open>\<^verbatim>\<open>while (output->pos - start_pos < width) putchar_via_gadget(output, ' ')\<close>.\<close>

function pad_until :: "u32 \<Rightarrow> u32 \<Rightarrow> 'a out \<Rightarrow> 'a out" where
  "pad_until start_pos width out =
     (if pos (fst out) - start_pos < width
      then pad_until start_pos width (putchar_via_gadget CHR '' '' out) else out)"
  by pat_completeness auto
termination
proof (relation "measure (\<lambda>(start_pos, width, out). unat width - unat (pos (fst out) - start_pos))", goal_cases)
  case (2 start_pos width out)
  then have "unat (pos (fst out) - start_pos + 1) = Suc (unat (pos (fst out) - start_pos))"
    by (rule unat_plus_one)
  then show ?case
    using 2 by (simp add: word_less_nat_alt add_diff_eq [symmetric] diff_add_eq)
qed simp

definition out_rev :: "string \<Rightarrow> u32 \<Rightarrow> u32 \<Rightarrow> 'a out \<Rightarrow> 'a out" where
  "out_rev buf width flags out =
     (let start_pos = pos (fst out);
          out1 = (if \<not> has flags FLAGS_LEFT \<and> \<not> has flags FLAGS_ZEROPAD
                  then pad_from (of_nat (length buf)) width out else out);
          out2 = fold putchar_via_gadget (rev buf) out1
      in if has flags FLAGS_LEFT then pad_until start_pos width out2 else out2)"

text \<open>\<^verbatim>\<open>while (len < bound && len < PRINTF_INTEGER_BUFFER_SIZE) buf[len++] = '0'\<close>.\<close>

function zero_pad :: "u32 \<Rightarrow> string \<Rightarrow> string" where
  "zero_pad bound buf =
     (if of_nat (length buf) < bound \<and> length buf < PRINTF_INTEGER_BUFFER_SIZE
      then zero_pad bound (buf @ ''0'') else buf)"
  by pat_completeness auto
termination
  by (relation "measure (\<lambda>(bound, buf). PRINTF_INTEGER_BUFFER_SIZE - length buf)") auto

definition push_char :: "string \<Rightarrow> char \<Rightarrow> string" where
  "push_char buf c = (if length buf < PRINTF_INTEGER_BUFFER_SIZE then buf @ [c] else buf)"

text \<open>The block marked \<^verbatim>\<open>handle hash\<close>: make room for and append the reversed base prefix.\<close>

definition hash_prefix :: "string \<Rightarrow> nat \<Rightarrow> u8 \<Rightarrow> u32 \<Rightarrow> u32 \<Rightarrow> u32 \<Rightarrow> string" where
  "hash_prefix buf unpadded_len base precision width flags =
     (let buf1 = (if \<not> has flags FLAGS_PRECISION \<and> buf \<noteq> []
              \<and> (of_nat (length buf) = precision \<or> of_nat (length buf) = width)
            then
              let b = (if unpadded_len < length buf then butlast buf else buf)
              in if b \<noteq> [] \<and> (base = 16 \<or> base = 2) \<and> unpadded_len < length b then butlast b else b
            else buf);
          buf2 = (if base = 16 \<and> \<not> has flags FLAGS_UPPERCASE \<and> length buf1 < PRINTF_INTEGER_BUFFER_SIZE
              then buf1 @ ''x''
            else if base = 16 \<and> has flags FLAGS_UPPERCASE \<and> length buf1 < PRINTF_INTEGER_BUFFER_SIZE
              then buf1 @ ''X''
            else if base = 2 \<and> length buf1 < PRINTF_INTEGER_BUFFER_SIZE then buf1 @ ''b''
            else buf1)
      in push_char buf2 CHR ''0'')"

definition push_sign :: "string \<Rightarrow> bool \<Rightarrow> u32 \<Rightarrow> string" where
  "push_sign buf negative flags =
     (if length buf < PRINTF_INTEGER_BUFFER_SIZE
      then (if negative then buf @ ''-''
            else if has flags FLAGS_PLUS then buf @ ''+''
            else if has flags FLAGS_SPACE then buf @ '' '' else buf)
      else buf)"

text \<open>The contents of \<^verbatim>\<open>buf\<close>, the width and the flags with which
  \<^verbatim>\<open>print_integer_finalization\<close> calls \<^verbatim>\<open>out_rev\<close>.\<close>

definition finalized_buffer ::
  "string \<Rightarrow> bool \<Rightarrow> u8 \<Rightarrow> u32 \<Rightarrow> u32 \<Rightarrow> u32 \<Rightarrow> string \<times> u32 \<times> u32" where
  "finalized_buffer buf0 negative base precision width0 flags0 =
     (let unpadded_len = length buf0;
          width = (if \<not> has flags0 FLAGS_LEFT \<and> width0 \<noteq> 0 \<and> has flags0 FLAGS_ZEROPAD
                      \<and> (negative \<or> has flags0 (FLAGS_PLUS OR FLAGS_SPACE)) then width0 - 1 else width0);
          buf1 = (if \<not> has flags0 FLAGS_LEFT \<and> has flags0 FLAGS_ZEROPAD then zero_pad width buf0 else buf0);
          buf2 = zero_pad precision buf1;
          flags = (if base = 8 \<and> length buf2 > unpadded_len then flags0 AND NOT FLAGS_HASH else flags0);
          buf3 = (if has flags (FLAGS_HASH OR FLAGS_POINTER)
                  then hash_prefix buf2 unpadded_len base precision width flags else buf2)
      in (push_sign buf3 negative flags, width, flags))"

definition print_integer_finalization ::
  "string \<Rightarrow> bool \<Rightarrow> u8 \<Rightarrow> u32 \<Rightarrow> u32 \<Rightarrow> u32 \<Rightarrow> 'a out \<Rightarrow> 'a out" where
  "print_integer_finalization buf negative base precision width flags out =
     (case finalized_buffer buf negative base precision width flags of
        (buf', width', flags') \<Rightarrow> out_rev buf' width' flags' out)"

definition digit_char :: "u32 \<Rightarrow> nat \<Rightarrow> char" where
  "digit_char flags digit =
     (if digit < 10 then char_of (48 + digit)
      else char_of ((if has flags FLAGS_UPPERCASE then 65 else 97) + digit - 10))"

text \<open>\<^verbatim>\<open>do { buf[len++] = digit; value /= base; } while (value && len < 32)\<close>.\<close>

function digits_loop :: "u32 \<Rightarrow> u8 \<Rightarrow> u64 \<Rightarrow> string \<Rightarrow> string" where
  "digits_loop flags base value buf =
     (let buf' = buf @ [digit_char flags (unat (value mod ucast base))];
          value' = value div ucast base
      in if value' \<noteq> 0 \<and> length buf' < PRINTF_INTEGER_BUFFER_SIZE
         then digits_loop flags base value' buf' else buf')"
  by pat_completeness auto
termination
  by (relation "measure (\<lambda>(flags, base, value, buf). PRINTF_INTEGER_BUFFER_SIZE - length buf)") auto

definition print_integer ::
  "u64 \<Rightarrow> bool \<Rightarrow> u8 \<Rightarrow> u32 \<Rightarrow> u32 \<Rightarrow> u32 \<Rightarrow> 'a out \<Rightarrow> 'a out" where
  "print_integer value negative base precision width flags out =
     (let (buf, flags') =
        (if value = 0
         then (if \<not> has flags FLAGS_PRECISION then (''0'', flags AND NOT FLAGS_HASH)
               else if base = 16 then ([], flags AND NOT FLAGS_HASH)
               else ([], flags))
         else (digits_loop flags base value [], flags))
      in print_integer_finalization buf negative base precision width flags' out)"

text \<open>\<^verbatim>\<open>ABS_FOR_PRINTING\<close> on a value sign-extended to 64 bits.\<close>

definition abs_for_printing :: "u64 \<Rightarrow> u64" where
  "abs_for_printing x = (if sint x > 0 then x else - x)"

declare pad_from.simps [simp del] pad_until.simps [simp del] zero_pad.simps [simp del]
  digits_loop.simps [simp del]

section \<open>Output as text\<close>

text \<open>Sending a text through a gadget, the field a text occupies, and the decimal and
  hexadecimal notation of a number.\<close>

definition emit :: "string \<Rightarrow> 'a out \<Rightarrow> 'a out" where
  "emit cs out = fold putchar_via_gadget cs out"

definition pad_field :: "u32 \<Rightarrow> u32 \<Rightarrow> string \<Rightarrow> string" where
  "pad_field width flags cs =
     (let pad = replicate (unat width - length cs) CHR '' '' in
      if has flags FLAGS_LEFT then cs @ pad
      else if has flags FLAGS_ZEROPAD then cs else pad @ cs)"

fun num_text :: "u32 \<Rightarrow> nat \<Rightarrow> nat \<Rightarrow> string" where
  "num_text flags base n =
     (if n < base \<or> base < 2 then [digit_char flags n]
      else num_text flags base (n div base) @ [digit_char flags (n mod base)])"

definition int_text :: "int \<Rightarrow> string" where
  "int_text i = (if i < 0 then ''-'' else []) @ num_text 0 10 (nat \<bar>i\<bar>)"

declare num_text.simps [simp del]

lemma emit_simps [simp]:
  "emit [] out = out" "emit (c # cs) out = emit cs (putchar_via_gadget c out)"
  by (simp_all add: emit_def)

lemma emit_append: "emit (xs @ ys) out = emit ys (emit xs out)"
  by (simp add: emit_def)

lemma pos_emit: "pos (fst (emit cs out)) = pos (fst out) + of_nat (length cs)"
  by (induction cs arbitrary: out) (auto simp: add.assoc)

lemma pad_from_emit: "pad_from i width out = emit (replicate (unat width - unat i) CHR '' '') out"
proof (induction i width out rule: pad_from.induct)
  case (1 i width out)
  show ?case
  proof (cases "i < width")
    case True
    then have "unat width - unat i = Suc (unat width - unat (i + 1))"
      by (simp add: unat_plus_one word_less_nat_alt)
    then show ?thesis using 1 True by (simp add: pad_from.simps [of i])
  next
    case False
    then show ?thesis by (simp add: pad_from.simps [of i] word_less_nat_alt)
  qed
qed

lemma pad_until_emit:
  "pad_until start_pos width out = emit (replicate (unat width - unat (pos (fst out) - start_pos)) CHR '' '') out"
proof (induction start_pos width out rule: pad_until.induct)
  case (1 start_pos width out)
  show ?case
  proof (cases "pos (fst out) - start_pos < width")
    case True
    then have "unat (pos (fst out) + 1 - start_pos) = Suc (unat (pos (fst out) - start_pos))"
      using unat_plus_one [OF True] by (simp add: diff_add_eq)
    then have "unat width - unat (pos (fst out) - start_pos) = Suc (unat width - unat (pos (fst out) + 1 - start_pos))"
      using True by (simp add: word_less_nat_alt)
    then show ?thesis using 1 True by (simp add: pad_until.simps [of start_pos])
  next
    case False
    then show ?thesis by (simp add: pad_until.simps [of start_pos] word_less_nat_alt)
  qed
qed

lemma out_rev_emit:
  assumes "length buf < 2 ^ 32"
  shows "out_rev buf width flags out = emit (pad_field width flags (rev buf)) out"
proof -
  have n: "unat (of_nat (length buf) :: u32) = length buf"
    using assms by (simp add: unat_of_nat)
  have "out_rev buf width flags out =
    (if has flags FLAGS_LEFT then pad_until (pos (fst out)) width (emit (rev buf) out)
     else if has flags FLAGS_ZEROPAD then emit (rev buf) out
     else emit (rev buf) (pad_from (of_nat (length buf)) width out))"
    by (simp add: out_rev_def Let_def emit_def)
  then show ?thesis
    by (simp add: pad_until_emit pad_from_emit pos_emit n pad_field_def Let_def emit_append)
qed

section \<open>The scratch buffer\<close>

lemma zero_pad_length: "length buf \<le> 32 \<Longrightarrow> length buf \<le> length (zero_pad b buf) \<and> length (zero_pad b buf) \<le> 32"
proof (induction b buf rule: zero_pad.induct)
  case (1 b buf)
  then show ?case by (subst (1 2) zero_pad.simps) (auto split: if_splits)
qed

lemma digits_loop_length:
  "length buf < 32 \<Longrightarrow> length buf < length (digits_loop flags base v buf)
    \<and> length (digits_loop flags base v buf) \<le> 32"
proof (induction flags base v buf rule: digits_loop.induct)
  case (1 flags base v buf)
  then show ?case
    by (subst (1 2) digits_loop.simps) (fastforce simp: Let_def)
qed

lemma hash_prefix_length: "length buf \<le> 32 \<Longrightarrow> length (hash_prefix buf u base precision width flags) \<le> 32"
proof -
  assume buf: "length buf \<le> 32"
  let ?b = "if u < length buf then butlast buf else buf"
  let ?b1 = "if \<not> has flags FLAGS_PRECISION \<and> buf \<noteq> []
      \<and> (of_nat (length buf) = precision \<or> of_nat (length buf) = width)
    then (if ?b \<noteq> [] \<and> (base = 16 \<or> base = 2) \<and> u < length ?b then butlast ?b else ?b) else buf"
  have "length ?b \<le> 32" using buf by auto
  then have "length ?b1 \<le> 32" using buf by (auto split: if_splits)
  moreover have "length b1 \<le> 32 \<Longrightarrow> length (push_char (if p1 \<and> length b1 < 32 then b1 @ ''x''
      else if p2 \<and> length b1 < 32 then b1 @ ''X'' else if p3 \<and> length b1 < 32 then b1 @ ''b'' else b1) c) \<le> 32"
    for b1 p1 p2 p3 c by (simp add: push_char_def)
  ultimately show ?thesis
    unfolding hash_prefix_def Let_def conj_assoc [symmetric] by blast
qed

lemma push_sign_length: "length buf \<le> 32 \<Longrightarrow> length (push_sign buf negative flags) \<le> 32"
  by (simp add: push_sign_def)

lemma finalized_buffer_length:
  assumes "length buf \<le> 32"
  shows "length (fst (finalized_buffer buf negative base precision width flags)) \<le> 32"
proof -
  have "length (zero_pad precision (if c then zero_pad w buf else buf)) \<le> 32" for c w
    using zero_pad_length [of "zero_pad w buf"] zero_pad_length [OF assms] assms by auto
  then show ?thesis
    by (simp add: finalized_buffer_def Let_def push_sign_length hash_prefix_length)
qed

lemma finalization_emit:
  assumes "length buf \<le> 32"
  shows "print_integer_finalization buf negative base precision width flags out =
    emit (case finalized_buffer buf negative base precision width flags of
      (buf', width', flags') \<Rightarrow> pad_field width' flags' (rev buf')) out"
proof -
  obtain b w f where fb: "finalized_buffer buf negative base precision width flags = (b, w, f)"
    by (cases "finalized_buffer buf negative base precision width flags") auto
  then have "length b \<le> 32" using finalized_buffer_length [OF assms, of negative base precision width flags] by simp
  then have "out_rev b w f out = emit (pad_field w f (rev b)) out" by (intro out_rev_emit) simp
  then show ?thesis by (simp add: print_integer_finalization_def fb)
qed

text \<open>An output operation that sends a fixed text, whatever the gadget and the state.\<close>

definition emits :: "('a out \<Rightarrow> 'a out) \<Rightarrow> bool" where
  "emits f \<longleftrightarrow> (\<exists>cs. \<forall>out. f out = emit cs out)"

lemma emitsI: "(\<And>out. f out = emit cs out) \<Longrightarrow> emits f"
  by (auto simp: emits_def)

lemma emits_putchar: "emits (putchar_via_gadget c)"
  by (rule emitsI [of _ "[c]"]) simp

lemma emits_pad: "emits (pad_from i width)"
  by (rule emitsI) (rule pad_from_emit)

lemma emits_id: "emits (\<lambda>out. out)"
  by (rule emitsI [of _ "[]"]) simp

lemma emits_if: "emits f \<Longrightarrow> emits g \<Longrightarrow> emits (\<lambda>out. if c then f out else g out)"
  by (cases c) simp_all

lemma emits_out_rev: "length buf < 2 ^ 32 \<Longrightarrow> emits (out_rev buf width flags)"
  by (rule emitsI) (rule out_rev_emit)

lemma emits_integer: "emits (print_integer v negative base precision width flags)"
proof -
  have fin: "emits (print_integer_finalization b negative base precision width f)" if "length b \<le> 32" for b f
    by (rule emitsI) (rule finalization_emit [OF that])
  have "length (digits_loop flags base v []) \<le> 32"
    using digits_loop_length [of "[]" flags base v] by simp
  from fin [OF this] fin [of "[]"] fin [of "''0''"] show ?thesis
    unfolding print_integer_def Let_def by (auto split: prod.splits)
qed

lemma emits_prod: "(\<And>a b. emits (g a b)) \<Longrightarrow> emits (\<lambda>out. case x of (a, b) \<Rightarrow> g a b out)"
  by (cases x) simp

lemma length_num_text: "2 \<le> base \<Longrightarrow> n < base ^ k \<Longrightarrow> 0 < k \<Longrightarrow> length (num_text flags base n) \<le> k"
proof (induction flags base n arbitrary: k rule: num_text.induct)
  case (1 flags base n)
  show ?case
  proof (cases "n < base")
    case False
    obtain j where k: "k = Suc j" using 1(4) by (cases k) auto
    then have j: "0 < j" using False 1(3) by (cases j) auto
    have "n div base < base ^ j" using 1(2,3) k by (simp add: less_mult_imp_div_less mult.commute)
    then show ?thesis using 1(1) [of j] False 1(2) j k by (simp add: num_text.simps [of flags base n])
  qed (use 1 in \<open>simp add: num_text.simps [of flags base n]\<close>)
qed

text \<open>The digit loop computes the notation of the value when it fits in the scratch array.\<close>

lemma digits_loop_text:
  assumes "2 \<le> unat base" and "length buf + k \<le> 32" and "unat v < unat base ^ k" and "0 < k"
  shows "rev (digits_loop flags base v buf) = num_text flags (unat base) (unat v) @ rev buf"
  using assms
proof (induction flags base v buf arbitrary: k rule: digits_loop.induct)
  case (1 flags base v buf)
  let ?b = "unat base"
  have b: "unat (ucast base :: u64) = ?b" by simp
  have dm: "unat (v div ucast base) = unat v div ?b" "unat (v mod ucast base) = unat v mod ?b"
    by (simp_all add: unat_div unat_mod)
  show ?case
  proof (cases "unat v < ?b")
    case True
    then have "v div ucast base = 0" by (simp add: word_unat_eq_iff dm)
    then show ?thesis
      using True 1(2) by (simp add: digits_loop.simps [of flags base v] num_text.simps [of flags ?b] Let_def dm)
  next
    case False
    obtain j where k: "k = Suc j" using 1(5) by (cases k) auto
    then have j: "0 < j" using False 1(4) by (cases j) auto
    have "v div ucast base \<noteq> 0" using False 1(2) by (auto simp: word_unat_eq_iff dm div_greater_zero_iff)
    moreover have "unat (v div ucast base) < ?b ^ j"
      using 1(4) k by (simp add: dm less_mult_imp_div_less mult.commute)
    ultimately show ?thesis
      using 1(1) [of "buf @ [digit_char flags (unat (v mod ucast base))]" "v div ucast base" j] False 1(2,3) j k
      by (simp add: digits_loop.simps [of flags base v] num_text.simps [of flags ?b "unat v"] Let_def dm)
  qed
qed

lemma has_subset: "flags AND m = 0 \<Longrightarrow> m AND f = f \<Longrightarrow> \<not> has flags f"
proof -
  assume "flags AND m = 0" and f: "m AND f = f"
  have "flags AND f = flags AND (m AND f)" by (simp only: f)
  also have "\<dots> = (flags AND m) AND f" by (simp only: and.assoc)
  also have "\<dots> = 0" using \<open>flags AND m = 0\<close> by simp
  finally show ?thesis by (simp add: has_def)
qed

text \<open>Without flags that add characters and without a precision, an integer prints as its
  digits behind its sign, aligned in its field.\<close>

lemma print_integer_plain:
  assumes b: "8 \<le> unat base" and f: "flags AND 0x281D = 0"
  shows "print_integer v negative base 0 width flags out =
    emit (pad_field width flags ((if negative then ''-'' else []) @ num_text flags (unat base) (unat v))) out"
proof -
  have no: "\<not> has flags FLAGS_ZEROPAD" "\<not> has flags (FLAGS_HASH OR FLAGS_POINTER)" "\<not> has flags FLAGS_PLUS"
    "\<not> has flags FLAGS_SPACE" "\<not> has flags FLAGS_PRECISION"
    by (rule has_subset [OF f], simp)+
  have "flags = (flags AND FLAGS_HASH) OR (flags AND NOT FLAGS_HASH)"
    by (simp flip: bit.conj_disj_distrib)
  moreover have "\<not> has flags FLAGS_HASH" by (rule has_subset [OF f]) simp
  ultimately have keep: "flags AND NOT FLAGS_HASH = flags" by (simp add: has_def)
  have "unat v < 2 ^ 64" using unsigned_less [of v, where 'a = nat] by simp
  also have "(2 :: nat) ^ 64 \<le> 8 ^ 22" by simp
  also have "(8 :: nat) ^ 22 \<le> unat base ^ 22" using b by (rule power_mono) simp
  finally have v: "unat v < unat base ^ 22" .
  have zero: "char_of (48 :: nat) = CHR ''0''" by code_simp
  have digits: "rev (if v = 0 then ''0'' else digits_loop flags base v []) = num_text flags (unat base) (unat v)" (is "rev ?buf = _")
    using digits_loop_text [of base "[]" 22 v flags] v b by (auto simp: num_text.simps [of _ _ 0] digit_char_def zero)
  have len: "length ?buf \<le> 22"
    using length_num_text [of "unat base" "unat v" 22 flags] v b digits [symmetric] by simp
  have zp: "zero_pad 0 buf = buf" for buf by (simp add: zero_pad.simps)
  have fb: "finalized_buffer buf negative base 0 width flags = (push_sign buf negative flags, width, flags)" for buf
    using no by (auto simp: finalized_buffer_def Let_def zp)
  have "print_integer v negative base 0 width flags out = print_integer_finalization ?buf negative base 0 width flags out"
    using no keep by (auto simp: print_integer_def)
  also have "\<dots> = emit (pad_field width flags (rev (push_sign ?buf negative flags))) out"
    using len by (subst finalization_emit) (auto simp only: fb)
  also have "rev (push_sign ?buf negative flags) = (if negative then ''-'' else []) @ rev ?buf"
    using len no by (simp add: push_sign_def)
  finally show ?thesis by (simp only: digits)
qed


lemma num_text_flags: "\<not> has flags FLAGS_UPPERCASE \<Longrightarrow> num_text flags base n = num_text 0 base n"
proof (induction flags base n rule: num_text.induct)
  case (1 flags base n)
  have "digit_char flags d = digit_char 0 d" for d using 1(2) by (simp add: digit_char_def has_def)
  then show ?case using 1 by (simp add: num_text.simps [of _ base n])
qed

lemma abs_for_printing_nat: "unat (abs_for_printing v) = nat \<bar>sint v\<bar>"
proof -
  have range: "- (2 ^ 63) \<le> sint v" "sint v < 2 ^ 63"
    using sint_range_size [of v] by (simp_all add: word_size)
  have u: "uint v = sint v mod 2 ^ 64" by (simp add: uint_sint take_bit_eq_mod)
  have "uint (abs_for_printing v) = \<bar>sint v\<bar>"
  proof (cases "0 < sint v")
    case True
    then show ?thesis using u range by (simp add: abs_for_printing_def)
  next
    case False
    then have "uint (- v) = (- sint v) mod 2 ^ 64" by (simp add: uint_word_ariths u mod_minus_eq)
    then show ?thesis using False range by (simp add: abs_for_printing_def)
  qed
  then show ?thesis by (metis nat_uint_eq)
qed

lemma pad_field_0: "pad_field 0 flags cs = cs"
  by (simp add: pad_field_def)

lemma scast_sext: "sint (scast (w :: i32) :: u64) = sint w"
proof -
  have "- (2 ^ 31) \<le> sint w" "sint w < 2 ^ 31" using sint_range_size [of w] by (simp_all add: word_size)
  then show ?thesis by (simp add: signed_scast_eq signed_take_bit_int_eq_self)
qed

text \<open>C28: The scratch array of 32 characters is never overrun, whatever the value, base, flags,
  width and precision: the digits, the zero padding, the base prefix and the sign together stay
  within it, and the conversion sends exactly the finished array, reversed, in its field.\<close>

theorem print_integer_scratch_bound:
  "\<exists>buf width' flags'. length buf \<le> PRINTF_INTEGER_BUFFER_SIZE
    \<and> length (digits_loop flags base v []) \<le> PRINTF_INTEGER_BUFFER_SIZE
    \<and> (\<forall>out. print_integer v negative base precision width flags out = emit (pad_field width' flags' (rev buf)) out)"
proof -
  let ?b = "if v = 0 then (if has flags FLAGS_PRECISION then [] else ''0'') else digits_loop flags base v []"
  let ?f = "if v = 0 \<and> (has flags FLAGS_PRECISION \<longrightarrow> base = 16) then flags AND NOT FLAGS_HASH else flags"
  obtain b f where "b = ?b" "f = ?f" by blast
  then have b: "length b \<le> 32"
    "\<And>out. print_integer v negative base precision width flags out =
      print_integer_finalization b negative base precision width f out"
    using digits_loop_length [of "[]" flags base v] by (simp_all add: print_integer_def)
  obtain b' w' f' where fb: "finalized_buffer b negative base precision width f = (b', w', f')"
    by (cases "finalized_buffer b negative base precision width f") auto
  moreover have "length b' \<le> 32"
    using finalized_buffer_length [OF b(1), of negative base precision width f] fb by simp
  ultimately show ?thesis
    using digits_loop_length [of "[]" flags base v] by (auto simp: b finalization_emit [OF b(1)])
qed

end
