(* ===== verification/Ice_Double.thy ===== *)
theory Ice_Double
  imports Ice_Prelude
begin

text \<open>
  The type \<^verbatim>\<open>double\<close> of the target: IEEE-754 binary64 with rounding to nearest, ties to even, as the SSE2 instructions
  of x86-64 compute it (the build sets \<^verbatim>\<open>-fno-fast-math\<close>). A double is its 64-bit pattern. Every finite double is an integer
  multiple of \<open>2 ^ - 1074\<close>, so its magnitude is a natural number in that unit, and the exact result of an operation is a
  fraction of two such numbers, which \<open>round_double\<close> brings back to a pattern.
\<close>

unbundle bit_operations_syntax

section \<open>Patterns and magnitudes\<close>

type_synonym double = u64

definition dbl_sign :: "double \<Rightarrow> bool" where
  "dbl_sign x \<longleftrightarrow> 2 ^ 63 \<le> unat x"

definition dbl_exp :: "double \<Rightarrow> nat" where
  "dbl_exp x = unat x div 2 ^ 52 mod 2 ^ 11"

definition dbl_man :: "double \<Rightarrow> nat" where
  "dbl_man x = unat x mod 2 ^ 52"

definition is_nan :: "double \<Rightarrow> bool" where
  "is_nan x \<longleftrightarrow> dbl_exp x = 2047 \<and> dbl_man x \<noteq> 0"

definition is_inf :: "double \<Rightarrow> bool" where
  "is_inf x \<longleftrightarrow> dbl_exp x = 2047 \<and> dbl_man x = 0"

abbreviation unit_of_one :: nat where
  "unit_of_one \<equiv> 2 ^ 1074"

text \<open>The magnitude of an infinity exceeds that of every finite number, so comparisons need no case for it.\<close>

definition mag :: "double \<Rightarrow> nat" where
  "mag x = (if dbl_exp x = 0 then dbl_man x else (2 ^ 52 + dbl_man x) * 2 ^ (dbl_exp x - 1))"

definition dbl_val :: "double \<Rightarrow> int" where
  "dbl_val x = (if dbl_sign x then - int (mag x) else int (mag x))"

section \<open>Rounding\<close>

fun bit_length :: "nat \<Rightarrow> nat" where
  "bit_length n = (if n = 0 then 0 else Suc (bit_length (n div 2)))"

definition round_half_even :: "nat \<Rightarrow> nat \<Rightarrow> nat" where
  "round_half_even n d =
     (let q = n div d; r = n mod d in if d < 2 * r \<or> d = 2 * r \<and> odd q then q + 1 else q)"

text \<open>The double nearest to \<open>n / d\<close> units: \<open>k\<close> low bits of the quotient are rounded away so that 53 remain. A carry out of
  them runs into the exponent, and past the largest exponent lies infinity.\<close>

definition round_double :: "bool \<Rightarrow> nat \<Rightarrow> nat \<Rightarrow> double" where
  "round_double s n d =
     (let k = bit_length (n div d) - 53; r = round_half_even n (d * 2 ^ k)
      in (if s then 2 ^ 63 else 0) + of_nat (min (k * 2 ^ 52 + r) (2047 * 2 ^ 52)))"

section \<open>Operations\<close>

definition dbl_inf :: "bool \<Rightarrow> double" where
  "dbl_inf s = (if s then 0xFFF0000000000000 else 0x7FF0000000000000)"

definition invalid :: double where
  "invalid = 0xFFF8000000000000"

text \<open>A result with a NaN operand is the first of them, made quiet.\<close>

definition with_nan :: "double \<Rightarrow> double \<Rightarrow> double \<Rightarrow> double" where
  "with_nan x y r =
     (if is_nan x then x OR 0x0008000000000000 else if is_nan y then y OR 0x0008000000000000 else r)"

definition dbl_neg :: "double \<Rightarrow> double" where
  "dbl_neg x = x XOR 0x8000000000000000"

definition dbl_add :: "double \<Rightarrow> double \<Rightarrow> double" where
  "dbl_add x y = with_nan x y
     (if is_inf x then (if is_inf y \<and> dbl_sign x \<noteq> dbl_sign y then invalid else x)
      else if is_inf y then y
      else let v = dbl_val x + dbl_val y
        in if v = 0 then (if dbl_sign x \<and> dbl_sign y then 0x8000000000000000 else 0)
           else round_double (v < 0) (nat \<bar>v\<bar>) 1)"

definition dbl_sub :: "double \<Rightarrow> double \<Rightarrow> double" where
  "dbl_sub x y = with_nan x y (dbl_add x (dbl_neg y))"

definition dbl_mul :: "double \<Rightarrow> double \<Rightarrow> double" where
  "dbl_mul x y = with_nan x y
     (let s = (dbl_sign x \<noteq> dbl_sign y) in
      if is_inf x \<or> is_inf y then (if mag x = 0 \<or> mag y = 0 then invalid else dbl_inf s)
      else round_double s (mag x * mag y) unit_of_one)"

definition dbl_div :: "double \<Rightarrow> double \<Rightarrow> double" where
  "dbl_div x y = with_nan x y
     (let s = (dbl_sign x \<noteq> dbl_sign y) in
      if is_inf x then (if is_inf y then invalid else dbl_inf s)
      else if is_inf y then round_double s 0 1
      else if mag y = 0 then (if mag x = 0 then invalid else dbl_inf s)
      else round_double s (mag x * unit_of_one) (mag y))"

definition dbl_lt :: "double \<Rightarrow> double \<Rightarrow> bool" where
  "dbl_lt x y \<longleftrightarrow> \<not> is_nan x \<and> \<not> is_nan y \<and> dbl_val x < dbl_val y"

definition dbl_le :: "double \<Rightarrow> double \<Rightarrow> bool" where
  "dbl_le x y \<longleftrightarrow> \<not> is_nan x \<and> \<not> is_nan y \<and> dbl_val x \<le> dbl_val y"

definition dbl_eq :: "double \<Rightarrow> double \<Rightarrow> bool" where
  "dbl_eq x y \<longleftrightarrow> \<not> is_nan x \<and> \<not> is_nan y \<and> dbl_val x = dbl_val y"

text \<open>Conversions: from an integer, from the decimal literal \<open>n / d\<close>, and the truncating cast to a signed integer of \<open>w\<close>
  bits, which is undefined when the truncated value is out of range.\<close>

definition dbl_of_int :: "int \<Rightarrow> double" where
  "dbl_of_int i = round_double (i < 0) (nat \<bar>i\<bar> * unit_of_one) 1"

definition dbl_literal :: "nat \<Rightarrow> nat \<Rightarrow> double" where
  "dbl_literal n d = round_double False (n * unit_of_one) d"

definition dbl_trunc :: "double \<Rightarrow> int" where
  "dbl_trunc x = (if dbl_sign x then - int (mag x div unit_of_one) else int (mag x div unit_of_one))"

definition dbl_to_int :: "nat \<Rightarrow> double \<Rightarrow> int option" where
  "dbl_to_int w x =
     (if is_nan x \<or> dbl_trunc x < - (2 ^ (w - 1)) \<or> 2 ^ (w - 1) \<le> dbl_trunc x then None else Some (dbl_trunc x))"

declare bit_length.simps [simp del]
section \<open>Rounding of representable numbers\<close>

lemma bit_length_le: "n < 2 ^ k \<Longrightarrow> bit_length n \<le> k"
proof (induction n arbitrary: k rule: bit_length.induct)
  case (1 n)
  show ?case
  proof (cases "n = 0")
    case False
    then obtain j where "k = Suc j" using 1(2) by (cases k) auto
    then show ?thesis using 1 False by (simp add: bit_length.simps [of n] less_mult_imp_div_less mult.commute)
  qed (simp add: bit_length.simps)
qed

lemma bit_length_bound: "n < 2 ^ bit_length n"
proof (induction n rule: bit_length.induct)
  case (1 n)
  then show ?case by (cases "n = 0") (simp_all add: bit_length.simps [of n])
qed

lemma bit_length_lower: "0 < n \<Longrightarrow> 2 ^ (bit_length n - 1) \<le> n"
proof (induction n rule: bit_length.induct)
  case (1 n)
  show ?case
  proof (cases "n < 2")
    case True
    then show ?thesis using 1(2) by (simp add: bit_length.simps [of n] bit_length.simps [of 0])
  next
    case False
    then have "0 < n div 2" by (simp add: div_greater_zero_iff)
    moreover from this have "0 < bit_length (n div 2)" by (simp add: bit_length.simps [of "n div 2"])
    ultimately have "2 * 2 ^ (bit_length (n div 2) - 1) \<le> n" "2 ^ bit_length (n div 2) = 2 * (2 :: nat) ^ (bit_length (n div 2) - 1)"
      using 1(1) False by (linarith, simp flip: power_Suc)
    then show ?thesis using False by (simp add: bit_length.simps [of n])
  qed
qed

lemma round_half_even_exact [simp]: "0 < d \<Longrightarrow> round_half_even (q * d) d = q"
  by (simp add: round_half_even_def)

lemma pattern_fields:
  assumes "b < 2 ^ 63" and "x = (if s then 2 ^ 63 else 0) + of_nat b"
  shows "dbl_sign x = s" "dbl_exp x = b div 2 ^ 52" "dbl_man x = b mod 2 ^ 52"
proof -
  have u: "unat x = (if s then 2 ^ 63 else 0) + b"
    using assms by (auto simp: unat_word_ariths unat_of_nat)
  show "dbl_sign x = s" using assms(1) by (auto simp: dbl_sign_def u)
  have "((2 :: nat) ^ 63 + b) div 2 ^ 52 = 2 ^ 11 + b div 2 ^ 52" "b div 2 ^ 52 < 2 ^ 11" using assms(1) by auto
  then show "dbl_exp x = b div 2 ^ 52" by (simp add: dbl_exp_def u)
  show "dbl_man x = b mod 2 ^ 52" by (simp add: dbl_man_def u mod_add_eq [symmetric])
qed

definition finite_double :: "double \<Rightarrow> bool" where
  "finite_double x \<longleftrightarrow> dbl_exp x \<noteq> 2047"

lemma finite_doubleD [simp]: "finite_double x \<Longrightarrow> \<not> is_nan x" "finite_double x \<Longrightarrow> \<not> is_inf x"
  by (simp_all add: finite_double_def is_nan_def is_inf_def)

text \<open>Any rounded result has the sign asked for and is a number.\<close>

lemma round_double_number [simp]: "dbl_sign (round_double s n d) = s" "\<not> is_nan (round_double s n d)"
proof -
  define b where "b = min ((bit_length (n div d) - 53) * 2 ^ 52 + round_half_even n (d * 2 ^ (bit_length (n div d) - 53))) (2047 * 2 ^ 52)"
  have b: "b \<le> 2047 * 2 ^ 52" by (simp add: b_def)
  have "round_double s n d = (if s then 2 ^ 63 else 0) + of_nat b" by (simp only: round_double_def Let_def b_def)
  note f = pattern_fields [OF _ this]
  show "dbl_sign (round_double s n d) = s" using b f by simp
  have "b mod 2 ^ 52 = 0" if "b div 2 ^ 52 = 2047" using b div_mult_mod_eq [of b "2 ^ 52"] unfolding that by linarith
  then show "\<not> is_nan (round_double s n d)" using b f by (auto simp: is_nan_def)
qed

definition representable :: "nat \<Rightarrow> bool" where
  "representable q \<longleftrightarrow> (\<exists>m j. q = m * 2 ^ j \<and> m < 2 ^ 53 \<and> j \<le> 2045)"

lemma representableI: "m < 2 ^ 53 \<Longrightarrow> j \<le> 2045 \<Longrightarrow> representable (m * 2 ^ j)"
  by (auto simp: representable_def)

lemma mag_form:
  assumes "finite_double x"
  obtains m j where "mag x = m * 2 ^ j" "m < 2 ^ 53" "j \<le> 2045"
proof (cases "dbl_exp x = 0")
  case True
  have "dbl_man x < 2 ^ 53" by (simp add: dbl_man_def)
  then show ?thesis using that [of "dbl_man x" 0] True by (simp add: mag_def)
next
  case False
  have "dbl_man x < 2 ^ 52" "dbl_exp x < 2 ^ 11" by (simp_all add: dbl_man_def dbl_exp_def)
  then show ?thesis using that [of "2 ^ 52 + dbl_man x" "dbl_exp x - 1"] False assms by (simp add: mag_def finite_double_def)
qed

text \<open>A representable number is its own rounding.\<close>

lemma round_double_exact:
  assumes "representable q" and "0 < d"
  shows "mag (round_double s (q * d) d) = q" "finite_double (round_double s (q * d) d)"
proof -
  from assms(1) obtain m j where q: "q = m * 2 ^ j" "m < 2 ^ 53" "j \<le> 2045" by (auto simp: representable_def)
  define k where "k = bit_length q - 53"
  define r where "r = q div 2 ^ k"
  have "q < 2 ^ 53 * 2 ^ j" unfolding q(1) using q(2) by (intro mult_strict_right_mono) simp_all
  then have "bit_length q \<le> 53 + j" by (intro bit_length_le) (simp add: power_add)
  then have kj: "k \<le> j" by (simp add: k_def)
  then have "2 ^ k dvd q" by (simp add: q(1) le_imp_power_dvd)
  then have qr: "q = r * 2 ^ k" by (simp add: r_def)
  have r: "r < 2 ^ 53"
  proof (cases "k = 0")
    case True
    then have "bit_length q \<le> 53" by (simp add: k_def)
    then have "(2 :: nat) ^ bit_length q \<le> 2 ^ 53" by (intro power_increasing) simp_all
    then show ?thesis using bit_length_bound [of q] True by (simp add: r_def)
  next
    case False
    then have "(2 :: nat) ^ bit_length q = 2 ^ 53 * 2 ^ k" unfolding power_add [symmetric] by (simp add: k_def)
    then show ?thesis using bit_length_bound [of q] qr by simp
  qed
  have low: "2 ^ 52 \<le> r" if "0 < k"
  proof -
    have "0 < bit_length q" using that by (simp add: k_def)
    then have "0 < q" by (simp add: bit_length.simps [of q] split: if_splits)
    moreover have "(2 :: nat) ^ (bit_length q - 1) = 2 ^ 52 * 2 ^ k" unfolding power_add [symmetric] using that by (simp add: k_def)
    ultimately show ?thesis using bit_length_lower [of q] qr by simp
  qed
  let ?x = "round_double s (q * d) d"
  have n: "round_half_even (q * d) (d * 2 ^ k) = r"
    using round_half_even_exact [of "d * 2 ^ k" r] assms(2) by (simp add: qr ac_simps)
  have kr: "k * 2 ^ 52 + r < 2047 * 2 ^ 52" using r kj q(3) by simp
  then have "?x = (if s then 2 ^ 63 else 0) + of_nat (k * 2 ^ 52 + r)"
    using assms(2) n by (simp add: round_double_def Let_def min_def flip: k_def)
  note f = pattern_fields [OF _ this]
  have e: "dbl_exp ?x = k + r div 2 ^ 52" "dbl_man ?x = r mod 2 ^ 52" using kr f by simp_all
  have "r div 2 ^ 52 = (if r < 2 ^ 52 then 0 else 1)" "r mod 2 ^ 52 = (if r < 2 ^ 52 then r else r - 2 ^ 52)"
    using r by (auto simp: div_nat_eqI mod_if)
  then show "mag ?x = q" "finite_double ?x"
    using e low qr kj q(3) by (auto simp: mag_def finite_double_def)
qed

section \<open>Exact operations\<close>

lemma mag_0_8000 [simp]: "dbl_val 0 = 0" "dbl_val 0x8000000000000000 = 0" "finite_double 0" "finite_double 0x8000000000000000"
  by (simp_all add: dbl_val_def mag_def dbl_man_def dbl_exp_def finite_double_def)

lemma dbl_neg_fields [simp]: "dbl_sign (dbl_neg x) \<longleftrightarrow> \<not> dbl_sign x" "mag (dbl_neg x) = mag x"
  "finite_double (dbl_neg x) = finite_double x" "is_nan (dbl_neg x) = is_nan x" "dbl_val (dbl_neg x) = - dbl_val x"
proof -
  have sign: "dbl_sign y \<longleftrightarrow> bit y 63" for y :: double
  proof -
    have "bit y 63 \<longleftrightarrow> bit (unat y) 63" by (simp add: bit_unsigned_iff)
    then have "bit y 63 \<longleftrightarrow> odd (unat y div 2 ^ 63)" by (simp only: bit_iff_odd)
    moreover have "unat y div 2 ^ 63 = (if 2 ^ 63 \<le> unat y then 1 else 0)"
      using unsigned_less [of y, where 'a = nat] by (auto simp: div_nat_eqI)
    ultimately show ?thesis by (simp add: dbl_sign_def)
  qed
  have fields: "dbl_exp y = unat (take_bit 11 (drop_bit 52 y))" "dbl_man y = unat (take_bit 52 y)" for y :: double
    by (simp_all add: dbl_exp_def dbl_man_def take_bit_eq_mod drop_bit_eq_div unat_div unat_mod)
  have n: "bit (dbl_neg x) k \<longleftrightarrow> (bit x k \<noteq> (k = 63))" for k
  proof -
    have "(0x8000000000000000 :: double) = 2 ^ 63" by simp
    then have "bit (0x8000000000000000 :: double) k \<longleftrightarrow> k = 63" by (auto simp only: bit_exp_iff) simp
    then show ?thesis by (simp add: dbl_neg_def bit_xor_iff)
  qed
  show s: "dbl_sign (dbl_neg x) \<longleftrightarrow> \<not> dbl_sign x" by (simp add: sign n)
  have t: "take_bit 11 (drop_bit 52 (dbl_neg x)) = take_bit 11 (drop_bit 52 x)" "take_bit 52 (dbl_neg x) = take_bit 52 x"
    by (auto intro!: bit_word_eqI simp: bit_take_bit_iff bit_drop_bit_eq n)
  then show m: "mag (dbl_neg x) = mag x" "finite_double (dbl_neg x) = finite_double x" "is_nan (dbl_neg x) = is_nan x"
    by (simp_all only: mag_def finite_double_def is_nan_def fields)
  show "dbl_val (dbl_neg x) = - dbl_val x" by (simp add: dbl_val_def s m)
qed

lemma dbl_val_round: "representable q \<Longrightarrow> 0 < d \<Longrightarrow> dbl_val (round_double s (q * d) d) = (if s then - int q else int q)"
  by (simp add: dbl_val_def round_double_exact)

lemma dbl_add_exact:
  assumes "finite_double x" and "finite_double y" and "representable (nat \<bar>dbl_val x + dbl_val y\<bar>)"
  shows "dbl_val (dbl_add x y) = dbl_val x + dbl_val y" "finite_double (dbl_add x y)"
  using assms dbl_val_round [OF assms(3), of 1] round_double_exact [OF assms(3), of 1]
  by (auto simp: dbl_add_def with_nan_def Let_def)

lemma dbl_sub_exact:
  assumes "finite_double x" and "finite_double y" and "representable (nat \<bar>dbl_val x - dbl_val y\<bar>)"
  shows "dbl_val (dbl_sub x y) = dbl_val x - dbl_val y" "finite_double (dbl_sub x y)"
  using assms dbl_add_exact [of x "dbl_neg y"] by (auto simp: dbl_sub_def with_nan_def)

text \<open>A difference has the sign of the exact one, rounded or not.\<close>

lemma dbl_sub_negative:
  assumes "finite_double x" and "finite_double y" and "dbl_val x < dbl_val y"
  shows "dbl_val (dbl_sub x y) \<le> 0" "\<not> is_nan (dbl_sub x y)"
proof -
  have "dbl_sub x y = round_double True (nat \<bar>dbl_val x - dbl_val y\<bar>) 1"
    using assms finite_doubleD [of "dbl_neg y"] by (simp add: dbl_sub_def dbl_add_def with_nan_def Let_def)
  then show "dbl_val (dbl_sub x y) \<le> 0" "\<not> is_nan (dbl_sub x y)" by (simp_all add: dbl_val_def)
qed

lemma dbl_mul_exact:
  assumes "finite_double x" and "finite_double y" and "representable q" and "mag x * mag y = q * unit_of_one"
  shows "mag (dbl_mul x y) = q" "finite_double (dbl_mul x y)" "dbl_sign (dbl_mul x y) \<longleftrightarrow> dbl_sign x \<noteq> dbl_sign y"
  using assms(1,2) round_double_exact [OF assms(3), of unit_of_one]
  by (simp_all add: dbl_mul_def with_nan_def Let_def assms(4) del: power_numeral One_nat_def)

lemma representable_units: "n < 2 ^ 53 \<Longrightarrow> representable (n * unit_of_one)"
  by (rule representableI) simp_all

lemma dbl_of_int_exact:
  assumes "\<bar>i\<bar> < 2 ^ 53"
  shows "dbl_val (dbl_of_int i) = i * int unit_of_one" "finite_double (dbl_of_int i)" "mag (dbl_of_int i) = nat \<bar>i\<bar> * unit_of_one"
    "dbl_sign (dbl_of_int i) \<longleftrightarrow> i < 0"
proof -
  have "representable (nat \<bar>i\<bar> * unit_of_one)" using assms by (intro representable_units) simp
  note r = round_double_exact [OF this, of 1] dbl_val_round [OF this, of 1]
  show "finite_double (dbl_of_int i)" "mag (dbl_of_int i) = nat \<bar>i\<bar> * unit_of_one" using r by (simp_all add: dbl_of_int_def)
  show "dbl_sign (dbl_of_int i) \<longleftrightarrow> i < 0" by (simp add: dbl_of_int_def)
  show "dbl_val (dbl_of_int i) = i * int unit_of_one" using r(3) [of "i < 0"] by (auto simp: dbl_of_int_def)
qed

lemma dbl_literal_exact:
  assumes "n < 2 ^ 53"
  shows "dbl_val (dbl_literal n 1) = int n * int unit_of_one" "finite_double (dbl_literal n 1)"
    "mag (dbl_literal n 1) = n * unit_of_one" "\<not> dbl_sign (dbl_literal n 1)"
proof -
  have "dbl_literal n 1 = dbl_of_int (int n)" by (simp add: dbl_literal_def dbl_of_int_def)
  then show "dbl_val (dbl_literal n 1) = int n * int unit_of_one" "finite_double (dbl_literal n 1)"
    "mag (dbl_literal n 1) = n * unit_of_one" "\<not> dbl_sign (dbl_literal n 1)" using dbl_of_int_exact [of "int n"] assms by simp_all
qed

text \<open>The part of a number after the point has no more digits than the number.\<close>

lemma representable_fraction:
  assumes "finite_double x"
  shows "representable (mag x mod unit_of_one)"
proof -
  obtain m j where x: "mag x = m * 2 ^ j" "m < 2 ^ 53" "j \<le> 2045" using mag_form [OF assms] .
  show ?thesis
  proof (cases "1074 \<le> j")
    case True
    then have "unit_of_one dvd mag x" by (simp only: x(1) le_imp_power_dvd dvd_mult)
    then show ?thesis using representableI [of 0 0] by (simp add: dvd_imp_mod_0)
  next
    case False
    then have "unit_of_one = 2 ^ (1074 - j) * 2 ^ j" by (simp only: power_add [symmetric]) simp
    then have "mag x mod unit_of_one = (m mod 2 ^ (1074 - j)) * 2 ^ j" by (simp only: x(1) mult_mod_left)
    moreover have "m mod 2 ^ (1074 - j) < 2 ^ 53" using x(2) mod_less_eq_dividend [of m "2 ^ (1074 - j)"] by linarith
    ultimately show ?thesis using x(3) by (auto intro: representableI)
  qed
qed

end
