(* ===== verification/Ice_Float.thy ===== *)
theory Ice_Float
  imports Ice_Output Ice_Double
begin

text \<open>
  The conversion of floating-point numbers in \<^verbatim>\<open>kernel/libs/libc/stdio.cpp\<close>: decimal and exponential notation, and the choice
  between them. A value of type \<^verbatim>\<open>int\<close> or \<^verbatim>\<open>int_fast64_t\<close> is an \<^typ>\<open>int\<close>; an \<^verbatim>\<open>int\<close> result that could leave its range is
  checked, and the 64-bit parts cannot, since the largest double below \<open>2 ^ 63\<close> is \<open>2 ^ 63 - 1024\<close>. \<^const>\<open>None\<close> is
  behaviour the language leaves undefined: a cast out of range, an index past the table of powers, an \<^verbatim>\<open>int\<close> overflow, the use
  of a variable that was not initialised.
\<close>

unbundle bit_operations_syntax

section \<open>Access to the bits of a double\<close>

definition get_sign_bit :: "double \<Rightarrow> bool" where
  "get_sign_bit x \<longleftrightarrow> drop_bit 63 x \<noteq> 0"

definition get_exp2 :: "double \<Rightarrow> int" where
  "get_exp2 x = uint (drop_bit 52 x AND 0x7FF) - 1023"

text \<open>A result of \<^verbatim>\<open>int\<close> arithmetic.\<close>

definition checked :: "int \<Rightarrow> int option" where
  "checked i = (if - (2 ^ 31) \<le> i \<and> i < 2 ^ 31 then Some i else None)"

section \<open>Decimal components\<close>

record double_components =
  integral :: int
  fractional :: int
  is_negative :: bool

definition powers_of_10 :: "double list" where
  "powers_of_10 = map (\<lambda>k. dbl_literal (10 ^ k) 1) [0..<18]"

definition power_of_10 :: "nat \<Rightarrow> double option" where
  "power_of_10 i = (if i < 18 then Some (powers_of_10 ! i) else None)"

abbreviation one_half :: double where
  "one_half \<equiv> 0x3FE0000000000000"

definition get_components :: "double \<Rightarrow> u32 \<Rightarrow> double_components option" where
  "get_components number precision =
     (let negative = get_sign_bit number; abs_number = (if negative then dbl_neg number else number) in
      Option.bind (dbl_to_int 64 abs_number) (\<lambda>integral.
      Option.bind (power_of_10 (unat precision)) (\<lambda>p10.
      let remainder = dbl_sub abs_number (dbl_mul (dbl_of_int integral) p10) in
      Option.bind (dbl_to_int 64 remainder) (\<lambda>fractional.
      let remainder = dbl_sub remainder (dbl_of_int fractional);
          (integral, fractional) =
            (if dbl_lt one_half remainder then
               (if dbl_le p10 (dbl_of_int (fractional + 1)) then (integral + 1, 0) else (integral, fractional + 1))
             else if dbl_eq remainder one_half \<and> (fractional = 0 \<or> odd fractional) then (integral, fractional + 1)
             else (integral, fractional));
          integral =
            (if precision = 0 then
               let remainder = dbl_sub abs_number (dbl_of_int integral)
               in if (\<not> dbl_lt remainder one_half \<or> dbl_lt one_half remainder) \<and> odd integral then integral + 1 else integral
             else integral)
      in Some \<lparr>integral = integral, fractional = fractional, is_negative = negative\<rparr>))))"

record scaling_factor =
  raw_factor :: double
  multiply :: bool

definition apply_scaling :: "double \<Rightarrow> scaling_factor \<Rightarrow> double" where
  "apply_scaling num normalization =
     (if multiply normalization then dbl_mul num (raw_factor normalization) else dbl_div num (raw_factor normalization))"

definition unapply_scaling :: "double \<Rightarrow> scaling_factor \<Rightarrow> double" where
  "unapply_scaling normalized normalization =
     (if multiply normalization then dbl_div normalized (raw_factor normalization)
      else dbl_mul normalized (raw_factor normalization))"

definition update_normalization :: "scaling_factor \<Rightarrow> double \<Rightarrow> scaling_factor" where
  "update_normalization sf extra =
     (if multiply sf then \<lparr>raw_factor = dbl_mul (raw_factor sf) extra, multiply = True\<rparr>
      else if \<bar>get_exp2 (raw_factor sf)\<bar> > \<bar>get_exp2 extra\<bar>
      then \<lparr>raw_factor = dbl_div (raw_factor sf) extra, multiply = False\<rparr>
      else \<lparr>raw_factor = dbl_div extra (raw_factor sf), multiply = True\<rparr>)"

definition get_normalized_components ::
  "bool \<Rightarrow> u32 \<Rightarrow> double \<Rightarrow> scaling_factor \<Rightarrow> int \<Rightarrow> double_components option" where
  "get_normalized_components negative precision non_normalized normalization floored_exp10 =
     (let scaled = apply_scaling non_normalized normalization in
      Option.bind (checked (- floored_exp10 + sint precision)) (\<lambda>distance.
      if distance > - 308 - 1 then get_components (if negative then dbl_neg scaled else scaled) precision
      else
        Option.bind (dbl_to_int 64 scaled) (\<lambda>integral.
        let remainder = dbl_sub non_normalized (unapply_scaling (dbl_of_int integral) normalization) in
        Option.bind (power_of_10 (unat precision)) (\<lambda>prec_power_of_10.
        let account_for_precision = update_normalization normalization prec_power_of_10;
            scaled_remainder = apply_scaling remainder account_for_precision in
        Option.bind (dbl_to_int 64 scaled_remainder) (\<lambda>fractional.
        let scaled_remainder = dbl_sub scaled_remainder (dbl_of_int fractional);
            fractional = fractional + (if dbl_le one_half scaled_remainder then 1 else 0);
            fractional = (if dbl_eq scaled_remainder one_half then fractional AND NOT 1 else fractional);
            (integral, fractional) = (if dbl_le prec_power_of_10 (dbl_of_int fractional) then (integral + 1, 0) else (integral, fractional))
        in Some \<lparr>integral = integral, fractional = fractional, is_negative = negative\<rparr>)))))"

section \<open>Decimal notation\<close>

abbreviation PRINTF_DECIMAL_BUFFER_SIZE :: nat where "PRINTF_DECIMAL_BUFFER_SIZE \<equiv> 32"

text \<open>The loop that drops trailing zeros is entered with a positive number only, which it keeps positive.\<close>

function trim_zeros :: "int \<Rightarrow> u32 \<Rightarrow> int \<times> u32" where
  "trim_zeros frac count = (if 0 < frac \<and> frac smod 10 = 0 then trim_zeros (frac sdiv 10) (count - 1) else (frac, count))"
  by pat_completeness auto
termination
  by (relation "measure (\<lambda>(frac, count). nat frac)") (auto simp: signed_divide_int_def)

definition digit_of :: "int \<Rightarrow> char" where
  "digit_of i = char_of (nat (48 + i smod 10))"

function frac_digits :: "int \<Rightarrow> u32 \<Rightarrow> string \<Rightarrow> u32 \<times> string" where
  "frac_digits frac count buf =
     (if length buf < PRINTF_DECIMAL_BUFFER_SIZE
      then if frac sdiv 10 = 0 then (count - 1, buf @ [digit_of frac])
        else frac_digits (frac sdiv 10) (count - 1) (buf @ [digit_of frac])
      else (count, buf))"
  by pat_completeness auto
termination
  by (relation "measure (\<lambda>(frac, count, buf). PRINTF_DECIMAL_BUFFER_SIZE - length buf)") auto

function extra_zeros :: "u32 \<Rightarrow> string \<Rightarrow> string" where
  "extra_zeros count buf =
     (if length buf < PRINTF_DECIMAL_BUFFER_SIZE \<and> 0 < count then extra_zeros (count - 1) (buf @ ''0'') else buf)"
  by pat_completeness auto
termination
  by (relation "measure (\<lambda>(count, buf). PRINTF_DECIMAL_BUFFER_SIZE - length buf)") auto

function whole_digits :: "int \<Rightarrow> string \<Rightarrow> string" where
  "whole_digits whole buf =
     (if length buf < PRINTF_DECIMAL_BUFFER_SIZE
      then if whole sdiv 10 = 0 then buf @ [digit_of whole] else whole_digits (whole sdiv 10) (buf @ [digit_of whole])
      else buf)"
  by pat_completeness auto
termination
  by (relation "measure (\<lambda>(whole, buf). PRINTF_DECIMAL_BUFFER_SIZE - length buf)") auto

definition frac_part :: "int \<Rightarrow> u32 \<Rightarrow> u32 \<Rightarrow> string \<Rightarrow> string" where
  "frac_part frac0 precision flags buf =
     (if precision \<noteq> 0 then
        let (frac, count) = (if has flags FLAGS_ADAPT_EXP \<and> \<not> has flags FLAGS_HASH \<and> 0 < frac0
              then trim_zeros frac0 precision else (frac0, precision))
        in if 0 < frac \<or> \<not> has flags FLAGS_ADAPT_EXP \<or> has flags FLAGS_HASH then
             (case frac_digits frac count buf of (count, buf) \<Rightarrow> push_char (extra_zeros count buf) CHR ''.'')
           else buf
      else if has flags FLAGS_HASH then push_char buf CHR ''.'' else buf)"

definition print_broken_up_decimal ::
  "double_components \<Rightarrow> u32 \<Rightarrow> u32 \<Rightarrow> u32 \<Rightarrow> string \<Rightarrow> 'a out \<Rightarrow> 'a out" where
  "print_broken_up_decimal number precision width flags buf out =
     (let buf = whole_digits (integral number) (frac_part (fractional number) precision flags buf);
          pad = (\<not> has flags FLAGS_LEFT \<and> has flags FLAGS_ZEROPAD);
          width = (if pad \<and> width \<noteq> 0 \<and> (is_negative number \<or> has flags (FLAGS_PLUS OR FLAGS_SPACE)) then width - 1 else width);
          buf = (if pad then zero_pad width buf else buf)
      in out_rev (push_sign buf (is_negative number) flags) width flags out)"

definition print_decimal_number :: "double \<Rightarrow> u32 \<Rightarrow> u32 \<Rightarrow> u32 \<Rightarrow> string \<Rightarrow> 'a out \<Rightarrow> 'a out option" where
  "print_decimal_number number precision width flags buf out =
     map_option (\<lambda>value. print_broken_up_decimal value precision width flags buf out) (get_components number precision)"

section \<open>Exponential notation\<close>

definition bastardized_floor :: "double \<Rightarrow> int option" where
  "bastardized_floor x =
     (if dbl_le 0 x then dbl_to_int 32 x
      else Option.bind (dbl_to_int 32 x) (\<lambda>n. if dbl_eq (dbl_of_int n) x then Some n else checked (n - 1)))"

definition log10_of_positive :: "double \<Rightarrow> double" where
  "log10_of_positive positive_number =
     (let exp2 = get_exp2 positive_number;
          z = dbl_sub ((positive_number AND (push_bit 52 1 - 1)) OR push_bit 52 1023) (dbl_literal 15 10)
      in dbl_add (dbl_add (dbl_sub (dbl_add
            (dbl_literal 1760912590556812420 (10 ^ 19))
            (dbl_mul z (dbl_literal 2895296546021678851 (10 ^ 19))))
            (dbl_mul (dbl_mul z z) (dbl_literal 965098848673892950 (10 ^ 19))))
            (dbl_mul (dbl_mul (dbl_mul z z) z) (dbl_literal 428932821632841311 (10 ^ 19))))
            (dbl_mul (dbl_of_int exp2) (dbl_literal 30102999566398119521 (10 ^ 20))))"

definition pow10_of_int :: "int \<Rightarrow> double option" where
  "pow10_of_int floored_exp10 =
     (if floored_exp10 = - 308 then Some (dbl_literal 1 (10 ^ 308))
      else Option.bind (bastardized_floor
        (dbl_add (dbl_mul (dbl_of_int floored_exp10) (dbl_literal 3321928094887362 (10 ^ 15))) one_half)) (\<lambda>exp2.
      let z = dbl_sub (dbl_mul (dbl_of_int floored_exp10) (dbl_literal 2302585092994046 (10 ^ 15)))
                (dbl_mul (dbl_of_int exp2) (dbl_literal 6931471805599453 (10 ^ 16)));
          z2 = dbl_mul z z;
          power = push_bit 52 (word_of_int exp2 + 1023);
          fraction = dbl_add (dbl_of_int 6) (dbl_div z2 (dbl_add (dbl_of_int 10) (dbl_div z2 (dbl_of_int 14))))
      in Some (dbl_mul power (dbl_add (dbl_of_int 1)
           (dbl_div (dbl_mul (dbl_of_int 2) z) (dbl_add (dbl_sub (dbl_of_int 2) z) (dbl_div z2 fraction)))))))"

text \<open>The decimal exponent with the factor of the normalisation and whether the table has it. For zero only the
  exponent is set.\<close>

definition decimal_exponent :: "double \<Rightarrow> (int \<times> (double \<times> bool) option) option" where
  "decimal_exponent abs_number =
     (if dbl_eq abs_number 0 then Some (10, None)
      else Option.bind (bastardized_floor (log10_of_positive abs_number)) (\<lambda>floored_exp10.
        Option.bind (pow10_of_int floored_exp10) (\<lambda>p10.
        Option.bind (if dbl_lt abs_number p10 then map_option (\<lambda>e. (e, dbl_div p10 (dbl_of_int 10))) (checked (floored_exp10 - 1))
          else Some (floored_exp10, p10)) (\<lambda>(floored_exp10, p10).
        let covered = (\<bar>floored_exp10\<bar> < 18)
        in Some (floored_exp10, Some (if covered then powers_of_10 ! nat \<bar>floored_exp10\<bar> else p10, covered))))))"

text \<open>What \<^verbatim>\<open>%g\<close> makes of the precision: whether it falls back to decimal notation, the precision and the flags.\<close>

definition adapt_precision :: "int \<Rightarrow> u32 \<Rightarrow> u32 \<Rightarrow> (bool \<times> u32 \<times> u32) option" where
  "adapt_precision floored_exp10 precision flags =
     (if has flags FLAGS_ADAPT_EXP then
        let required = (if precision = 0 then 1 else sint precision);
            fall_back = (- 4 \<le> floored_exp10 \<and> floored_exp10 < required)
        in Option.bind (checked (sint precision - 1)) (\<lambda>p.
           Option.bind (if fall_back then checked (p - floored_exp10) else Some p) (\<lambda>p.
           Some (fall_back, if 0 < p then word_of_int p else 0, flags OR FLAGS_PRECISION)))
      else Some (False, precision, flags))"

text \<open>The components, with the exponent and the precision they are printed with.\<close>

definition adjust_components ::
  "bool \<Rightarrow> int \<Rightarrow> u32 \<Rightarrow> u32 \<Rightarrow> double_components \<Rightarrow> (int \<times> u32 \<times> double_components) option" where
  "adjust_components fall_back floored_exp10 precision flags components =
     (if fall_back then
        if has flags FLAGS_ADAPT_EXP \<and> - 1 \<le> floored_exp10 then
          Option.bind (power_of_10 (nat (floored_exp10 + 1))) (\<lambda>p10.
          Some (if dbl_eq (dbl_of_int (integral components)) p10 then (floored_exp10 + 1, precision - 1, components)
                else (floored_exp10, precision, components)))
        else Some (floored_exp10, precision, components)
      else if 10 \<le> integral components then
        map_option (\<lambda>e. (e, precision, components\<lparr>integral := 1, fractional := 0\<rparr>)) (checked (floored_exp10 + 1))
      else Some (floored_exp10, precision, components))"

definition exponential_components ::
  "double \<Rightarrow> u32 \<Rightarrow> u32 \<Rightarrow> (bool \<times> int \<times> u32 \<times> u32 \<times> double_components) option" where
  "exponential_components number precision flags =
     (let negative = get_sign_bit number; abs_number = (if negative then dbl_neg number else number) in
      Option.bind (decimal_exponent abs_number) (\<lambda>(floored_exp10, factor).
      Option.bind (adapt_precision floored_exp10 precision flags) (\<lambda>(fall_back, precision, flags).
      Option.bind
        (if fall_back \<or> floored_exp10 = 0 then get_components (if negative then dbl_neg abs_number else abs_number) precision
         else Option.bind factor (\<lambda>(raw, covered).
           get_normalized_components negative precision abs_number
             \<lparr>raw_factor = raw, multiply = floored_exp10 < 0 \<and> covered\<rparr> floored_exp10)) (\<lambda>components.
      map_option (\<lambda>(floored_exp10, precision, components). (fall_back, floored_exp10, precision, flags, components))
        (adjust_components fall_back floored_exp10 precision flags components)))))"

definition print_exponential_number :: "double \<Rightarrow> u32 \<Rightarrow> u32 \<Rightarrow> u32 \<Rightarrow> string \<Rightarrow> 'a out \<Rightarrow> 'a out option" where
  "print_exponential_number number precision width flags buf out =
     map_option (\<lambda>(fall_back, floored_exp10, precision, flags, components).
       let exp10_part_width = (if fall_back then 0 else if \<bar>floored_exp10\<bar> < 100 then 4 else 5);
           decimal_part_width = (if has flags FLAGS_LEFT \<and> exp10_part_width \<noteq> 0 then 0
             else if width > exp10_part_width then width - exp10_part_width else 0);
           start_pos = pos (fst out);
           out = print_broken_up_decimal components precision decimal_part_width flags buf out
       in if fall_back then out
          else let out = putchar_via_gadget (if has flags FLAGS_UPPERCASE then CHR ''E'' else CHR ''e'') out;
                   out = print_integer (abs_for_printing (word_of_int floored_exp10)) (floored_exp10 < 0) 10 0 (exp10_part_width - 1)
                           (FLAGS_ZEROPAD OR FLAGS_PLUS) out
               in if has flags FLAGS_LEFT then pad_until start_pos width out else out)
     (exponential_components number precision flags)"

section \<open>The conversion\<close>

definition DBL_MAX :: double where
  "DBL_MAX = 0x7FEFFFFFFFFFFFFF"

definition PRINTF_FLOAT_NOTATION_THRESHOLD :: double where
  "PRINTF_FLOAT_NOTATION_THRESHOLD = dbl_literal (10 ^ 9) 1"

text \<open>\<^verbatim>\<open>while (len < 32 && precision > 17) { buf[len++] = '0'; precision--; }\<close>.\<close>

function limit_precision :: "u32 \<Rightarrow> string \<Rightarrow> u32 \<times> string" where
  "limit_precision precision buf =
     (if length buf < PRINTF_DECIMAL_BUFFER_SIZE \<and> 18 - 1 < precision then limit_precision (precision - 1) (buf @ ''0'')
      else (precision, buf))"
  by pat_completeness auto
termination
  by (relation "measure (\<lambda>(precision, buf). PRINTF_DECIMAL_BUFFER_SIZE - length buf)") auto

definition print_floating_point :: "double \<Rightarrow> u32 \<Rightarrow> u32 \<Rightarrow> u32 \<Rightarrow> bool \<Rightarrow> 'a out \<Rightarrow> 'a out option" where
  "print_floating_point value precision width flags prefer_exponential out =
     (if \<not> dbl_eq value value then Some (out_rev ''nan'' width flags out)
      else if dbl_lt value (dbl_neg DBL_MAX) then Some (out_rev ''fni-'' width flags out)
      else if dbl_lt DBL_MAX value then Some (out_rev (if has flags FLAGS_PLUS then ''fni+'' else ''fni'') width flags out)
      else if \<not> prefer_exponential \<and> (dbl_lt PRINTF_FLOAT_NOTATION_THRESHOLD value
          \<or> dbl_lt value (dbl_neg PRINTF_FLOAT_NOTATION_THRESHOLD))
      then print_exponential_number value precision width flags [] out
      else let precision = (if has flags FLAGS_PRECISION then precision else 6)
        in case limit_precision precision [] of (precision, buf) \<Rightarrow>
          if prefer_exponential then print_exponential_number value precision width flags buf out
          else print_decimal_number value precision width flags buf out)"

declare trim_zeros.simps [simp del] frac_digits.simps [simp del] extra_zeros.simps [simp del]
  whole_digits.simps [simp del] limit_precision.simps [simp del]

section \<open>The scratch buffer\<close>

lemma frac_digits_length: "length buf \<le> 32 \<Longrightarrow> length (snd (frac_digits frac count buf)) \<le> 32"
proof (induction frac count buf rule: frac_digits.induct)
  case (1 frac count buf)
  then show ?case by (subst frac_digits.simps) auto
qed

lemma extra_zeros_length: "length buf \<le> 32 \<Longrightarrow> length (extra_zeros count buf) \<le> 32"
proof (induction count buf rule: extra_zeros.induct)
  case (1 count buf)
  then show ?case by (subst extra_zeros.simps) auto
qed

lemma whole_digits_length: "length buf \<le> 32 \<Longrightarrow> length (whole_digits whole buf) \<le> 32"
proof (induction whole buf rule: whole_digits.induct)
  case (1 whole buf)
  then show ?case by (subst whole_digits.simps) auto
qed

lemma limit_precision_length: "length buf \<le> 32 \<Longrightarrow> length (snd (limit_precision precision buf)) \<le> 32"
proof (induction precision buf rule: limit_precision.induct)
  case (1 precision buf)
  then show ?case by (subst limit_precision.simps) auto
qed

lemma push_char_length: "length buf \<le> 32 \<Longrightarrow> length (push_char buf c) \<le> 32"
  by (simp add: push_char_def)

lemma frac_part_length: "length buf \<le> 32 \<Longrightarrow> length (frac_part frac precision flags buf) \<le> 32"
  using frac_digits_length [of buf]
  by (auto simp: frac_part_def Let_def push_char_length extra_zeros_length split: prod.splits) (metis push_char_length extra_zeros_length snd_conv)+

lemmas decimal_lengths = frac_part_length whole_digits_length zero_pad_length push_sign_length

section \<open>The text of a conversion\<close>

text \<open>Like every other conversion, that of a double is undefined for every gadget or sends one text to every gadget.\<close>

definition emits_or_undefined :: "('a out \<Rightarrow> 'a out option) \<Rightarrow> bool" where
  "emits_or_undefined f \<longleftrightarrow> (\<forall>out. f out = None) \<or> (\<exists>cs. \<forall>out. f out = Some (emit cs out))"

lemma emits_or_undefined_Some: "emits f \<Longrightarrow> emits_or_undefined (\<lambda>out. Some (f out))"
  by (auto simp: emits_or_undefined_def emits_def)

lemma emits_or_undefined_if:
  "emits_or_undefined f \<Longrightarrow> emits_or_undefined g \<Longrightarrow> emits_or_undefined (\<lambda>out. if c then f out else g out)"
  by (cases c) simp_all

lemma emits_or_undefined_map: "(\<And>v. emits (g v)) \<Longrightarrow> emits_or_undefined (\<lambda>out. map_option (\<lambda>v. g v out) x)"
  by (cases x) (auto simp: emits_or_undefined_def emits_def)

lemma emits_compose: "emits f \<Longrightarrow> emits g \<Longrightarrow> emits (\<lambda>out. g (f out))"
  unfolding emits_def by (metis emit_append)

lemma print_broken_up_decimal_emit:
  assumes "length buf \<le> 32"
  shows "print_broken_up_decimal number precision width flags buf out =
    emit (let pad = \<not> has flags FLAGS_LEFT \<and> has flags FLAGS_ZEROPAD;
        width = if pad \<and> width \<noteq> 0 \<and> (is_negative number \<or> has flags (FLAGS_PLUS OR FLAGS_SPACE)) then width - 1 else width;
        buf = whole_digits (integral number) (frac_part (fractional number) precision flags buf)
      in pad_field width flags (rev (push_sign (if pad then zero_pad width buf else buf) (is_negative number) flags))) out"
proof -
  have "length (push_sign (if c then zero_pad w b else b) n flags) < 2 ^ 32" if "length b \<le> 32" for c w b n
    using push_sign_length [of "if c then zero_pad w b else b" n flags] zero_pad_length [OF that, of w] that by auto
  then show ?thesis
    using decimal_lengths(1,2) assms unfolding print_broken_up_decimal_def Let_def by (simp add: out_rev_emit)
qed

lemma emits_broken_up: "length buf \<le> 32 \<Longrightarrow> emits (print_broken_up_decimal number precision width flags buf)"
  by (rule emitsI) (rule print_broken_up_decimal_emit)

text \<open>Padding up to a width counted from where the conversion began.\<close>

lemma emits_padded: "emits f \<Longrightarrow> emits (\<lambda>out. pad_until (pos (fst out)) width (f out))"
proof -
  assume "emits f"
  then obtain cs where "\<And>out. f out = emit cs out" by (auto simp: emits_def)
  then have "pad_until (pos (fst out)) width (f out) =
      emit (cs @ replicate (unat width - unat (of_nat (length cs) :: u32)) CHR '' '') out" for out
    by (simp add: pad_until_emit pos_emit emit_append)
  then show ?thesis by (rule emitsI)
qed

lemma emits_exponential: "length buf \<le> 32 \<Longrightarrow> emits_or_undefined (print_exponential_number number precision width flags buf)"
proof -
  assume buf: "length buf \<le> 32"
  let ?b = "\<lambda>c p w f. print_broken_up_decimal c p w f buf :: 'a out \<Rightarrow> 'a out"
  have e: "emits (\<lambda>out. print_integer v n 10 0 w2 f2 (putchar_via_gadget ch (?b c p w1 f out)))" for v n w2 f2 ch c p w1 f
    by (intro emits_compose [OF _ emits_integer] emits_compose [OF _ emits_putchar] emits_broken_up buf)
  have "emits (\<lambda>out. if fall_back then ?b c p w1 f out
      else if left then pad_until (pos (fst out)) width (print_integer v n 10 0 w2 f2 (putchar_via_gadget ch (?b c p w1 f out)))
      else print_integer v n 10 0 w2 f2 (putchar_via_gadget ch (?b c p w1 f out)))"
    for fall_back left v n w2 f2 ch c p w1 f
    by (intro emits_if emits_padded e emits_broken_up buf)
  then show ?thesis
    unfolding print_exponential_number_def Let_def split_def by (rule emits_or_undefined_map)
qed

lemma emits_decimal: "length buf \<le> 32 \<Longrightarrow> emits_or_undefined (print_decimal_number number precision width flags buf)"
  unfolding print_decimal_number_def by (intro emits_or_undefined_map emits_broken_up)

lemma emits_floating_point: "emits_or_undefined (print_floating_point value precision width flags prefer_exponential)"
proof -
  obtain p buf where l: "limit_precision (if has flags FLAGS_PRECISION then precision else 6) [] = (p, buf)" by fastforce
  then have "length buf \<le> 32" using limit_precision_length [of "[]" "if has flags FLAGS_PRECISION then precision else 6"] by simp
  then show ?thesis
    unfolding print_floating_point_def Let_def l prod.case
    by (intro emits_or_undefined_if emits_or_undefined_Some emits_out_rev emits_exponential emits_decimal) simp_all
qed

section \<open>Components\<close>

lemma get_sign_bit_sign: "get_sign_bit x \<longleftrightarrow> dbl_sign x"
proof -
  have "unat (drop_bit 63 x) = unat x div 2 ^ 63" by (simp add: drop_bit_eq_div unat_div)
  moreover have "get_sign_bit x \<longleftrightarrow> unat (drop_bit 63 x) \<noteq> 0" by (simp only: get_sign_bit_def unsigned_eq_0_iff)
  ultimately show ?thesis by (simp only: dbl_sign_def div_eq_0_iff) (simp add: not_less)
qed

abbreviation dbl_abs :: "double \<Rightarrow> double" where
  "dbl_abs x \<equiv> (if dbl_sign x then dbl_neg x else x)"

lemma dbl_abs_fields: "mag (dbl_abs x) = mag x" "\<not> dbl_sign (dbl_abs x)" "dbl_val (dbl_abs x) = int (mag x)"
  "finite_double (dbl_abs x) = finite_double x"
  by (simp_all add: dbl_val_def)

lemma one_half_val: "dbl_val one_half = int (2 ^ 1073)" "finite_double one_half"
  by (simp_all add: dbl_val_def dbl_sign_def mag_def dbl_exp_def dbl_man_def finite_double_def)

lemma unit_halves: "unit_of_one = 2 * 2 ^ 1073"
  by (simp flip: power_Suc)

lemma dbl_to_int_nonneg:
  assumes "finite_double x" and "\<not> dbl_sign x" and "mag x < 2 ^ 53 * unit_of_one"
  shows "dbl_to_int 64 x = Some (int (mag x div unit_of_one))" "mag x div unit_of_one < 2 ^ 53"
proof -
  show d: "mag x div unit_of_one < 2 ^ 53" using assms(3) by (simp only: less_mult_imp_div_less)
  have "dbl_trunc x = int (mag x div unit_of_one)" using assms(2) by (simp only: dbl_trunc_def if_False)
  moreover have "int (mag x div unit_of_one) < 2 ^ 53" using d by (metis of_nat_less_iff of_nat_numeral of_nat_power)
  moreover have "\<not> 2 ^ (64 - 1) \<le> t" "\<not> t < - (2 ^ (64 - 1))" if "0 \<le> t" "t < 2 ^ 53" for t :: int using that by simp_all
  ultimately show "dbl_to_int 64 x = Some (int (mag x div unit_of_one))"
    using assms(1) by (simp only: dbl_to_int_def finite_doubleD simp_thms if_False of_nat_0_le_iff)
qed

lemma powers_of_10_nth: "i < 18 \<Longrightarrow> powers_of_10 ! i = dbl_literal (10 ^ i) 1"
  by (simp add: powers_of_10_def)

text \<open>With precision 0 the integral part is the number rounded to the nearest integer, ties to even.\<close>

lemma get_components_round:
  assumes fin: "finite_double x" and small: "mag x < 2 ^ 52 * unit_of_one"
  shows "\<exists>f. get_components x 0 = Some \<lparr>integral = int (round_half_even (mag x) unit_of_one), fractional = f, is_negative = dbl_sign x\<rparr>"
proof -
  define U H :: nat where "U = unit_of_one" and "H = 2 ^ 1073"
  have UH: "U = 2 * H" "0 < H" unfolding U_def H_def by (rule unit_halves) simp
  define i f where "i = mag x div U" and "f = mag x mod U"
  have m: "mag x = i * U + f" "f < U" using UH by (simp_all only: i_def f_def div_mult_mod_eq) simp
  define a where "a = dbl_abs x"
  have a: "finite_double a" "\<not> dbl_sign a" "dbl_val a = int (mag x)" "mag a = mag x"
    unfolding a_def using dbl_abs_fields [of x] fin by blast+
  have "mag a < 2 ^ 53 * unit_of_one" using less_le_trans [OF small mult_right_mono [of "2 ^ 52" "2 ^ 53"]] a(4) by simp
  from dbl_to_int_nonneg [OF a(1,2) this] have 1: "dbl_to_int 64 a = Some (int i)" by (simp only: a(4) i_def U_def)
  have i: "i < 2 ^ 52" using small by (simp only: i_def U_def less_mult_imp_div_less)
  have h: "dbl_val one_half = int H" "finite_double one_half" using one_half_val by (simp_all only: H_def)
  have ofint: "dbl_val (dbl_of_int j) = j * int U" "finite_double (dbl_of_int j)" "mag (dbl_of_int j) = nat \<bar>j\<bar> * U" "dbl_sign (dbl_of_int j) \<longleftrightarrow> j < 0"
    if "0 \<le> j" "j \<le> int i + 1" for j using dbl_of_int_exact [of j] that i by (simp_all add: U_def)
  define p where "p = dbl_literal 1 1"
  have p: "dbl_val p = int U" "finite_double p" "mag p = U" "\<not> dbl_sign p" using dbl_literal_exact [of 1] by (simp_all add: U_def p_def)
  let ?m = "dbl_mul (dbl_of_int (int i)) p"
  have "representable (i * U)" unfolding U_def using i by (intro representable_units) simp
  from dbl_mul_exact [OF _ p(2) this, of "dbl_of_int (int i)"] ofint [of "int i"] p
  have "finite_double ?m" "mag ?m = i * U" "\<not> dbl_sign ?m" by (simp_all add: U_def)
  then have mul: "finite_double ?m" "dbl_val ?m = int (i * U)" by (simp_all only: dbl_val_def if_False)
  let ?r = "dbl_sub a ?m"
  have f: "representable f" unfolding f_def U_def by (rule representable_fraction [OF fin])
  have "nat \<bar>dbl_val a - dbl_val ?m\<bar> = f" by (simp add: a mul m(1))
  then have r: "dbl_val ?r = int f" "finite_double ?r"
    using dbl_sub_exact [OF a(1) mul(1)] f by (simp_all add: a(3) mul(2) m(1))
  have "\<not> (dbl_sign ?r \<and> 0 < mag ?r)" "mag ?r = f" using r(1) by (auto simp: dbl_val_def split: if_splits)
  then have 2: "dbl_to_int 64 ?r = Some 0" using m(2) r(2) by (simp add: dbl_to_int_def dbl_trunc_def U_def del: power_numeral)
  let ?q = "dbl_sub ?r (dbl_of_int 0)"
  have q: "dbl_val ?q = int f" "finite_double ?q" using dbl_sub_exact [OF r(2), of "dbl_of_int 0"] f r(1) ofint [of 0] by simp_all
  have one: "dbl_le p (dbl_of_int 1)" using p ofint [of 1] by (simp add: dbl_le_def)
  have over: "dbl_lt (dbl_sub a (dbl_of_int (int i + 1))) one_half" "\<not> dbl_lt one_half (dbl_sub a (dbl_of_int (int i + 1)))"
  proof -
    have "dbl_val a < dbl_val (dbl_of_int (int i + 1))" using ofint(1) [of "int i + 1"] m a(3) by (simp add: distrib_right)
    from dbl_sub_negative [OF a(1) ofint(2) [of "int i + 1"] this]
    show "dbl_lt (dbl_sub a (dbl_of_int (int i + 1))) one_half" "\<not> dbl_lt one_half (dbl_sub a (dbl_of_int (int i + 1)))"
      using h UH(2) by (simp_all add: dbl_lt_def)
  qed
  let ?s = "dbl_sub a (dbl_of_int (int i))"
  have s: "dbl_val ?s = int f" "finite_double ?s"
    using dbl_sub_exact [OF a(1) ofint(2) [of "int i"]] ofint(1) [of "int i"] f by (simp_all add: a(3) m(1))
  have pw: "power_of_10 (unat (0 :: u32)) = Some p" by (simp add: power_of_10_def powers_of_10_nth p_def)
  have cmp: "dbl_lt one_half ?q \<longleftrightarrow> H < f" "dbl_eq ?q one_half \<longleftrightarrow> H = f" "dbl_lt ?s one_half \<longleftrightarrow> f < H" "dbl_lt one_half ?s \<longleftrightarrow> H < f"
    using q s h by (auto simp: dbl_lt_def dbl_eq_def)
  have "get_components x 0 = Some \<lparr>integral = int (if H < f \<or> H = f \<and> odd i then i + 1 else i),
      fractional = (if f = H then 1 else 0), is_negative = dbl_sign x\<rparr>"
    unfolding get_components_def get_sign_bit_sign Let_def a_def [symmetric] 1 pw Option.bind.simps 2 cmp
    using over one cmp by (cases "H < f"; cases "H = f") simp_all
  moreover have "round_half_even (mag x) U = (if H < f \<or> H = f \<and> odd i then i + 1 else i)"
    unfolding round_half_even_def Let_def i_def [symmetric] f_def [symmetric] using UH(1) by simp
  ultimately show ?thesis unfolding U_def by auto
qed

text \<open>With a precision, \<^verbatim>\<open>get_components\<close> scales the integral part instead of the remainder, so a fraction below one half is lost.\<close>

lemma get_components_small:
  assumes fin: "finite_double x" and small: "mag x < 2 ^ 1073" and p: "0 < precision" "precision < 18"
  shows "get_components x precision = Some \<lparr>integral = 0, fractional = 0, is_negative = dbl_sign x\<rparr>"
proof -
  define H :: nat where "H = 2 ^ 1073"
  define a where "a = dbl_abs x"
  have a: "finite_double a" "\<not> dbl_sign a" "dbl_val a = int (mag x)" "mag a = mag x"
    unfolding a_def using dbl_abs_fields [of x] fin by blast+
  have lt: "mag x < unit_of_one" using small unfolding unit_halves by linarith
  then have "mag a < 2 ^ 53 * unit_of_one" unfolding a(4) by (rule less_le_trans) simp
  from dbl_to_int_nonneg(1) [OF a(1,2) this] have 1: "dbl_to_int 64 a = Some 0" unfolding a(4) div_less [OF lt] by simp
  define p10 where "p10 = powers_of_10 ! unat precision"
  have i: "unat precision < 18" using p(2) by (simp add: word_less_nat_alt)
  then have pw: "power_of_10 (unat precision) = Some p10" by (simp add: power_of_10_def p10_def)
  have z: "dbl_val (dbl_of_int 0) = 0" "finite_double (dbl_of_int 0)" "mag (dbl_of_int 0) = 0" using dbl_of_int_exact [of 0] by simp_all
  have rep: "representable (mag x)" using mag_form [OF fin] unfolding representable_def by metis
  have "finite_double p10"
  proof -
    have "10 ^ unat precision = 5 ^ unat precision * (2 :: nat) ^ unat precision" by (simp flip: power_mult_distrib)
    moreover have "(5 :: nat) ^ unat precision \<le> 5 ^ 17" using i by (intro power_increasing) simp_all
    ultimately have "10 ^ unat precision * unit_of_one = 5 ^ unat precision * 2 ^ (unat precision + 1074)" "(5 :: nat) ^ unat precision < 2 ^ 53"
      by (simp_all only: power_add mult.assoc) simp
    then have "representable (10 ^ unat precision * unit_of_one)" using i representableI [of "5 ^ unat precision" "unat precision + 1074"] by simp
    from round_double_exact(2) [OF this, of 1] show ?thesis using i by (simp add: p10_def powers_of_10_nth dbl_literal_def)
  qed
  moreover have "representable 0" using representableI [of 0 0] by simp
  ultimately have "finite_double (dbl_mul (dbl_of_int 0) p10)" "mag (dbl_mul (dbl_of_int 0) p10) = 0"
    using dbl_mul_exact [of "dbl_of_int 0" p10 0] z by simp_all
  then have mul: "finite_double (dbl_mul (dbl_of_int 0) p10)" "dbl_val (dbl_mul (dbl_of_int 0) p10) = 0" by (simp_all add: dbl_val_def)
  define r where "r = dbl_sub a (dbl_mul (dbl_of_int 0) p10)"
  have r: "dbl_val r = int (mag x)" "finite_double r" using dbl_sub_exact [OF a(1) mul(1)] rep by (simp_all add: a(3) mul(2) r_def)
  then have "mag r = mag x" by (auto simp: dbl_val_def split: if_splits)
  then have 2: "dbl_to_int 64 r = Some 0" using lt r(2) by (simp add: dbl_to_int_def dbl_trunc_def del: power_numeral)
  have q: "dbl_val (dbl_sub r (dbl_of_int 0)) = int (mag x)" "finite_double (dbl_sub r (dbl_of_int 0))"
    using dbl_sub_exact [OF r(2) z(2)] rep by (simp_all add: r z)
  have "dbl_val one_half = int H" "mag x < H" using one_half_val small by (simp_all only: H_def)
  then have cmp: "\<not> dbl_lt one_half (dbl_sub r (dbl_of_int 0))" "\<not> dbl_eq (dbl_sub r (dbl_of_int 0)) one_half"
    using q by (simp_all add: dbl_lt_def dbl_eq_def)
  show ?thesis
    unfolding get_components_def get_sign_bit_sign Let_def a_def [symmetric] 1 pw Option.bind.simps r_def [symmetric] 2
    using cmp p(1) by (simp add: word_less_nat_alt)
qed

section \<open>Digits\<close>

lemma signed_div_10: "int n sdiv 10 = int (n div 10)" "int n smod 10 = int (n mod 10)"
  by (cases "n = 0"; simp add: signed_divide_int_def signed_modulo_int_def zdiv_int zmod_int)+

lemma digit_of_int: "digit_of (int n) = digit_char 0 (n mod 10)"
  by (simp add: digit_of_def digit_char_def signed_div_10 nat_add_distrib)

lemma whole_digits_text:
  assumes "length buf + k \<le> 32" and "n < 10 ^ k" and "0 < k"
  shows "rev (whole_digits (int n) buf) = num_text 0 10 n @ rev buf"
  using assms
proof (induction n arbitrary: buf k rule: less_induct)
  case (less n)
  show ?case
  proof (cases "n < 10")
    case True
    then show ?thesis using less(2,4) by (simp add: whole_digits.simps [of "int n"] num_text.simps [of 0 10 n] signed_div_10 digit_of_int)
  next
    case False
    obtain j where k: "k = Suc j" using less(4) by (cases k) auto
    then have "0 < j" using False less(3) by (cases j) auto
    moreover have "n div 10 < 10 ^ j" using less(3) k by (simp add: less_mult_imp_div_less mult.commute)
    moreover have "n div 10 < n" "n div 10 \<noteq> 0" using False by (simp_all add: div_eq_0_iff)
    ultimately show ?thesis
      using less(1) [of "n div 10" "buf @ [digit_of (int n)]" j] less(2) k False
      by (simp add: whole_digits.simps [of "int n"] num_text.simps [of 0 10 n] signed_div_10 digit_of_int)
  qed
qed

text \<open>The flags left by a conversion without any: none, or that a precision was given.\<close>

lemma plain_flags: "\<not> has 0 f" "\<not> has FLAGS_PRECISION FLAGS_LEFT" "\<not> has FLAGS_PRECISION FLAGS_ZEROPAD" "\<not> has FLAGS_PRECISION FLAGS_HASH"
  "\<not> has FLAGS_PRECISION FLAGS_PLUS" "\<not> has FLAGS_PRECISION FLAGS_SPACE" "\<not> has FLAGS_PRECISION FLAGS_ADAPT_EXP" "has FLAGS_PRECISION FLAGS_PRECISION"
  by (simp_all add: has_def)

lemma not_beyond:
  assumes "dbl_val t = int n" and "mag x \<le> n"
  shows "\<not> dbl_lt t x" "\<not> dbl_lt x (dbl_neg t)"
  using assms by (auto simp: dbl_lt_def dbl_val_def [of x])

lemma beyond:
  assumes "dbl_val t = int n" and "n < mag x" and "\<not> is_nan t" and "\<not> is_nan x"
  shows "dbl_lt t x \<longleftrightarrow> \<not> dbl_sign x" "dbl_lt x (dbl_neg t) \<longleftrightarrow> dbl_sign x"
  using assms by (auto simp: dbl_lt_def dbl_val_def [of x])

lemma DBL_MAX_val: "dbl_val DBL_MAX = int ((2 ^ 53 - 1) * 2 ^ 2045)" "\<not> is_nan DBL_MAX"
  by (simp_all add: DBL_MAX_def dbl_val_def dbl_sign_def mag_def dbl_exp_def dbl_man_def is_nan_def)

lemma print_small_value:
  assumes "finite_double x" and "mag x \<le> 10 ^ 9 * unit_of_one"
  shows "print_floating_point x precision width flags False out =
    (case limit_precision (if has flags FLAGS_PRECISION then precision else 6) [] of (precision, buf) \<Rightarrow>
      print_decimal_number x precision width flags buf out)"
proof -
  have "10 ^ 9 * unit_of_one \<le> (2 ^ 53 - 1) * 2 ^ 2045" by simp
  note 1 = not_beyond [OF DBL_MAX_val(1) le_trans [OF assms(2) this]]
  have "dbl_val PRINTF_FLOAT_NOTATION_THRESHOLD = int (10 ^ 9 * unit_of_one)"
    using dbl_literal_exact(1) [of "10 ^ 9"] by (simp add: PRINTF_FLOAT_NOTATION_THRESHOLD_def)
  note not_beyond [OF this assms(2)]
  then show ?thesis using 1 assms(1) by (simp add: print_floating_point_def dbl_eq_def Let_def split: prod.split)
qed

section \<open>What is printed\<close>

definition sign_text :: "double \<Rightarrow> string" where
  "sign_text x = (if dbl_sign x then ''-'' else [])"

lemma round_half_even_le: "round_half_even n d \<le> n div d + 1"
  by (simp add: round_half_even_def Let_def)

lemma limit_precision_id: "precision < 18 \<Longrightarrow> limit_precision precision buf = (precision, buf)"
  by (subst limit_precision.simps) (auto simp: word_less_nat_alt)

text \<open>A decimal without width and flags: sign, digits, point and digits.\<close>

lemma print_decimal_plain:
  assumes "get_components x precision = Some c" and "flags = 0 \<or> flags = FLAGS_PRECISION"
    and "\<not> is_negative c \<or> length (whole_digits (integral c) (frac_part (fractional c) precision flags [])) < 32"
  shows "print_decimal_number x precision 0 flags [] out =
    Some (emit ((if is_negative c then ''-'' else []) @ rev (whole_digits (integral c) (frac_part (fractional c) precision flags []))) out)"
proof -
  have f: "\<not> has flags FLAGS_LEFT" "\<not> has flags FLAGS_ZEROPAD" "\<not> has flags FLAGS_PLUS" "\<not> has flags FLAGS_SPACE"
    using assms(2) plain_flags by auto
  then show ?thesis
    using assms(1,3) by (auto simp: print_decimal_number_def print_broken_up_decimal_emit push_sign_def pad_field_def Let_def)
qed

lemma print_rounded:
  assumes "finite_double x" and "mag x \<le> 10 ^ 9 * unit_of_one"
  shows "print_floating_point x 0 0 FLAGS_PRECISION False out =
    Some (emit (sign_text x @ num_text 0 10 (round_half_even (mag x) unit_of_one)) out)"
proof -
  let ?n = "round_half_even (mag x) unit_of_one"
  have "mag x < 2 ^ 52 * unit_of_one" using assms(2) by (rule le_less_trans) simp
  from get_components_round [OF assms(1) this]
  obtain f where c: "get_components x 0 = Some \<lparr>integral = int ?n, fractional = f, is_negative = dbl_sign x\<rparr>" by blast
  have "mag x div unit_of_one \<le> 10 ^ 9 * unit_of_one div unit_of_one" using assms(2) by (rule div_le_mono)
  then have "?n < 10 ^ 10" using round_half_even_le [of "mag x" unit_of_one] by simp
  then have t: "rev (whole_digits (int ?n) []) = num_text 0 10 ?n" "length (num_text 0 10 ?n) \<le> 10"
    using whole_digits_text [of "[]" 10 ?n] length_num_text [of 10 ?n 10 0] by simp_all
  have "length (whole_digits (int ?n) []) \<le> 10" using t(2) unfolding t(1) [symmetric] by simp
  then show ?thesis
    using print_decimal_plain [OF c, of FLAGS_PRECISION out] t(1) plain_flags
    by (simp add: print_small_value [OF assms] limit_precision_id frac_part_def sign_text_def)
qed

lemma print_small_fraction:
  assumes "finite_double x" and "mag x < 2 ^ 1073"
  shows "print_floating_point x 0 0 0 False out = Some (emit (sign_text x @ ''0.000000'') out)"
proof -
  have "mag x \<le> 10 ^ 9 * unit_of_one" using assms(2) by simp
  note p = print_small_value [OF assms(1) this]
  have "digit_of 0 = CHR ''0''" by code_simp
  then have t: "whole_digits 0 (frac_part 0 6 0 []) = rev ''0.000000''"
    by (simp add: frac_part_def plain_flags frac_digits.simps extra_zeros.simps whole_digits.simps push_char_def)
  show ?thesis
    using print_decimal_plain [OF get_components_small [OF assms, of 6], of 0 out] t
    by (simp add: p plain_flags limit_precision_id sign_text_def)
qed

lemma print_special:
  "is_nan x \<Longrightarrow> print_floating_point x precision 0 0 prefer out = Some (emit ''nan'' out)"
  "is_inf x \<Longrightarrow> print_floating_point x precision 0 0 prefer out = Some (emit (sign_text x @ ''inf'') out)"
proof -
  have o: "length cs < 2 ^ 32 \<Longrightarrow> out_rev cs 0 0 out = emit (rev cs) out" for cs by (simp add: out_rev_emit pad_field_0)
  show "is_nan x \<Longrightarrow> print_floating_point x precision 0 0 prefer out = Some (emit ''nan'' out)"
    by (simp add: print_floating_point_def dbl_eq_def o)
  assume x: "is_inf x"
  have n: "\<not> is_nan x" "mag x = 2 ^ 52 * 2 ^ 2046" using x by (simp_all add: is_inf_def is_nan_def mag_def)
  have "(2 ^ 53 - 1) * 2 ^ 2045 < mag x" unfolding n(2) by simp
  note beyond [OF DBL_MAX_val(1) this DBL_MAX_val(2) n(1)]
  then show "print_floating_point x precision 0 0 prefer out = Some (emit (sign_text x @ ''inf'') out)"
    using n(1) by (simp add: print_floating_point_def dbl_eq_def plain_flags o sign_text_def)
qed

section \<open>Whole numbers with a precision\<close>

lemma representable_int: "\<bar>i\<bar> < 2 ^ 53 \<Longrightarrow> representable (nat \<bar>i * int unit_of_one\<bar>)"
  using representable_units [of "nat \<bar>i\<bar>"] by (simp add: abs_mult nat_mult_distrib nat_power_eq del: power_numeral)

lemma get_components_whole:
  assumes fin: "finite_double x" and sign: "\<not> dbl_sign x" and n: "mag x = n * unit_of_one" "0 < n" "n \<le> 10 ^ 9"
  shows "get_components x 6 = Some \<lparr>integral = int n, fractional = - int (999999 * n), is_negative = False\<rparr>"
proof -
  define U where "U = unit_of_one"
  have U: "0 < U" by (simp add: U_def)
  note exact = representable_int [folded U_def]
  have small: "int n \<le> 10 ^ 9" using n(3) by simp
  have x: "dbl_val x = int n * int U" using sign n(1) by (simp add: dbl_val_def U_def)
  have "mag x < 2 ^ 53 * unit_of_one" unfolding n(1) using n(3) by (intro mult_strict_right_mono) simp_all
  from dbl_to_int_nonneg(1) [OF fin sign this] have 1: "dbl_to_int 64 x = Some (int n)" by (simp add: n(1))
  define p10 where "p10 = powers_of_10 ! 6"
  have p: "power_of_10 (unat (6 :: u32)) = Some p10" "finite_double p10" "mag p10 = 10 ^ 6 * U" "\<not> dbl_sign p10"
    using dbl_literal_exact [of "10 ^ 6"] by (simp_all add: power_of_10_def powers_of_10_nth p10_def U_def)
  have i: "dbl_val (dbl_of_int j) = j * int U" "finite_double (dbl_of_int j)" "mag (dbl_of_int j) = nat \<bar>j\<bar> * U" "dbl_sign (dbl_of_int j) \<longleftrightarrow> j < 0"
    if "\<bar>j\<bar> < 2 ^ 53" for j using dbl_of_int_exact [OF that] by (simp_all only: U_def)
  define m where "m = dbl_mul (dbl_of_int (int n)) p10"
  have "representable (n * 10 ^ 6 * U)" unfolding U_def using n(3) by (intro representable_units) simp
  from dbl_mul_exact [OF i(2) p(2) this, of "int n"] i [of "int n"] p n(3)
  have "finite_double m" "mag m = n * 10 ^ 6 * U" "\<not> dbl_sign m" by (simp_all add: U_def m_def)
  then have m: "finite_double m" "dbl_val m = int n * 10 ^ 6 * int U" by (simp_all add: dbl_val_def)
  define r where "r = dbl_sub x m"
  have v: "dbl_val x - dbl_val m = - int (999999 * n) * int U" by (simp add: x m(2) algebra_simps)
  have big: "\<bar>- int (999999 * n)\<bar> < 2 ^ 53" using small by simp
  have r: "dbl_val r = - int (999999 * n) * int U" "finite_double r"
    using dbl_sub_exact [OF fin m(1)] exact [OF big] unfolding v r_def by simp_all
  have "0 < int n * int U" using n(2) U by simp
  then have s: "dbl_sign r" "int (mag r) = int (999999 * n * U)" using r(1) by (auto simp: dbl_val_def split: if_splits)
  then have mr: "mag r = 999999 * n * U" by (simp only: of_nat_eq_iff)
  have t: "dbl_trunc r = - int (999999 * n)" unfolding dbl_trunc_def mr using s(1) by (simp add: U_def)
  have 2: "dbl_to_int 64 r = Some (- int (999999 * n))" unfolding dbl_to_int_def t using r(2) small by simp
  define q where "q = dbl_sub r (dbl_of_int (- int (999999 * n)))"
  have "dbl_val r - dbl_val (dbl_of_int (- int (999999 * n))) = 0" using i(1) [OF big] r(1) by simp
  moreover have "representable 0" using representableI [of 0 0] by simp
  ultimately have q: "dbl_val q = 0" "finite_double q" using dbl_sub_exact [OF r(2) i(2) [OF big]] unfolding q_def by simp_all
  have cmp: "\<not> dbl_lt one_half q" "\<not> dbl_eq q one_half" using q one_half_val by (simp_all add: dbl_lt_def dbl_eq_def)
  have x': "dbl_abs x = x" using sign by simp
  show ?thesis
    unfolding get_components_def get_sign_bit_sign Let_def x' 1 p(1) Option.bind.simps m_def [symmetric] r_def [symmetric] 2 q_def [symmetric]
    using cmp sign by simp
qed

text \<open>The digits of a negative fractional part lie below the digit zero.\<close>

definition below_zero :: "char \<Rightarrow> char" where
  "below_zero c = char_of (96 - of_char c :: nat)"

lemma digit_of_negative: "digit_of (- int n) = below_zero (digit_char 0 (n mod 10))"
proof -
  have "(- int n) smod 10 = - int (n mod 10)" by (cases "n = 0"; simp add: signed_modulo_int_def zmod_int)
  moreover have "nat (48 - int (n mod 10)) = 48 - n mod 10" by (simp add: nat_diff_distrib nat_mod_distrib)
  ultimately show ?thesis by (simp add: digit_of_def below_zero_def digit_char_def)
qed

lemma frac_digits_negative:
  assumes "length buf + length (num_text 0 10 n) \<le> 32"
  shows "frac_digits (- int n) count buf =
    (count - of_nat (length (num_text 0 10 n)), buf @ rev (map below_zero (num_text 0 10 n)))"
  using assms
proof (induction n arbitrary: count buf rule: less_induct)
  case (less n)
  show ?case
  proof (cases "n < 10")
    case True
    then show ?thesis using less(2) by (simp add: frac_digits.simps [of "- int n"] signed_div_10 num_text.simps [of 0 10 n] digit_of_negative)
  next
    case False
    then have nt: "num_text 0 10 n = num_text 0 10 (n div 10) @ [digit_char 0 (n mod 10)]" "n div 10 < n" "n div 10 \<noteq> 0"
      by (simp_all add: num_text.simps [of 0 10 n] div_eq_0_iff)
    have "length buf < 32" using less(2) by (simp add: nt(1))
    then show ?thesis using less(1) [OF nt(2), of "buf @ [digit_of (- int n)]" "count - 1"] less(2) nt
      by (simp add: frac_digits.simps [of "- int n"] signed_div_10 digit_of_negative diff_diff_eq)
  qed
qed

lemma extra_zeros_fill:
  "length buf \<le> 32 \<Longrightarrow> 32 - length buf \<le> unat count \<Longrightarrow> extra_zeros count buf = buf @ replicate (32 - length buf) CHR ''0''"
proof (induction count buf rule: extra_zeros.induct)
  case (1 count buf)
  show ?case
  proof (cases "length buf < 32")
    case True
    then have c: "0 < count" "unat (count - 1) = unat count - 1" using 1(3) by (cases "count = 0"; simp add: unat_minus_one word_less_nat_alt)+
    obtain k where "32 - length buf = Suc k" using True by (metis zero_less_diff Suc_pred')
    then show ?thesis using 1 True c by (simp add: extra_zeros.simps [of count])
  qed (use 1(2) in \<open>simp add: extra_zeros.simps [of count]\<close>)
qed

lemma num_text_lower: "2 \<le> base \<Longrightarrow> n < base ^ length (num_text flags base n)"
proof (induction flags base n rule: num_text.induct)
  case (1 flags base n)
  show ?case
  proof (cases "n < base")
    case False
    then have "n div base < base ^ length (num_text flags base (n div base))" using 1 by simp
    then have "n < base ^ length (num_text flags base (n div base)) * base" using 1(2) by (simp add: div_less_iff_less_mult)
    then show ?thesis using False 1(2) by (simp add: num_text.simps [of flags base n] mult.commute)
  qed (use 1(2) in \<open>simp add: num_text.simps [of flags base n]\<close>)
qed

text \<open>From two on the product has seven digits or more: the count of missing digits wraps, and zeros fill the scratch array
  before the point and the integral part.\<close>

lemma print_whole:
  assumes "finite_double x" and "\<not> dbl_sign x" and "mag x = n * unit_of_one" and "2 \<le> n" and "n \<le> 10 ^ 9"
  shows "print_floating_point x 0 0 0 False out =
    Some (emit (replicate (32 - length (num_text 0 10 (999999 * n))) CHR ''0'' @ map below_zero (num_text 0 10 (999999 * n))) out)"
proof -
  let ?ds = "num_text 0 10 (999999 * n)"
  have hi: "length ?ds \<le> 15" using assms(5) by (intro length_num_text) simp_all
  have lo: "7 \<le> length ?ds"
  proof (rule ccontr)
    assume "\<not> 7 \<le> length ?ds"
    then have "(10 :: nat) ^ length ?ds \<le> 10 ^ 6" by (intro power_increasing) simp_all
    then show False using num_text_lower [of 10 "999999 * n" 0] assms(4) by simp
  qed
  have "unat (6 - of_nat (length ?ds) :: u32) \<ge> 32"
  proof -
    obtain k where k: "length ?ds = 6 + k" "0 < k" "k < 10" using lo hi by (intro that [of "length ?ds - 6"]) linarith+
    have "(- of_nat k :: u32) = of_nat (2 ^ 32 - k)" using k(3) by (simp add: of_nat_diff)
    then have "unat (- of_nat k :: u32) = 2 ^ 32 - k" using k(2,3) by (simp only: unat_of_nat) simp
    then show ?thesis unfolding k(1) using k(3) by simp
  qed
  then have "frac_part (- int (999999 * n)) 6 0 [] = rev (map below_zero ?ds) @ replicate (32 - length ?ds) CHR ''0''" (is "_ = ?buf")
    using hi by (simp add: frac_part_def plain_flags frac_digits_negative extra_zeros_fill push_char_def del: of_nat_mult)
  moreover have "whole_digits (int n) ?buf = ?buf" using hi by (subst whole_digits.simps) simp
  moreover note get_components_whole [OF assms(1-3) _ assms(5)]
  ultimately have "print_decimal_number x 6 0 0 [] out = Some (emit (rev ?buf) out)"
    using print_decimal_plain [of x 6 _ 0 out] assms(4) by simp
  moreover have "mag x \<le> 10 ^ 9 * unit_of_one" unfolding assms(3) using assms(5) by (rule mult_right_mono) simp
  ultimately show ?thesis by (simp add: print_small_value [OF assms(1)] plain_flags limit_precision_id)
qed

end
