(* ===== verification/Ice_Printf.thy ===== *)
theory Ice_Printf
  imports Ice_Float
begin

text \<open>
  The format interpreter of \<^verbatim>\<open>kernel/libs/libc/stdio.cpp\<close> and its entry points, over the output
  gadgets and integers of \<open>Ice_Output\<close> and the doubles of \<open>Ice_Float\<close>. A format string is its characters before the
  terminator. Variadic arguments are integer-class values (integers and pointers, 64-bit
  slots of which a conversion reads its width), pointers to strings, given by the string, or
  doubles; \<^const>\<open>None\<close> marks a call whose behaviour C++ leaves undefined: an argument of the
  wrong class, a missing argument, a format that ends inside a conversion, where the code
  steps over the terminator, or a double whose conversion is undefined.
\<close>

unbundle bit_operations_syntax

section \<open>The format string\<close>

datatype va = Word u64 | Str string | Double u64

text \<open>Outcome of parsing a part of a conversion: the macro \<^verbatim>\<open>ADVANCE_IN_FORMAT_STRING\<close> returns
  from the loop at the terminator.\<close>

datatype 'v step = Return | Undefined | Next 'v

definition current :: "string \<Rightarrow> char" where
  "current fmt = (case fmt of [] \<Rightarrow> CHR 0x00 | c # _ \<Rightarrow> c)"

definition advance :: "string \<Rightarrow> string step" where
  "advance fmt = (case tl fmt of [] \<Rightarrow> Return | c # cs \<Rightarrow> Next (c # cs))"

fun pop_word :: "va list \<Rightarrow> (u64 \<times> va list) option" where
  "pop_word (Word v # args) = Some (v, args)"
| "pop_word _ = None"

definition is_digit :: "char \<Rightarrow> bool" where
  "is_digit ch \<longleftrightarrow> 48 \<le> (of_char ch :: nat) \<and> (of_char ch :: nat) \<le> 57"

fun atou :: "u32 \<Rightarrow> string \<Rightarrow> u32 \<times> string" where
  "atou i [] = (i, [])"
| "atou i (c # cs) = (if is_digit c then atou (i * 10 + of_nat (of_char c - 48)) cs else (i, c # cs))"

fun parse_flags :: "u32 \<Rightarrow> string \<Rightarrow> u32 \<times> string" where
  "parse_flags flags [] = (flags, [])"
| "parse_flags flags (c # cs) =
     (if c = CHR ''0'' then parse_flags (flags OR FLAGS_ZEROPAD) cs
      else if c = CHR ''-'' then parse_flags (flags OR FLAGS_LEFT) cs
      else if c = CHR ''+'' then parse_flags (flags OR FLAGS_PLUS) cs
      else if c = CHR '' '' then parse_flags (flags OR FLAGS_SPACE) cs
      else if c = CHR ''#'' then parse_flags (flags OR FLAGS_HASH) cs
      else (flags, c # cs))"

definition parse_width :: "u32 \<Rightarrow> string \<Rightarrow> va list \<Rightarrow> (u32 \<times> u32 \<times> string \<times> va list) step" where
  "parse_width flags fmt args =
     (if is_digit (current fmt) then (case atou 0 fmt of (width, fmt') \<Rightarrow> Next (flags, width, fmt', args))
      else if current fmt = CHR ''*'' then
        (case pop_word args of None \<Rightarrow> Undefined
         | Some (v, args') \<Rightarrow>
             let w = ucast v :: i32;
                 (flags', width) = (if sint w < 0 then (flags OR FLAGS_LEFT, - w) else (flags, w))
             in case advance fmt of Next fmt' \<Rightarrow> Next (flags', width, fmt', args')
                | Return \<Rightarrow> Return | Undefined \<Rightarrow> Undefined)
      else Next (flags, 0, fmt, args))"

definition parse_precision :: "u32 \<Rightarrow> string \<Rightarrow> va list \<Rightarrow> (u32 \<times> u32 \<times> string \<times> va list) step" where
  "parse_precision flags fmt args =
     (if current fmt = CHR ''.'' then
        (let flags' = flags OR FLAGS_PRECISION in
         case advance fmt of Return \<Rightarrow> Return | Undefined \<Rightarrow> Undefined
         | Next fmt1 \<Rightarrow>
             if is_digit (current fmt1)
             then (case atou 0 fmt1 of (precision, fmt2) \<Rightarrow> Next (flags', precision, fmt2, args))
             else if current fmt1 = CHR ''*'' then
               (case pop_word args of None \<Rightarrow> Undefined
                | Some (v, args') \<Rightarrow>
                    let w = ucast v :: i32; precision = (if sint w > 0 then w else 0)
                    in case advance fmt1 of Next fmt2 \<Rightarrow> Next (flags', precision, fmt2, args')
                       | Return \<Rightarrow> Return | Undefined \<Rightarrow> Undefined)
             else Next (flags', 0, fmt1, args))
      else Next (flags, 0, fmt, args))"

definition parse_doubled :: "u32 \<Rightarrow> u32 \<Rightarrow> char \<Rightarrow> u32 \<Rightarrow> string \<Rightarrow> (u32 \<times> string) step" where
  "parse_doubled flags f1 c f2 fmt =
     (case advance fmt of Return \<Rightarrow> Return | Undefined \<Rightarrow> Undefined
      | Next fmt1 \<Rightarrow>
          if current fmt1 = c then
            (case advance fmt1 of Next fmt2 \<Rightarrow> Next (flags OR f1 OR f2, fmt2)
             | Return \<Rightarrow> Return | Undefined \<Rightarrow> Undefined)
          else Next (flags OR f1, fmt1))"

definition parse_length :: "u32 \<Rightarrow> string \<Rightarrow> (u32 \<times> string) step" where
  "parse_length flags fmt =
     (if current fmt = CHR ''l'' then parse_doubled flags FLAGS_LONG CHR ''l'' FLAGS_LONG_LONG fmt
      else if current fmt = CHR ''h'' then parse_doubled flags FLAGS_SHORT CHR ''h'' FLAGS_CHAR fmt
      else if current fmt \<in> {CHR ''t'', CHR ''j'', CHR ''z''} then
        (case advance fmt of Next fmt' \<Rightarrow> Next (flags OR FLAGS_LONG, fmt')
         | Return \<Rightarrow> Return | Undefined \<Rightarrow> Undefined)
      else Next (flags, fmt))"

definition print_integer_spec ::
  "char \<Rightarrow> u32 \<Rightarrow> u32 \<Rightarrow> u32 \<Rightarrow> u64 \<Rightarrow> 'a out \<Rightarrow> 'a out" where
  "print_integer_spec sp flags0 width precision v out =
     (let flags1 = (if sp = CHR ''d'' \<or> sp = CHR ''i'' then flags0 OR FLAGS_SIGNED else flags0);
          (base, flags2) =
            (if sp = CHR ''x'' \<or> sp = CHR ''X'' then (16 :: u8, flags1)
             else if sp = CHR ''o'' then (8, flags1)
             else if sp = CHR ''b'' then (2, flags1)
             else (10, flags1 AND NOT FLAGS_HASH));
          flags3 = (if sp = CHR ''X'' then flags2 OR FLAGS_UPPERCASE else flags2);
          flags = (if has flags3 FLAGS_PRECISION then flags3 AND NOT FLAGS_ZEROPAD else flags3)
      in if has flags FLAGS_SIGNED then
           let value = (if has flags FLAGS_LONG_LONG \<or> has flags FLAGS_LONG then v
                 else if has flags FLAGS_CHAR then scast (ucast v :: u8)
                 else if has flags FLAGS_SHORT then scast (ucast v :: u16)
                 else scast (ucast v :: i32))
           in print_integer (abs_for_printing value) (sint value < 0) base precision width flags out
         else
           let flags' = flags AND NOT (FLAGS_PLUS OR FLAGS_SPACE);
               value = (if has flags' FLAGS_LONG_LONG \<or> has flags' FLAGS_LONG then v
                 else if has flags' FLAGS_CHAR then ucast (ucast v :: u8)
                 else if has flags' FLAGS_SHORT then ucast (ucast v :: u16)
                 else ucast (ucast v :: u32))
           in print_integer value False base precision width flags' out)"

definition print_char_spec :: "u32 \<Rightarrow> u32 \<Rightarrow> u64 \<Rightarrow> 'a out \<Rightarrow> 'a out" where
  "print_char_spec flags width v out =
     (let out1 = (if \<not> has flags FLAGS_LEFT then pad_from 1 width out else out);
          out2 = putchar_via_gadget (char_of (unat v)) out1
      in if has flags FLAGS_LEFT then pad_from 1 width out2 else out2)"

definition strnlen_s :: "string \<Rightarrow> u32 \<Rightarrow> u32" where
  "strnlen_s str maxsize = of_nat (min (length str) (unat maxsize))"

definition print_string_spec :: "u32 \<Rightarrow> u32 \<Rightarrow> u32 \<Rightarrow> string \<Rightarrow> 'a out \<Rightarrow> 'a out" where
  "print_string_spec flags width precision p out =
     (let l0 = strnlen_s p (if precision \<noteq> 0 then precision else PRINTF_MAX_POSSIBLE_BUFFER_SIZE);
          l = (if has flags FLAGS_PRECISION then (if l0 < precision then l0 else precision) else l0);
          out1 = (if \<not> has flags FLAGS_LEFT then pad_from l width out else out);
          out2 = fold putchar_via_gadget (if has flags FLAGS_PRECISION then take (unat precision) p else p) out1
      in if has flags FLAGS_LEFT then pad_from l width out2 else out2)"

definition print_pointer_spec :: "u32 \<Rightarrow> u32 \<Rightarrow> u64 \<Rightarrow> 'a out \<Rightarrow> 'a out" where
  "print_pointer_spec flags0 precision value out =
     (let width = 18; flags = flags0 OR FLAGS_ZEROPAD OR FLAGS_POINTER in
      if value = 0 then out_rev '')lin('' width flags out
      else print_integer value False 16 precision width flags out)"

definition store_count_spec :: "u32 \<Rightarrow> u64 \<Rightarrow> 'a out \<Rightarrow> 'a out" where
  "store_count_spec flags p out =
     (let (gadget, s) = out;
          k = (if has flags FLAGS_CHAR then 1 else if has flags FLAGS_SHORT then 2
               else if has flags FLAGS_LONG \<or> has flags FLAGS_LONG_LONG then 8 else 4)
      in (gadget, s\<lparr>mem := store_le (mem s) p (ucast (pos gadget)) k\<rparr>))"

definition print_spec ::
  "char \<Rightarrow> u32 \<Rightarrow> u32 \<Rightarrow> u32 \<Rightarrow> va list \<Rightarrow> 'a out \<Rightarrow> (va list \<times> 'a out) option" where
  "print_spec sp flags width precision args out =
     (if sp \<in> {CHR ''d'', CHR ''i'', CHR ''u'', CHR ''x'', CHR ''X'', CHR ''o'', CHR ''b''} then
        (case args of Word v # args' \<Rightarrow> Some (args', print_integer_spec sp flags width precision v out)
         | _ \<Rightarrow> None)
      else if sp \<in> {CHR ''f'', CHR ''F''} then
        (case args of Double v # args' \<Rightarrow>
           map_option (Pair args') (print_floating_point v precision width
             (if sp = CHR ''F'' then flags OR FLAGS_UPPERCASE else flags) False out)
         | _ \<Rightarrow> None)
      else if sp \<in> {CHR ''e'', CHR ''E'', CHR ''g'', CHR ''G''} then
        (let flags1 = (if sp = CHR ''g'' \<or> sp = CHR ''G'' then flags OR FLAGS_ADAPT_EXP else flags);
             flags2 = (if sp = CHR ''E'' \<or> sp = CHR ''G'' then flags1 OR FLAGS_UPPERCASE else flags1)
         in case args of Double v # args' \<Rightarrow> map_option (Pair args') (print_floating_point v precision width flags2 True out)
            | _ \<Rightarrow> None)
      else if sp = CHR ''c'' then
        (case args of Word v # args' \<Rightarrow> Some (args', print_char_spec flags width v out) | _ \<Rightarrow> None)
      else if sp = CHR ''s'' then
        (case args of Str p # args' \<Rightarrow> Some (args', print_string_spec flags width precision p out)
         | Word v # args' \<Rightarrow> if v = 0 then Some (args', out_rev '')llun('' width flags out) else None
         | _ \<Rightarrow> None)
      else if sp = CHR ''p'' then
        (case args of Word v # args' \<Rightarrow> Some (args', print_pointer_spec flags precision v out) | _ \<Rightarrow> None)
      else if sp = CHR ''%'' then Some (args, putchar_via_gadget CHR ''%'' out)
      else if sp = CHR ''n'' then
        (case args of Word v # args' \<Rightarrow> Some (args', store_count_spec flags v out) | _ \<Rightarrow> None)
      else Some (args, putchar_via_gadget sp out))"

text \<open>Flags, width, precision and length of the conversion after a percent sign.\<close>

definition parse_conversion ::
  "string \<Rightarrow> va list \<Rightarrow> (u32 \<times> u32 \<times> u32 \<times> string \<times> va list) step" where
  "parse_conversion fmt args =
     (case advance fmt of Return \<Rightarrow> Return | Undefined \<Rightarrow> Undefined
      | Next fmt1 \<Rightarrow>
     (case parse_flags 0 fmt1 of (flags1, fmt2) \<Rightarrow>
     (case parse_width flags1 fmt2 args of Return \<Rightarrow> Return | Undefined \<Rightarrow> Undefined
      | Next (flags2, width, fmt3, args1) \<Rightarrow>
     (case parse_precision flags2 fmt3 args1 of Return \<Rightarrow> Return | Undefined \<Rightarrow> Undefined
      | Next (flags3, precision, fmt4, args2) \<Rightarrow>
     (case parse_length flags3 fmt4 of Return \<Rightarrow> Return | Undefined \<Rightarrow> Undefined
      | Next (flags, fmt5) \<Rightarrow> Next (flags, width, precision, fmt5, args2))))))"

lemma atou_length: "atou i fmt = (v, fmt') \<Longrightarrow> length fmt' \<le> length fmt"
  by (induction fmt arbitrary: i) (auto split: if_splits intro: le_SucI)

lemma parse_flags_length: "parse_flags i fmt = (v, fmt') \<Longrightarrow> length fmt' \<le> length fmt"
  by (induction fmt arbitrary: i) (auto split: if_splits intro: le_SucI)

lemma advance_length: "advance fmt = Next fmt' \<Longrightarrow> length fmt' < length fmt"
  by (cases fmt) (auto simp: advance_def split: list.splits)

lemmas parse_lengths = atou_length parse_flags_length advance_length

lemma parse_width_length: "parse_width f fmt args = Next (f', w, fmt', args') \<Longrightarrow> length fmt' \<le> length fmt"
  by (auto simp: parse_width_def Let_def split: if_splits prod.splits option.splits step.splits
      dest!: parse_lengths)

lemma parse_precision_length:
  "parse_precision f fmt args = Next (f', w, fmt', args') \<Longrightarrow> length fmt' \<le> length fmt"
  by (auto simp: parse_precision_def Let_def split: if_splits prod.splits option.splits step.splits
      dest!: parse_lengths)

lemma parse_length_length: "parse_length f fmt = Next (f', fmt') \<Longrightarrow> length fmt' \<le> length fmt"
  by (auto simp: parse_length_def parse_doubled_def split: if_splits step.splits dest!: parse_lengths)

lemma parse_conversion_length:
  "parse_conversion fmt args = Next (flags, width, precision, fmt', args') \<Longrightarrow> length fmt' < length fmt"
  by (auto simp: parse_conversion_def split: prod.splits step.splits
      dest!: parse_lengths parse_width_length parse_precision_length parse_length_length)

function format_string_loop ::
  "string \<Rightarrow> va list \<Rightarrow> 'a out \<Rightarrow> 'a out option" where
  "format_string_loop fmt args out =
     (if fmt = [] then Some out
      else if hd fmt \<noteq> CHR ''%'' then format_string_loop (tl fmt) args (putchar_via_gadget (hd fmt) out)
      else case parse_conversion fmt args of
        Return \<Rightarrow> Some out
      | Undefined \<Rightarrow> None
      | Next (flags, width, precision, fmt', args') \<Rightarrow>
          (if fmt' = [] then None
           else case print_spec (hd fmt') flags width precision args' out of
             None \<Rightarrow> None
           | Some (args'', out') \<Rightarrow> format_string_loop (tl fmt') args'' out'))"
  by pat_completeness auto
termination
  by (relation "measure (\<lambda>(fmt, args, out). length fmt)")
    (auto dest!: parse_conversion_length)

definition vsnprintf_impl ::
  "string \<Rightarrow> va list \<Rightarrow> 'a out \<Rightarrow> (i32 \<times> 'a machine_scheme) option" where
  "vsnprintf_impl fmt args out =
     (case format_string_loop fmt args out of None \<Rightarrow> None
      | Some out' \<Rightarrow> (case append_termination_with_gadget out' of (gadget, s) \<Rightarrow> Some (pos gadget, s)))"

definition vsnprintf ::
  "u64 \<Rightarrow> u64 \<Rightarrow> string \<Rightarrow> va list \<Rightarrow> 'a machine_scheme \<Rightarrow> (i32 \<times> 'a machine_scheme) option" where
  "vsnprintf s count fmt args st = vsnprintf_impl fmt args (buffer_gadget s (ucast count), st)"

definition vsprintf ::
  "u64 \<Rightarrow> string \<Rightarrow> va list \<Rightarrow> 'a machine_scheme \<Rightarrow> (i32 \<times> 'a machine_scheme) option" where
  "vsprintf s fmt args st = vsnprintf s (ucast PRINTF_MAX_POSSIBLE_BUFFER_SIZE) fmt args st"

definition vfctprintf ::
  "(char \<Rightarrow> u64 \<Rightarrow> 'a machine_scheme \<Rightarrow> 'a machine_scheme) \<Rightarrow> u64 \<Rightarrow> string \<Rightarrow> va list
    \<Rightarrow> 'a machine_scheme \<Rightarrow> (i32 \<times> 'a machine_scheme) option" where
  "vfctprintf f extra_arg fmt args st = vsnprintf_impl fmt args (function_gadget f extra_arg, st)"

declare format_string_loop.simps [simp del]

text \<open>The part of a format from the specifier of its first conversion on, and the formats without a conversion \<open>%n\<close>.\<close>

definition skip_number :: "string \<Rightarrow> string" where
  "skip_number fmt = (if is_digit (current fmt) then dropWhile is_digit fmt else if current fmt = CHR ''*'' then tl fmt else fmt)"

definition skip_precision :: "string \<Rightarrow> string" where
  "skip_precision fmt = (if current fmt = CHR ''.'' then skip_number (tl fmt) else fmt)"

definition skip_length :: "string \<Rightarrow> string" where
  "skip_length fmt =
     (if current fmt \<in> {CHR ''l'', CHR ''h''} then if current (tl fmt) = current fmt then tl (tl fmt) else tl fmt
      else if current fmt \<in> {CHR ''t'', CHR ''j'', CHR ''z''} then tl fmt else fmt)"

definition conversion_rest :: "string \<Rightarrow> string" where
  "conversion_rest fmt = skip_length (skip_precision (skip_number (dropWhile (\<lambda>c. c \<in> set ''0-+ #'') (tl fmt))))"

lemma skip_lengths: "length (skip_number x) \<le> length x" "length (skip_precision x) \<le> length x" "length (skip_length x) \<le> length x"
proof -
  show number: "length (skip_number x) \<le> length x" for x by (simp add: skip_number_def length_dropWhile_le)
  show "length (skip_precision x) \<le> length x" using le_trans [OF number [of "tl x"]] by (simp add: skip_precision_def)
  show "length (skip_length x) \<le> length x" by (simp add: skip_length_def)
qed

lemma conversion_rest_length: "length (conversion_rest fmt) \<le> length fmt - 1"
  unfolding conversion_rest_def
  by (rule le_trans, rule skip_lengths, rule le_trans, rule skip_lengths, rule le_trans, rule skip_lengths)
    (use length_dropWhile_le [of _ "tl fmt"] in simp)

function no_percent_n :: "string \<Rightarrow> bool" where
  "no_percent_n [] = True"
| "no_percent_n (c # cs) =
     (if c \<noteq> CHR ''%'' then no_percent_n cs
      else case conversion_rest (c # cs) of [] \<Rightarrow> True | sp # rest \<Rightarrow> sp \<noteq> CHR ''n'' \<and> no_percent_n rest)"
  by pat_completeness auto
termination
proof (relation "measure length")
  fix c cs sp rest assume "conversion_rest (c # cs) = sp # rest"
  then show "(rest, c # cs) \<in> measure length" using conversion_rest_length [of "c # cs"] by simp
qed simp_all

definition digit_value :: "char \<Rightarrow> nat" where
  "digit_value c = (if is_digit c then of_char c - 48 else of_char c - 87)"

definition read_num :: "nat \<Rightarrow> string \<Rightarrow> nat" where
  "read_num base cs = foldl (\<lambda>n c. n * base + digit_value c) 0 cs"

lemma print_char_spec_emit:
  "print_char_spec flags width v out =
    emit (let pad = replicate (unat width - 1) CHR '' ''; c = char_of (unat v) in
      if has flags FLAGS_LEFT then c # pad else pad @ [c]) out"
  by (simp add: print_char_spec_def Let_def pad_from_emit emit_append)

lemma print_string_spec_emit:
  "print_string_spec flags width precision p out =
    emit (let l0 = strnlen_s p (if precision \<noteq> 0 then precision else PRINTF_MAX_POSSIBLE_BUFFER_SIZE);
              l = (if has flags FLAGS_PRECISION then (if l0 < precision then l0 else precision) else l0);
              pad = replicate (unat width - unat l) CHR '' '';
              txt = (if has flags FLAGS_PRECISION then take (unat precision) p else p)
          in if has flags FLAGS_LEFT then txt @ pad else pad @ txt) out"
  by (simp add: print_string_spec_def Let_def pad_from_emit emit_append flip: emit_def)

lemma emits_char: "emits (print_char_spec flags width v)"
  by (rule emitsI) (rule print_char_spec_emit)

lemma emits_string: "emits (print_string_spec flags width precision p)"
  by (rule emitsI) (rule print_string_spec_emit)

lemma emits_pointer: "emits (print_pointer_spec flags precision v)"
  unfolding print_pointer_spec_def Let_def by (intro emits_if emits_out_rev emits_integer) simp

lemma emits_integer_spec: "emits (print_integer_spec sp flags width precision v)"
  unfolding print_integer_spec_def Let_def by (intro emits_prod emits_if emits_integer)

text \<open>A conversion is undefined for every gadget, or sends one text to every gadget.\<close>

definition uniform :: "('a out \<Rightarrow> ('b \<times> 'a out) option) \<Rightarrow> bool" where
  "uniform g \<longleftrightarrow> (\<forall>out. g out = None) \<or> (\<exists>a cs. \<forall>out. g out = Some (a, emit cs out))"

lemma uniform_None: "uniform (\<lambda>out. None)"
  by (simp add: uniform_def)

lemma uniform_Some: "emits f \<Longrightarrow> uniform (\<lambda>out. Some (a, f out))"
  by (auto simp: uniform_def emits_def)

lemma uniform_map: "emits_or_undefined f \<Longrightarrow> uniform (\<lambda>out. map_option (Pair a) (f out))"
  unfolding uniform_def emits_or_undefined_def by (metis option.map)

lemma uniform_if: "(c \<Longrightarrow> uniform f) \<Longrightarrow> (\<not> c \<Longrightarrow> uniform g) \<Longrightarrow> uniform (\<lambda>out. if c then f out else g out)"
  by (cases c) simp_all

lemma uniform_case_list:
  "uniform f \<Longrightarrow> (\<And>x xs. uniform (g x xs)) \<Longrightarrow> uniform (\<lambda>out. case args of [] \<Rightarrow> f out | x # xs \<Rightarrow> g x xs out)"
  by (cases args) simp_all

lemma uniform_case_va:
  "(\<And>v. uniform (f v)) \<Longrightarrow> (\<And>v. uniform (g v)) \<Longrightarrow> (\<And>v. uniform (h v)) \<Longrightarrow>
    uniform (\<lambda>out. case a of Word v \<Rightarrow> f v out | Str v \<Rightarrow> g v out | Double v \<Rightarrow> h v out)"
  by (cases a) simp_all

lemma print_spec_uniform:
  assumes "sp \<noteq> CHR ''n''"
  shows "uniform (print_spec sp flags width precision args)"
  unfolding print_spec_def Let_def
  using assms
  by (intro uniform_if uniform_case_list uniform_case_va uniform_map uniform_Some uniform_None emits_floating_point
      emits_integer_spec emits_char emits_string emits_pointer emits_putchar emits_out_rev)
    (simp_all)

text \<open>Parsing a conversion leaves the part of the format that begins with the specifier, whatever the arguments are.\<close>

lemma atou_rest: "atou i fmt = (v, fmt') \<Longrightarrow> fmt' = dropWhile is_digit fmt"
  by (induction fmt arbitrary: i) (auto split: if_splits)

lemma parse_flags_rest: "parse_flags i fmt = (v, fmt') \<Longrightarrow> fmt' = dropWhile (\<lambda>c. c \<in> set ''0-+ #'') fmt"
  by (induction fmt arbitrary: i) (auto split: if_splits)

lemma advance_rest: "advance fmt = Next fmt' \<Longrightarrow> fmt' = tl fmt"
  by (auto simp: advance_def split: list.splits)

lemmas parse_rests = atou_rest parse_flags_rest advance_rest

lemma parse_width_rest: "parse_width f fmt args = Next (f', w, fmt', args') \<Longrightarrow> fmt' = skip_number fmt"
  by (auto simp: parse_width_def skip_number_def Let_def split: if_splits prod.splits option.splits step.splits dest!: parse_rests)

lemma parse_precision_rest: "parse_precision f fmt args = Next (f', w, fmt', args') \<Longrightarrow> fmt' = skip_precision fmt"
  by (auto simp: parse_precision_def skip_precision_def skip_number_def Let_def split: if_splits prod.splits option.splits step.splits
      dest!: parse_rests)

lemma parse_length_rest: "parse_length f fmt = Next (f', fmt') \<Longrightarrow> fmt' = skip_length fmt"
  by (auto simp: parse_length_def parse_doubled_def skip_length_def split: if_splits step.splits dest!: parse_rests)

lemma parse_conversion_rest:
  "parse_conversion fmt args = Next (flags, width, precision, fmt', args') \<Longrightarrow> fmt' = conversion_rest fmt"
  by (auto simp: parse_conversion_def conversion_rest_def split: prod.splits step.splits
      dest!: parse_rests parse_width_rest parse_precision_rest parse_length_rest)

lemma format_loop_text [simp]:
  "format_string_loop [] args out = Some out"
  "c \<noteq> CHR ''%'' \<Longrightarrow>
    format_string_loop (c # cs) args out = format_string_loop cs args (putchar_via_gadget c out)"
  by (simp_all add: format_string_loop.simps)

text \<open>A plain character before a uniform rest, and a conversion before a uniform rest.\<close>

lemma format_loop_char:
  assumes "c \<noteq> CHR ''%''" and rest: "emits_or_undefined (format_string_loop cs args :: 'a out \<Rightarrow> 'a out option)"
  shows "emits_or_undefined (format_string_loop (c # cs) args :: 'a out \<Rightarrow> 'a out option)"
proof -
  have step: "format_string_loop (c # cs) args out = format_string_loop cs args (emit [c] out)" for out :: "'a out"
    using assms(1) by simp
  from rest consider "\<And>out. format_string_loop cs args (out :: 'a out) = None"
    | ys where "\<And>out. format_string_loop cs args (out :: 'a out) = Some (emit ys out)"
    unfolding emits_or_undefined_def by blast
  then show ?thesis
  proof cases
    case 2
    then have "format_string_loop (c # cs) args out = Some (emit (c # ys) out)" for out :: "'a out"
      unfolding step by simp
    then show ?thesis unfolding emits_or_undefined_def by blast
  qed (simp add: emits_or_undefined_def step)
qed

lemma format_loop_conversion:
  assumes fmt: "fmt \<noteq> []" "hd fmt = CHR ''%''"
    and p: "parse_conversion fmt args = Next (flags, width, precision, sp # fmt', args')"
    and sp: "sp \<noteq> CHR ''n''"
    and rest: "\<And>a. emits_or_undefined (format_string_loop fmt' a :: 'a out \<Rightarrow> 'a out option)"
  shows "emits_or_undefined (format_string_loop fmt args :: 'a out \<Rightarrow> 'a out option)"
proof -
  have step: "format_string_loop fmt args out =
      (case print_spec sp flags width precision args' out of None \<Rightarrow> None
       | Some (args'', out') \<Rightarrow> format_string_loop fmt' args'' out')" for out :: "'a out"
    using fmt by (simp add: format_string_loop.simps [of fmt] p split: option.split)
  from print_spec_uniform [where flags = flags and width = width and precision = precision and args = args', OF sp]
  consider "\<And>out :: 'a out. print_spec sp flags width precision args' out = None"
    | a cs where "\<And>out :: 'a out. print_spec sp flags width precision args' out = Some (a, emit cs out)"
    by (auto simp: uniform_def)
  then show ?thesis
  proof cases
    case 2
    from rest [of a] consider "\<And>out :: 'a out. format_string_loop fmt' a out = None"
      | ys where "\<And>out :: 'a out. format_string_loop fmt' a out = Some (emit ys out)"
      unfolding emits_or_undefined_def by blast
    then show ?thesis
    proof cases
      case more: 2
      have "format_string_loop fmt args out = Some (emit (cs @ ys) out)" for out :: "'a out"
        by (simp add: step 2 more emit_append)
      then show ?thesis unfolding emits_or_undefined_def by blast
    qed (simp add: emits_or_undefined_def step 2)
  qed (simp add: emits_or_undefined_def step)
qed

lemma format_loop_end:
  assumes fmt: "fmt \<noteq> []" "hd fmt = CHR ''%''"
    and rest: "\<nexists>flags width precision sp fmt' args'. parse_conversion fmt args = Next (flags, width, precision, sp # fmt', args')"
  shows "emits_or_undefined (format_string_loop fmt args :: 'a out \<Rightarrow> 'a out option)"
proof (cases "parse_conversion fmt args")
  case (Next x)
  then show ?thesis
    using assms by (cases x) (auto simp: emits_or_undefined_def format_string_loop.simps [of fmt] neq_Nil_conv)
next
  case Return
  then have "format_string_loop fmt args out = Some (emit [] out)" for out :: "'a out"
    using fmt by (simp add: format_string_loop.simps [of fmt])
  then show ?thesis unfolding emits_or_undefined_def by blast
qed (use fmt in \<open>simp add: emits_or_undefined_def format_string_loop.simps [of fmt]\<close>)

lemma format_loop_uniform:
  assumes "no_percent_n fmt"
  shows "emits_or_undefined (format_string_loop fmt args :: 'a out \<Rightarrow> 'a out option)"
  using assms
proof (induction "length fmt" arbitrary: fmt args rule: less_induct)
  case less
  consider (empty) "fmt = []" | (char) c cs where "fmt = c # cs" "c \<noteq> CHR ''%''"
    | (conversion) "fmt \<noteq> []" "hd fmt = CHR ''%''" by (cases fmt) auto
  then show ?case
  proof cases
    case empty
    have "format_string_loop [] args out = Some (emit [] out)" for out :: "'a out" by simp
    then show ?thesis unfolding emits_or_undefined_def empty by blast
  next
    case char
    then show ?thesis using less by (simp add: format_loop_char)
  next
    case conversion
    show ?thesis
    proof (cases "\<exists>flags width precision sp fmt' args'. parse_conversion fmt args = Next (flags, width, precision, sp # fmt', args')")
      case True
      then obtain flags width precision sp fmt' args' where
        p: "parse_conversion fmt args = Next (flags, width, precision, sp # fmt', args')" by blast
      have "conversion_rest fmt = sp # fmt'" using parse_conversion_rest [OF p] by simp
      then have sp: "sp \<noteq> CHR ''n''" and n: "no_percent_n fmt'" and len: "length fmt' < length fmt"
        using parse_conversion_length [OF p] less.prems conversion by (auto simp: neq_Nil_conv)
      show ?thesis by (rule format_loop_conversion [OF conversion p sp less.hyps [OF len n]])
    qed (rule format_loop_end [OF conversion])
  qed
qed

section \<open>Bounded buffers\<close>

lemma buffer_gadget_simps:
  assumes "b \<noteq> 0" and "n \<le> PRINTF_MAX_POSSIBLE_BUFFER_SIZE"
  shows "buffer_gadget b n = \<lparr>out_function = None, extra_function_arg = 0, buffer = b, pos = 0, max_chars = n\<rparr>"
  using assms by (auto simp: buffer_gadget_def discarding_gadget_def Let_def)

text \<open>Sending a text to a buffer stores its first characters, at most as many as fit.\<close>

lemma emit_buffer:
  assumes "out_function g = None" and "pos g = 0" and "length cs < 2 ^ 32"
  shows "emit cs (g, s) = (g\<lparr>pos := of_nat (length cs)\<rparr>,
    s\<lparr>mem := \<lambda>x. if unat (x - buffer g) < min (length cs) (unat (max_chars g))
      then of_char (cs ! unat (x - buffer g)) else mem s x\<rparr>)"
  using assms(3)
proof (induction cs rule: rev_induct)
  case Nil
  then show ?case using assms(1,2) by simp
next
  case (snoc c cs)
  let ?n = "length cs"
  have n: "unat (of_nat ?n :: u32) = ?n" "(ucast (of_nat ?n :: u32) :: u64) = of_nat ?n"
    using snoc.prems by (simp_all add: unat_of_nat word_unat_eq_iff [where 'a = 64])
  have at: "x = buffer g + of_nat ?n \<longleftrightarrow> unat (x - buffer g) = ?n" for x
  proof -
    have "x = buffer g + of_nat ?n \<longleftrightarrow> x - buffer g = of_nat ?n" by (auto simp: algebra_simps)
    also have "\<dots> \<longleftrightarrow> unat (x - buffer g) = ?n"
      using snoc.prems by (simp add: word_unat_eq_iff [where 'a = 64] unat_of_nat)
    finally show ?thesis .
  qed
  show ?case
    using snoc n at assms(1)
    by (auto simp: emit_append putchar_via_gadget_def Let_def word_le_nat_alt fun_eq_iff nth_append
        intro!: arg_cong [where f = "\<lambda>m. s\<lparr>mem := m\<rparr>"])
qed

lemma emit_gadget:
  "out_function (fst (emit cs out)) = out_function (fst out)
    \<and> buffer (fst (emit cs out)) = buffer (fst out) \<and> max_chars (fst (emit cs out)) = max_chars (fst out)"
proof (induction cs arbitrary: out)
  case (Cons c cs)
  then show ?case
    by (auto simp: putchar_via_gadget_def Let_def split: prod.splits option.splits)
qed simp

lemma emit_frame:
  assumes "out_function (fst out) = None" and "x \<notin> span (buffer (fst out)) (unat (max_chars (fst out)))"
  shows "mem (snd (emit cs out)) x = mem (snd out) x"
  using assms
proof (induction cs arbitrary: out)
  case (Cons c cs)
  obtain g st where out: "out = (g, st)" by (cases out)
  let ?out = "putchar_via_gadget c out"
  have "buffer g + ucast (pos g) \<in> span (buffer g) (unat (max_chars g))" if "pos g < max_chars g"
    using that by (simp add: word_less_nat_alt)
  then have "mem (snd ?out) x = mem st x"
    using Cons.prems by (auto simp: out putchar_via_gadget_def Let_def not_le simp del: in_span)
  moreover have "out_function (fst ?out) = None" "buffer (fst ?out) = buffer g" "max_chars (fst ?out) = max_chars g"
    using Cons.prems by (auto simp: out putchar_via_gadget_def Let_def)
  ultimately show ?case
    using Cons.IH [of ?out] Cons.prems by (simp add: out del: in_span)
qed simp

lemma vsnprintf_emit:
  fixes st :: "'a machine_scheme"
  assumes cs: "\<And>out :: 'a out. format_string_loop fmt args out = Some (emit cs out)"
    and buf: "s \<noteq> 0" "0 < count" "count \<le> 0x7FFFFFFF"
    and ret: "vsnprintf s count fmt args st = Some (r, st')"
  shows "(\<forall>x. x \<notin> span s (unat count) \<longrightarrow> mem st' x = mem st x)
    \<and> (length cs < 2 ^ 32 \<longrightarrow> r = of_nat (length cs)
      \<and> (\<forall>i < min (length cs) (unat count - 1). mem st' (s + of_nat i) = of_char (cs ! i))
      \<and> mem st' (s + of_nat (min (length cs) (unat count - 1))) = 0)"
proof -
  let ?g = "\<lparr>out_function = None, extra_function_arg = 0, buffer = s, pos = 0, max_chars = ucast count\<rparr>
    :: 'a machine_scheme output_gadget_t"
  have c: "unat count \<le> 0x7FFFFFFF" "0 < unat count"
    using buf by (auto simp: word_le_nat_alt word_less_nat_alt)
  then have mx: "unat (ucast count :: u32) = unat count"
    by (simp add: unsigned_ucast_eq take_bit_nat_eq_self)
  then have nz: "(ucast count :: u32) \<noteq> 0" using c by auto
  have "(ucast count :: u32) \<le> PRINTF_MAX_POSSIBLE_BUFFER_SIZE"
    using c mx by (simp add: word_le_nat_alt)
  then have g: "buffer_gadget s (ucast count) = ?g" using buf by (intro buffer_gadget_simps)
  obtain g' s1 where e: "emit cs (?g, st) = (g', s1)" by (cases "emit cs (?g, st)")
  have g': "out_function g' = None" "buffer g' = s" "max_chars g' = ucast count"
    using emit_gadget [of cs "(?g, st)"] e by simp_all
  let ?k = "if pos g' < ucast count then pos g' else ucast count - 1"
  have st': "r = pos g'" "st' = s1\<lparr>mem := (mem s1)(s + ucast ?k := 0)\<rparr>"
    using ret g' nz buf(1)
    by (auto simp: vsnprintf_def vsnprintf_impl_def g cs e append_termination_with_gadget_def Let_def)
  have k: "unat ?k < unat count"
    using mx nz c by (auto simp: word_less_nat_alt unat_minus_one)
  have "mem st' x = mem st x" if "x \<notin> span s (unat count)" for x
  proof -
    have "x \<noteq> s + ucast ?k" using that k by (auto simp del: in_span simp: span_def)
    then show ?thesis
      using that emit_frame [of "(?g, st)" x cs] e by (simp add: st' mx)
  qed
  moreover have "r = of_nat (length cs)
        \<and> (\<forall>i < min (length cs) (unat count - 1). mem st' (s + of_nat i) = of_char (cs ! i))
        \<and> mem st' (s + of_nat (min (length cs) (unat count - 1))) = 0" if len: "length cs < 2 ^ 32"
  proof -
    have pos: "pos g' = of_nat (length cs)" and m: "\<And>x. mem s1 x = (if unat (x - s) < min (length cs) (unat count)
        then of_char (cs ! unat (x - s)) else mem st x)"
      using emit_buffer [of ?g cs st] len e mx by auto
    have "unat (of_nat (length cs) :: u32) = length cs" using len by (simp add: unat_of_nat)
    then have k': "unat ?k = min (length cs) (unat count - 1)"
      using pos mx nz c by (auto simp: word_less_nat_alt unat_minus_one min_def)
    then have k'': "s + of_nat (min (length cs) (unat count - 1)) = s + ucast ?k"
      by (metis word_unat_eq_iff unat_ucast32 unat_of_nat64 unat_less64)
    have "mem st' (s + of_nat i) = of_char (cs ! i)" if "i < min (length cs) (unat count - 1)" for i
    proof -
      have i: "unat (of_nat i :: u64) = i" using that len by (intro unat_of_nat64) simp
      then have "s + of_nat i \<noteq> s + ucast ?k" using that k' by (metis add_left_cancel unat_ucast32 less_irrefl)
      moreover have "i < unat count" using that by linarith
      ultimately show ?thesis using that i by (simp add: st' m)
    qed
    then show ?thesis using st'(1) pos k'' by (simp add: st'(2))
  qed
  ultimately show ?thesis by blast
qed

lemma vsnprintf_effect:
  fixes st :: "'a machine_scheme"
  assumes fmt: "no_percent_n fmt"
    and buf: "s \<noteq> 0" "0 < count" "count \<le> 0x7FFFFFFF"
    and ret: "vsnprintf s count fmt args st = Some (r, st')"
  shows "(\<forall>x. x \<notin> span s (unat count) \<longrightarrow> mem st' x = mem st x)
    \<and> (\<exists>cs. (\<forall>out :: 'a out. format_string_loop fmt args out = Some (emit cs out))
      \<and> (length cs < 2 ^ 32 \<longrightarrow> r = of_nat (length cs)
        \<and> (\<forall>i < min (length cs) (unat count - 1). mem st' (s + of_nat i) = of_char (cs ! i))
        \<and> mem st' (s + of_nat (min (length cs) (unat count - 1))) = 0))"
proof -
  from ret format_loop_uniform [where args = args, OF fmt]
  obtain cs where cs: "\<And>out :: 'a out. format_string_loop fmt args out = Some (emit cs out)"
    by (auto simp: emits_or_undefined_def vsnprintf_def vsnprintf_impl_def split: option.splits)
  then show ?thesis using vsnprintf_emit [OF cs buf ret] by blast
qed

text \<open>C4: \<^verbatim>\<open>vsnprintf\<close> is memory safe and terminates its result. For a format without a conversion \<^verbatim>\<open>%n\<close> (the letter may
  occur otherwise) and a buffer of between one and \<open>2 ^ 31 - 1\<close> bytes, a call whose arguments fit the conversions writes
  only inside the buffer; unless the text is longer than the 32-bit position can count, the buffer then holds the longest
  prefix of the text that fits with its terminator, and the return value is the length of the whole text.\<close>

theorem vsnprintf_safe:
  fixes st :: "'a machine_scheme"
  assumes fmt: "no_percent_n fmt"
    and buf: "s \<noteq> 0" "0 < count" "count \<le> 0x7FFFFFFF"
    and ret: "vsnprintf s count fmt args st = Some (r, st')"
  shows "(\<forall>x. x \<notin> span s (unat count) \<longrightarrow> mem st' x = mem st x)
    \<and> (\<exists>cs. (\<forall>out :: 'a out. format_string_loop fmt args out = Some (emit cs out))
      \<and> (length cs < 2 ^ 32 \<longrightarrow> r = of_nat (length cs)
        \<and> (\<forall>i < min (length cs) (unat count - 1). mem st' (s + of_nat i) = of_char (cs ! i))
        \<and> mem st' (s + of_nat (min (length cs) (unat count - 1))) = 0))"
  by (rule vsnprintf_effect [OF fmt buf ret])

theorem vsnprintf_safe_witness:
  "\<exists>r st'. vsnprintf 0x1000 4 ''an%cde'' [Word 0x41] \<lparr>mem = \<lambda>_. 7, hhdm_offset = 0\<rparr>
      = Some (r, st') \<and> mem st' 0x1004 = 7 \<and> no_percent_n ''an%cde'' \<and> \<not> no_percent_n ''a%-5.3ln''"
proof -
  let ?st = "\<lparr>mem = \<lambda>_. 7, hhdm_offset = 0\<rparr> :: machine"
  have c: "parse_conversion ''%cde'' [Word 0x41] = Next (0, 0, 0, ''cde'', [Word 0x41])"
    by (simp add: parse_conversion_def advance_def parse_width_def parse_precision_def parse_length_def current_def is_digit_def)
  have "vsnprintf 0x1000 4 ''an%cde'' [Word 0x41] ?st \<noteq> None"
    by (simp add: vsnprintf_def vsnprintf_impl_def format_string_loop.simps c print_spec_def split: prod.split)
  then obtain r st' where r: "vsnprintf 0x1000 4 ''an%cde'' [Word 0x41] ?st = Some (r, st')"
    by auto
  note rest = conversion_rest_def skip_length_def skip_precision_def skip_number_def current_def is_digit_def
  have n: "no_percent_n ''an%cde''" "\<not> no_percent_n ''a%-5.3ln''" by (simp_all add: rest)
  have "\<forall>x. x \<notin> span 0x1000 (unat (4 :: u64)) \<longrightarrow> mem st' x = mem ?st x"
    using vsnprintf_safe [OF n(1) _ _ _ r] by simp
  then show ?thesis using r n by simp
qed

section \<open>Digits\<close>

lemma digit_value_char: "d < 16 \<Longrightarrow> \<not> has flags FLAGS_UPPERCASE \<Longrightarrow> digit_value (digit_char flags d) = d"
  by (simp add: digit_char_def digit_value_def is_digit_def)

lemma read_num_text:
  assumes "2 \<le> base" and "base \<le> 16" and "\<not> has flags FLAGS_UPPERCASE"
  shows "read_num base (num_text flags base n) = n"
  using assms
proof (induction flags base n rule: num_text.induct)
  case (1 flags base n)
  have "digit_value (digit_char flags (n mod base)) = n mod base"
    using 1(2-) mod_less_divisor [of base n] by (intro digit_value_char) linarith+
  then show ?case
    using 1 by (cases "n < base")
      (simp_all add: num_text.simps [of flags base n] read_num_def digit_value_char)
qed

lemma print_decimal_spec:
  "print_integer_spec CHR ''d'' FLAGS_LONG 0 0 v out = emit (int_text (sint v)) out"
  "print_integer_spec CHR ''d'' 0 0 0 v out = emit (int_text (sint (ucast v :: i32))) out"
  "print_integer_spec CHR ''i'' 0 0 0 v out = emit (int_text (sint (ucast v :: i32))) out"
  "print_integer_spec CHR ''u'' FLAGS_LONG 0 0 v out = emit (num_text 0 10 (unat v)) out"
  "print_integer_spec CHR ''u'' 0 0 0 v out = emit (num_text 0 10 (unat (ucast v :: u32))) out"
  "print_integer_spec CHR ''x'' FLAGS_LONG 0 0 v out = emit (num_text 0 16 (unat v)) out"
  "print_integer_spec CHR ''x'' 0 0 0 v out = emit (num_text 0 16 (unat (ucast v :: u32))) out"
  by (simp_all add: print_integer_spec_def print_integer_plain has_def pad_field_0 abs_for_printing_nat
      int_text_def scast_sext num_text_flags [of "FLAGS_SIGNED"] num_text_flags [of "FLAGS_LONG"]
      num_text_flags [of "16896"])


lemma parse_conversion_plain:
  "\<not> is_digit c \<Longrightarrow> c \<notin> set ''0-+ #*.lhtjz'' \<Longrightarrow>
    parse_conversion (CHR ''%'' # c # cs) args = Next (0, 0, 0, c # cs, args)"
  "\<not> is_digit c \<Longrightarrow> c \<notin> set ''0-+ #*.lhtjz'' \<Longrightarrow>
    parse_conversion (CHR ''%'' # CHR ''l'' # c # cs) args = Next (FLAGS_LONG, 0, 0, c # cs, args)"
proof -
  have l: "\<not> is_digit CHR ''l''" by (simp add: is_digit_def)
  assume c: "\<not> is_digit c" "c \<notin> set ''0-+ #*.lhtjz''"
  show "parse_conversion (CHR ''%'' # c # cs) args = Next (0, 0, 0, c # cs, args)"
    using c by (simp add: parse_conversion_def advance_def parse_width_def parse_precision_def parse_length_def current_def)
  show "parse_conversion (CHR ''%'' # CHR ''l'' # c # cs) args = Next (FLAGS_LONG, 0, 0, c # cs, args)"
    using c l by (simp add: parse_conversion_def advance_def parse_width_def parse_precision_def parse_length_def
        parse_doubled_def current_def)
qed

text \<open>C21: \<^verbatim>\<open>%d\<close>, \<^verbatim>\<open>%ld\<close>, \<^verbatim>\<open>%lu\<close> and \<^verbatim>\<open>%lx\<close> print the exact decimal or hexadecimal notation of the
  argument at its width, negative numbers with a minus sign (the least 64-bit number
  included), and reading the digits back gives the number.\<close>

theorem printf_integer_text:
  "format_string_loop ''%d'' [Word v] out = Some (emit (int_text (sint (ucast v :: i32))) out)
    \<and> format_string_loop ''%ld'' [Word v] out = Some (emit (int_text (sint v)) out)
    \<and> format_string_loop ''%lu'' [Word v] out = Some (emit (num_text 0 10 (unat v)) out)
    \<and> format_string_loop ''%lx'' [Word v] out = Some (emit (num_text 0 16 (unat v)) out)
    \<and> read_num 10 (num_text 0 10 n) = n \<and> read_num 16 (num_text 0 16 n) = n"
  by (simp add: format_string_loop.simps parse_conversion_plain is_digit_def print_spec_def print_decimal_spec
      read_num_text has_def)

section \<open>Doubles\<close>

lemma parse_conversion_point: "parse_conversion (''%.0'' @ CHR ''f'' # cs) args = Next (FLAGS_PRECISION, 0, 0, CHR ''f'' # cs, args)"
  by (simp add: parse_conversion_def advance_def parse_width_def parse_precision_def parse_length_def current_def is_digit_def)

lemma format_double:
  "format_string_loop ''%.0f'' [Double x] out = print_floating_point x 0 0 FLAGS_PRECISION False out"
  "format_string_loop ''%f'' [Double x] out = print_floating_point x 0 0 0 False out"
  using parse_conversion_point [of "[]" "[Double x]"]
  by (simp_all add: format_string_loop.simps parse_conversion_plain is_digit_def print_spec_def option.case_eq_if map_option_case)

text \<open>C29: \<^verbatim>\<open>%.0f\<close> is correctly rounded: for every finite double up to a thousand million in magnitude it prints the
  nearest integer, halfway cases to the even one, behind the sign (that of a negative zero included). Not-a-number and the
  infinities print as words.\<close>

theorem printf_double_rounds:
  "(finite_double x \<and> mag x \<le> 10 ^ 9 * unit_of_one \<longrightarrow> format_string_loop ''%.0f'' [Double x] out =
      Some (emit (sign_text x @ num_text 0 10 (round_half_even (mag x) unit_of_one)) out))
    \<and> (is_nan x \<longrightarrow> format_string_loop ''%f'' [Double x] out = Some (emit ''nan'' out))
    \<and> (is_inf x \<longrightarrow> format_string_loop ''%f'' [Double x] out = Some (emit (sign_text x @ ''inf'') out))"
  unfolding format_double by (intro conjI impI; (elim conjE)?; rule print_rounded print_special; assumption)


theorem printf_double_rounds_witness:
  "format_string_loop ''%.0f'' [Double 0x4004000000000000] (buffer_gadget 0x1000 8, \<lparr>mem = \<lambda>_. 7, hhdm_offset = 0\<rparr>)
    = Some (emit ''2'' (buffer_gadget 0x1000 8, \<lparr>mem = \<lambda>_. 7, hhdm_offset = 0\<rparr> :: machine))"
proof -
  have x: "finite_double 0x4004000000000000" "mag 0x4004000000000000 = 5 * 2 ^ 1073" "\<not> dbl_sign 0x4004000000000000"
    by (simp_all add: finite_double_def mag_def dbl_exp_def dbl_man_def dbl_sign_def)
  have "round_half_even (5 * 2 ^ 1073) unit_of_one = 2" "5 * 2 ^ 1073 \<le> 10 ^ 9 * unit_of_one" by (simp_all add: round_half_even_def)
  moreover have "num_text 0 10 2 = ''2''" by (simp add: num_text.simps digit_char_def) code_simp
  ultimately show ?thesis
    using printf_double_rounds [THEN conjunct1, rule_format, OF conjI [OF x(1)]] x(2,3) by (simp add: sign_text_def del: power_numeral)
qed


end
