(* ===== verification/Ice_Stdlib.thy ===== *)
theory Ice_Stdlib
  imports Ice_Printf Ice_Slab
begin

text \<open>
  Character classes and general utilities of the C library: \<^verbatim>\<open>kernel/libs/libc/ctype.cpp\<close> and
  \<^verbatim>\<open>kernel/libs/libc/stdlib.cpp\<close>, with the global \<^verbatim>\<open>operator new\<close> and \<^verbatim>\<open>operator delete\<close> of
  \<^verbatim>\<open>kernel/memory/memory.cpp\<close>, which forward to the same heap. Signed arithmetic that overflows is
  undefined in the source: such a run is \<^const>\<open>None\<close>, as is a loop that finds no end of its string.
\<close>

unbundle bit_operations_syntax

section \<open>Character classes\<close>

text \<open>The results 1 and 0 are truth values; the arguments are \<^verbatim>\<open>int\<close>s, not only characters.\<close>

definition between :: "int \<Rightarrow> int \<Rightarrow> i32 \<Rightarrow> bool" where
  "between lo hi c \<longleftrightarrow> lo \<le> sint c \<and> sint c \<le> hi"

definition isalnum :: "i32 \<Rightarrow> bool" where
  "isalnum c \<longleftrightarrow> between 48 57 c \<or> between 97 122 c \<or> between 65 90 c"

definition isalpha :: "i32 \<Rightarrow> bool" where
  "isalpha c \<longleftrightarrow> between 97 122 c \<or> between 65 90 c"

definition islower :: "i32 \<Rightarrow> bool" where
  "islower c \<longleftrightarrow> between 97 122 c"

definition isupper :: "i32 \<Rightarrow> bool" where
  "isupper c \<longleftrightarrow> between 65 90 c"

definition isdigit :: "i32 \<Rightarrow> bool" where
  "isdigit c \<longleftrightarrow> between 48 57 c"

definition isxdigit :: "i32 \<Rightarrow> bool" where
  "isxdigit c \<longleftrightarrow> between 48 57 c \<or> between 97 102 c \<or> between 65 70 c"

definition iscntrl :: "i32 \<Rightarrow> bool" where
  "iscntrl c \<longleftrightarrow> between 0 0x1F c \<or> sint c = 0x7F"

definition isgraph :: "i32 \<Rightarrow> bool" where
  "isgraph c \<longleftrightarrow> between 33 126 c"

definition isspace :: "i32 \<Rightarrow> bool" where
  "isspace c \<longleftrightarrow> sint c = 32 \<or> sint c = 12 \<or> sint c = 10 \<or> sint c = 13 \<or> sint c = 9 \<or> sint c = 11"

definition isblank :: "i32 \<Rightarrow> bool" where
  "isblank c \<longleftrightarrow> sint c = 32 \<or> sint c = 9"

definition isprint :: "i32 \<Rightarrow> bool" where
  "isprint c \<longleftrightarrow> between 33 126 c \<or> sint c = 32"

definition ispunct :: "i32 \<Rightarrow> bool" where
  "ispunct c \<longleftrightarrow> between 33 47 c \<or> between 58 64 c \<or> between 91 96 c \<or> between 123 126 c"

definition toupper :: "i32 \<Rightarrow> i32" where
  "toupper c = (if between 97 122 c then c - 0x20 else c)"

definition tolower :: "i32 \<Rightarrow> i32" where
  "tolower c = (if between 65 90 c then c + 0x20 else c)"

section \<open>Numbers\<close>

text \<open>The value of a signed expression of type \<^verbatim>\<open>int\<close> or \<^verbatim>\<open>long\<close>, undefined where it overflows.\<close>

definition as_int :: "int \<Rightarrow> i32 option" where
  "as_int x = (if - (2 ^ 31) \<le> x \<and> x < 2 ^ 31 then Some (word_of_int x) else None)"

definition as_long :: "int \<Rightarrow> u64 option" where
  "as_long x = (if - (2 ^ 63) \<le> x \<and> x < 2 ^ 63 then Some (word_of_int x) else None)"

definition c_abs :: "i32 \<Rightarrow> i32 option" where
  "c_abs j = (if sint j < 0 then as_int (- sint j) else Some j)"

definition labs :: "u64 \<Rightarrow> u64 option" where
  "labs j = (if sint j < 0 then as_long (- sint j) else Some j)"

definition llabs :: "u64 \<Rightarrow> u64 option" where
  "llabs j = (if sint j < 0 then as_long (- sint j) else Some j)"

definition div_t :: "i32 \<Rightarrow> i32 \<Rightarrow> (i32 \<times> i32) option" where
  "div_t numerator denominator =
     (if denominator = 0 then None
      else Option.bind (as_int (sint numerator sdiv sint denominator)) (\<lambda>quot.
        Option.bind (as_int (sint numerator smod sint denominator)) (\<lambda>rem. Some (quot, rem))))"

definition ldiv :: "u64 \<Rightarrow> u64 \<Rightarrow> (u64 \<times> u64) option" where
  "ldiv numerator denominator =
     (if denominator = 0 then None
      else Option.bind (as_long (sint numerator sdiv sint denominator)) (\<lambda>quot.
        Option.bind (as_long (sint numerator smod sint denominator)) (\<lambda>rem. Some (quot, rem))))"

definition lldiv :: "u64 \<Rightarrow> u64 \<Rightarrow> (u64 \<times> u64) option" where
  "lldiv numerator denominator =
     (if denominator = 0 then None
      else Option.bind (as_long (sint numerator sdiv sint denominator)) (\<lambda>quot.
        Option.bind (as_long (sint numerator smod sint denominator)) (\<lambda>rem. Some (quot, rem))))"

subsection \<open>Reading numbers\<close>

text \<open>A \<^verbatim>\<open>char\<close> promoted to \<^verbatim>\<open>int\<close>.\<close>

definition char_int :: "u8 \<Rightarrow> i32" where
  "char_int c = scast c"

partial_function (option) atoi_loop :: "memory \<Rightarrow> u64 \<Rightarrow> u64 \<Rightarrow> i32 \<Rightarrow> u64 option" where
  "atoi_loop m s num i =
     (let c = m (s + scast i) in
      if c \<noteq> 0 \<and> isdigit (char_int c)
      then Option.bind (as_long (sint num * 10)) (\<lambda>num.
        Option.bind (as_long (sint num + (sint c - 48))) (\<lambda>num.
          Option.bind (as_int (sint i + 1)) (\<lambda>i. atoi_loop m s num i)))
      else Some num)"

definition atoi :: "memory \<Rightarrow> u64 \<Rightarrow> u64 option" where
  "atoi m s = atoi_loop m s 0 0"

text \<open>The parts \<^verbatim>\<open>strtol\<close> and \<^verbatim>\<open>strtoll\<close> have in common, which differ only in the name of their 64-bit type:
  skipping spaces, the sign and the prefix, and the loop over the digits.\<close>

partial_function (option) skip_spaces :: "memory \<Rightarrow> u64 \<Rightarrow> u64 option" where
  "skip_spaces m s = (if m s = 32 then skip_spaces m (s + 1) else Some s)"

definition strto_sign :: "memory \<Rightarrow> u64 \<Rightarrow> bool \<times> u64" where
  "strto_sign m s = (if m s = 45 then (True, s + 1) else (False, s))"

definition strto_base :: "memory \<Rightarrow> u64 \<Rightarrow> i32 \<Rightarrow> i32 \<times> u64" where
  "strto_base m s base =
     (let (base, s) = (if (base = 0 \<or> base = 16) \<and> m s = 48 \<and> (m (s + 1) = 120 \<or> m (s + 1) = 88) then (16, s + 2) else (base, s))
      in (if base = 0 then 10 else base, s))"

text \<open>Each digit replaces the value instead of extending it. The bases that store a value are 10 and 16, so the
  product does not overflow.\<close>

partial_function (option) strto_loop :: "memory \<Rightarrow> u64 \<Rightarrow> i32 \<Rightarrow> u64 \<Rightarrow> u64 option" where
  "strto_loop m s base ret_value =
     (let c = char_int (m s) in
      if isalnum c
      then (if base = 10
            then (if isdigit c then strto_loop m (s + 1) base (scast ((c - 48) * base)) else Some ret_value)
            else if base = 16
            then strto_loop m (s + 1) base (if isdigit c then scast ((c - 48) * base) else scast ((tolower c - 97 + 10) * base))
            else strto_loop m (s + 1) base ret_value)
      else Some ret_value)"

definition strtoll :: "memory \<Rightarrow> u64 \<Rightarrow> u64 \<Rightarrow> i32 \<Rightarrow> (u64 \<times> memory) option" where
  "strtoll m nptr endptr base =
     Option.bind (skip_spaces m nptr) (\<lambda>s.
       let (is_neg, s) = strto_sign m s;
           (base, start) = strto_base m s base
       in Option.bind (strto_loop m start base 0) (\<lambda>ret_value.
         Some (if is_neg then - ret_value else ret_value, if endptr \<noteq> 0 then store64 m endptr start else m)))"

definition strtol :: "memory \<Rightarrow> u64 \<Rightarrow> u64 \<Rightarrow> i32 \<Rightarrow> (u64 \<times> memory) option" where
  "strtol m nptr endptr base =
     Option.bind (skip_spaces m nptr) (\<lambda>s.
       let (is_neg, s) = strto_sign m s;
           (base, start) = strto_base m s base
       in Option.bind (strto_loop m start base 0) (\<lambda>ret_value.
         Some (if is_neg then - ret_value else ret_value, if endptr \<noteq> 0 then store64 m endptr start else m)))"

subsection \<open>Pseudo-random numbers\<close>

text \<open>The state is \<^verbatim>\<open>cseed\<close>, initially 1.\<close>

definition cseed :: u64 where "cseed = 1"

definition c_rand :: "u64 \<Rightarrow> i32 \<times> u64" where
  "c_rand seed = (let seed = seed * 1103515245 + 12345 in (ucast (seed div 65536) mod 32768, seed))"

definition srand :: "u32 \<Rightarrow> u64" where
  "srand seed = ucast seed"

section \<open>The heap under its C and C++ names\<close>

definition c_malloc :: "u64 \<Rightarrow> 'a heap_scheme \<Rightarrow> (u64, 'a heap_scheme) run" where
  "c_malloc sz s = malloc sz s"

definition c_free :: "u64 \<Rightarrow> 'a heap_scheme \<Rightarrow> 'a heap_scheme" where
  "c_free ptr s = heap_free ptr s"

definition c_realloc :: "u64 \<Rightarrow> u64 \<Rightarrow> 'a heap_scheme \<Rightarrow> (u64, 'a heap_scheme) run" where
  "c_realloc ptr sz s = realloc ptr sz s"

definition c_calloc :: "u64 \<Rightarrow> u64 \<Rightarrow> 'a heap_scheme \<Rightarrow> (u64, 'a heap_scheme) run" where
  "c_calloc num sz s = calloc num sz s"

text \<open>All overloads ignore the alignment and the size of sized deletion.\<close>

definition operator_new :: "u64 \<Rightarrow> 'a heap_scheme \<Rightarrow> (u64, 'a heap_scheme) run" where
  "operator_new sz s = c_malloc sz s"

definition operator_delete :: "u64 \<Rightarrow> 'a heap_scheme \<Rightarrow> 'a heap_scheme" where
  "operator_delete ptr s = c_free ptr s"

section \<open>Properties of the character classes\<close>

lemmas ctype_defs = between_def isalnum_def isalpha_def islower_def isupper_def isdigit_def isxdigit_def iscntrl_def
  isgraph_def isspace_def isblank_def isprint_def ispunct_def

lemma sint_case_shift:
  "between 97 122 c \<Longrightarrow> sint (c - 0x20) = sint c - 0x20"
  "between 65 90 c \<Longrightarrow> sint (c + 0x20) = sint c + 0x20"
  using sint_int32 [of "sint c - 0x20"] sint_int32 [of "sint c + 0x20"] by (simp_all add: between_def)

text \<open>The case of a character by the value of its code.\<close>

lemma sint_case:
  "sint (toupper c) = (if 97 \<le> sint c \<and> sint c \<le> 122 then sint c - 0x20 else sint c)"
  "sint (tolower c) = (if 65 \<le> sint c \<and> sint c \<le> 90 then sint c + 0x20 else sint c)"
  using sint_case_shift [of c] by (auto simp: toupper_def tolower_def between_def)

text \<open>C36: The character classes are what the C standard asks of the ASCII character set, for every
  \<^verbatim>\<open>int\<close>: alphanumeric characters are letters and digits, printing characters are the graphic ones and
  the space, the graphic ones are exactly the disjoint union of alphanumeric and punctuation characters, and the
  characters from 0 to 127 are exactly the disjoint union of control and printing ones. \<^verbatim>\<open>toupper\<close> and
  \<^verbatim>\<open>tolower\<close> move letters between the two cases and keep everything else.\<close>

theorem ctype_classes:
  "(isalnum c \<longleftrightarrow> isalpha c \<or> isdigit c) \<and> \<not> (isalpha c \<and> isdigit c)
    \<and> (isalpha c \<longleftrightarrow> islower c \<or> isupper c) \<and> \<not> (islower c \<and> isupper c)
    \<and> (isgraph c \<longleftrightarrow> isalnum c \<or> ispunct c) \<and> \<not> (isalnum c \<and> ispunct c)
    \<and> (isprint c \<longleftrightarrow> isgraph c \<or> c = 32) \<and> (isblank c \<longleftrightarrow> c = 32 \<or> c = 9)
    \<and> (0 \<le> sint c \<and> sint c \<le> 127 \<longleftrightarrow> iscntrl c \<or> isprint c) \<and> \<not> (iscntrl c \<and> isprint c)
    \<and> (isspace c \<longleftrightarrow> isblank c \<or> 10 \<le> sint c \<and> sint c \<le> 13)
    \<and> (isxdigit c \<longleftrightarrow> isdigit c \<or> sint (tolower c) \<in> {97..102})
    \<and> (isupper (toupper c) \<longleftrightarrow> isalpha c) \<and> (islower (tolower c) \<longleftrightarrow> isalpha c)
    \<and> toupper (tolower c) = toupper c \<and> tolower (toupper c) = tolower c"
proof -
  have eq: "\<And>d :: i32. c = d \<longleftrightarrow> sint c = sint d" by (simp add: word_eq_iff_signed [where 'a = int])
  have "toupper (tolower c) = toupper c" "tolower (toupper c) = tolower c"
    by (auto simp: word_eq_iff_signed [where 'a = int] sint_case)
  moreover have "(isupper (toupper c) \<longleftrightarrow> isalpha c)" "(islower (tolower c) \<longleftrightarrow> isalpha c)"
    "(isxdigit c \<longleftrightarrow> isdigit c \<or> sint (tolower c) \<in> {97..102})"
    unfolding ctype_defs sint_case by auto
  moreover obtain x where x: "sint c = x" by blast
  have "(isalnum c \<longleftrightarrow> isalpha c \<or> isdigit c) \<and> \<not> (isalpha c \<and> isdigit c)"
    "(isalpha c \<longleftrightarrow> islower c \<or> isupper c) \<and> \<not> (islower c \<and> isupper c)"
    "(isgraph c \<longleftrightarrow> isalnum c \<or> ispunct c)" "\<not> (isalnum c \<and> ispunct c)"
    "(isprint c \<longleftrightarrow> isgraph c \<or> c = 32)" "(isblank c \<longleftrightarrow> c = 32 \<or> c = 9)"
    "(0 \<le> sint c \<and> sint c \<le> 127 \<longleftrightarrow> iscntrl c \<or> isprint c)" "\<not> (iscntrl c \<and> isprint c)"
    "(isspace c \<longleftrightarrow> isblank c \<or> 10 \<le> sint c \<and> sint c \<le> 13)"
    unfolding ctype_defs eq x by (simp; presburger)+
  ultimately show ?thesis by blast
qed

section \<open>Reading numbers\<close>

text \<open>The number a list of decimal digits denotes.\<close>

definition dec_value :: "u8 list \<Rightarrow> nat" where
  "dec_value ds = foldl (\<lambda>n d. n * 10 + (unat d - 48)) 0 ds"

lemma dec_value_snoc [simp]: "dec_value (ds @ [d]) = dec_value ds * 10 + (unat d - 48)"
  by (simp add: dec_value_def)

lemma dec_value_append: "dec_value ds \<le> dec_value (ds @ es)"
proof (induction es rule: rev_induct)
  case (snoc e es)
  then show ?case using dec_value_snoc [of "ds @ es" e] by simp
qed simp

lemma char_int_value:
  assumes "isdigit (char_int c)"
  shows "sint c = int (unat c)" "48 \<le> unat c" "unat c \<le> 57" "c \<noteq> 0"
proof -
  have "sint (scast c :: i32) = sint c"
  proof -
    have "- 128 \<le> sint c" "sint c < 128" using sint_greater_eq [of c] sint_less [of c] by auto
    then show ?thesis by (simp add: signed_scast_eq signed_take_bit_int_eq_self)
  qed
  then have s: "48 \<le> sint c" "sint c \<le> 57" using assms by (simp_all add: isdigit_def between_def char_int_def)
  then have u: "sint c = uint c" using uint_word_of_int [where 'a = 8, of "sint c"] by simp
  then show "sint c = int (unat c)" by simp
  have "uint c = int (unat c)" by simp
  then have "48 \<le> int (unat c)" "int (unat c) \<le> 57" using s unfolding u by simp_all
  then show "48 \<le> unat c" "unat c \<le> 57" by linarith+
  then show "c \<noteq> 0" by auto
qed

lemma scast_index: "k < 2 ^ 31 \<Longrightarrow> scast (of_nat k :: i32) = (of_nat k :: u64)"
  using sint_int32 [of "int k"] by (simp add: scast_eq)

text \<open>One round of \<^verbatim>\<open>atoi\<close> on a digit, and the end at anything else.\<close>

lemma as_long_nat: "n < 2 ^ 63 \<Longrightarrow> as_long (int n) = Some (of_nat n)"
  by (simp add: as_long_def)

lemma sint_of_nat64: "n < 2 ^ 63 \<Longrightarrow> sint (of_nat n :: u64) = int n"
  using int_word_sint [of "int n", where 'a = 64] by simp

lemma atoi_step:
  assumes "k < 2 ^ 31 - 1" and c: "m (s + of_nat k) = c" "isdigit (char_int c)" and "n * 10 + (unat c - 48) < 2 ^ 63"
  shows "atoi_loop m s (of_nat n) (of_nat k) = atoi_loop m s (of_nat (n * 10 + (unat c - 48))) (of_nat (Suc k))"
proof -
  note c0 = char_int_value [OF c(2)]
  have n: "n < 2 ^ 63" "n * 10 < 2 ^ 63" using assms(4) by linarith+
  have d: "int n * 10 + (sint c - 48) = int (n * 10 + (unat c - 48))" using c0 by simp
  have a: "as_long (sint (of_nat n :: u64) * 10) = Some (of_nat (n * 10))"
    "as_long (sint (of_nat (n * 10) :: u64) + (sint c - 48)) = Some (of_nat (n * 10 + (unat c - 48)))"
    unfolding sint_of_nat64 [OF n(1)] sint_of_nat64 [OF n(2)] using as_long_nat [OF n(2)] as_long_nat [OF assms(4)] d by simp_all
  have "as_int (sint (of_nat k :: i32) + 1) = Some (of_nat (Suc k))"
    using assms(1) sint_int32 [of "int k"] by (simp add: as_int_def)
  then show ?thesis
    using c0(4) c a assms(1) unfolding atoi_loop.simps [of m s "of_nat n"] by (simp add: scast_index)
qed

lemma atoi_stop: "k < 2 ^ 31 \<Longrightarrow> \<not> isdigit (char_int (m (s + of_nat k))) \<Longrightarrow> atoi_loop m s num (of_nat k) = Some num"
  by (simp add: atoi_loop.simps [of m s num] scast_index)

lemma atoi_loop_digits:
  assumes "length ds < 2 ^ 31" and "\<forall>i < length ds. m (s + of_nat i) = ds ! i" and "\<forall>d \<in> set ds. isdigit (char_int d)"
    and "\<not> isdigit (char_int (m (s + of_nat (length ds))))" and "dec_value ds < 2 ^ 63"
  shows "atoi m s = Some (of_nat (dec_value ds))"
proof -
  have "atoi_loop m s 0 0 = atoi_loop m s (of_nat (dec_value (take k ds))) (of_nat k)" if "k \<le> length ds" for k
    using that
  proof (induction k)
    case 0
    then show ?case by (simp add: dec_value_def)
  next
    case (Suc k)
    have t: "take (Suc k) ds = take k ds @ [ds ! k]" using Suc.prems by (simp add: take_Suc_conv_app_nth)
    have "dec_value (take (Suc k) ds) < 2 ^ 63"
      using dec_value_append [of "take (Suc k) ds" "drop (Suc k) ds"] assms(5) by simp
    then have "dec_value (take k ds) * 10 + (unat (ds ! k) - 48) < 2 ^ 63" unfolding t dec_value_snoc .
    from atoi_step [OF _ _ _ this] show ?case
      using Suc assms(1-3) unfolding t dec_value_snoc by simp
  qed
  from this [of "length ds"] show ?thesis using assms(1,4) by (simp add: atoi_def atoi_stop)
qed

lemma of_char_digit:
  assumes "d < 10"
  shows "unat (of_char (digit_char 0 d) :: u8) = d + 48" "isdigit (char_int (of_char (digit_char 0 d)))"
proof -
  have "of_char (digit_char 0 d) = (word_of_nat (d + 48) :: u8)"
    using assms of_nat_of_char [of "digit_char 0 d", where 'a = "8 word"] by (simp add: digit_char_def add.commute)
  moreover have "unat (word_of_nat (d + 48) :: u8) = d + 48"
    using assms by (simp add: unat_of_nat take_bit_nat_eq_self del: of_nat_add)
  moreover have "sint (word_of_nat (d + 48) :: u8) = int (d + 48)"
    using assms int_word_sint [of "int (d + 48)", where 'a = 8] by simp
  ultimately show "unat (of_char (digit_char 0 d) :: u8) = d + 48" "isdigit (char_int (of_char (digit_char 0 d)))"
    using assms by (simp_all add: isdigit_def between_def char_int_def signed_scast_eq signed_take_bit_int_eq_self)
qed

lemma num_text_digits:
  "dec_value (map of_char (num_text 0 10 n)) = n \<and> (\<forall>d \<in> set (map of_char (num_text 0 10 n)). isdigit (char_int d))"
proof (induction n rule: less_induct)
  case (less n)
  show ?case
  proof (cases "n < 10")
    case True
    then show ?thesis using of_char_digit [OF True] by (simp add: num_text.simps [of _ _ n] dec_value_def)
  next
    case False
    then show ?thesis
      using less [of "n div 10"] of_char_digit [of "n mod 10"] by (simp add: num_text.simps [of _ _ n])
  qed
qed

text \<open>C22: Numbers survive printing and reading: what \<^verbatim>\<open>vsnprintf\<close> prints for a non-negative \<^verbatim>\<open>long\<close> with
  \<^verbatim>\<open>%ld\<close> or \<^verbatim>\<open>%lu\<close> into a large enough buffer, \<^verbatim>\<open>atoi\<close> reads back.\<close>

theorem atoi_reads_printf:
  fixes st :: "'a machine_scheme"
  assumes "unat v < 2 ^ 63" and "fmt = ''%lu'' \<or> fmt = ''%ld''" and "s \<noteq> 0" "32 \<le> count" "count \<le> 0x7FFFFFFF"
  shows "\<exists>r st'. vsnprintf s count fmt [Word v] st = Some (r, st') \<and> atoi (mem st') s = Some v"
proof -
  let ?cs = "num_text 0 10 (unat v)"
  have sv: "sint v = int (unat v)" using sint_of_nat64 [OF assms(1)] by simp
  have "format_string_loop ''%lu'' [Word v] out = Some (emit ?cs out)"
    "format_string_loop ''%ld'' [Word v] out = Some (emit (int_text (sint v)) out)" for out :: "'a out"
    by (simp_all add: format_string_loop.simps parse_conversion_plain is_digit_def print_spec_def print_decimal_spec has_def)
  moreover have "int_text (sint v) = ?cs" using sv by (simp add: int_text_def)
  ultimately have out: "format_string_loop fmt [Word v] out = Some (emit ?cs out)" for out :: "'a out" using assms(2) by metis
  then obtain r st' where r: "vsnprintf s count fmt [Word v] st = Some (r, st')"
    by (cases "append_termination_with_gadget (emit ?cs (buffer_gadget s (ucast count), st))")
      (simp add: vsnprintf_def vsnprintf_impl_def)
  have "(2 :: nat) ^ 63 \<le> 10 ^ 20" by simp
  then have len: "length ?cs \<le> 20" using assms(1) by (intro length_num_text) simp_all
  have c: "32 \<le> unat count" using assms(4) by (simp add: word_le_nat_alt)
  then have "0 < count" by (simp add: word_less_nat_alt)
  from vsnprintf_emit [OF out assms(3) this assms(5) r] have m: "\<forall>i < length ?cs. mem st' (s + of_nat i) = of_char (?cs ! i)"
    "mem st' (s + of_nat (length ?cs)) = 0"
    using len c by (simp_all add: min_absorb1)
  have "\<not> isdigit (char_int 0)" by (simp add: isdigit_def between_def char_int_def)
  then have "atoi (mem st') s = Some (of_nat (dec_value (map of_char ?cs)))"
    using num_text_digits [of "unat v"] len m assms(1) by (intro atoi_loop_digits) simp_all
  then show ?thesis using num_text_digits [of "unat v"] r by simp
qed

theorem atoi_reads_printf_witness:
  "\<exists>r st'. vsnprintf 0x1000 64 ''%lu'' [Word 1203] \<lparr>mem = \<lambda>_. 7, hhdm_offset = 0\<rparr> = Some (r, st')
    \<and> atoi (mem st') 0x1000 = Some 1203"
  by (rule atoi_reads_printf) simp_all

subsection \<open>\<^verbatim>\<open>strtol\<close>\<close>

lemma skip_spaces_cstr:
  "cstr m p (replicate k 32 @ bs) \<Longrightarrow> bs = [] \<or> hd bs \<noteq> 32 \<Longrightarrow>
    skip_spaces m p = Some (p + of_nat k) \<and> cstr m (p + of_nat k) bs"
proof (induction k arbitrary: p)
  case 0
  then show ?case by (cases bs) (auto simp: skip_spaces.simps [of m p])
next
  case (Suc k)
  then show ?case using Suc.IH [of "p + 1"] by (simp add: skip_spaces.simps [of m p] add.assoc)
qed

lemma digit_times_ten:
  assumes "isdigit (char_int c)"
  shows "scast ((char_int c - 48) * 10) = (of_nat ((unat c - 48) * 10) :: u64)"
proof -
  note c = char_int_value [OF assms]
  have "char_int c = of_nat (unat c)" using c(1) by (simp add: char_int_def scast_eq)
  moreover have "(of_nat (unat c) - 48 :: i32) = of_nat (unat c - 48)" using c(2) by (simp add: of_nat_diff)
  ultimately have "(char_int c - 48) * 10 = of_nat ((unat c - 48) * 10)" by simp
  moreover have "(unat c - 48) * 10 < 2 ^ 31" using c(3) by simp
  ultimately show ?thesis using scast_index [of "(unat c - 48) * 10"] by simp
qed

lemma strto_loop_ten:
  assumes "cstr m p (ds @ rest)" and "list_all (\<lambda>d. isdigit (char_int d)) ds"
    and "rest = [] \<or> \<not> isdigit (char_int (hd rest))"
  shows "strto_loop m p 10 r = Some (if ds = [] then r else of_nat ((unat (last ds) - 48) * 10))"
  using assms
proof (induction ds arbitrary: p r)
  case Nil
  moreover have "m p = (case rest of [] \<Rightarrow> 0 | b # _ \<Rightarrow> b)" using Nil.prems(1) by (cases rest) auto
  moreover have "\<not> isdigit (char_int 0)" by (simp add: isdigit_def between_def char_int_def)
  ultimately show ?case by (cases rest) (auto simp: strto_loop.simps [of m p] Let_def)
next
  case (Cons d ds)
  then have d: "m p = d" "isdigit (char_int d)" "isalnum (char_int d)" by (simp_all add: isalnum_def isdigit_def)
  have "strto_loop m p 10 r = strto_loop m (p + 1) 10 (of_nat ((unat d - 48) * 10))"
    using d digit_times_ten [OF d(2)] by (simp add: strto_loop.simps [of m p])
  then show ?case using Cons.IH [of "p + 1"] Cons.prems by simp
qed

text \<open>\<^verbatim>\<open>strtol\<close> and \<^verbatim>\<open>strtoll\<close> return on every string of spaces, an optional minus sign and decimal digits,
  but their value is ten times the last digit, with the sign, and \<^verbatim>\<open>*endptr\<close> is the first digit: neither the value
  nor the end of the number is what the C library promises, unless the number is 0.\<close>

theorem strtol_last_digit:
  assumes "cstr m nptr (replicate k 32 @ sg @ ds @ rest)" and "sg = [] \<or> sg = [45]" and "ds \<noteq> []"
    and "list_all (\<lambda>d. isdigit (char_int d)) ds" and "rest = [] \<or> \<not> isdigit (char_int (hd rest))"
  defines "v \<equiv> of_nat ((unat (last ds) - 48) * 10)"
  shows "strtol m nptr endptr 10 = Some (if sg = [] then v else - v,
      if endptr = 0 then m else store64 m endptr (nptr + of_nat (k + length sg)))
    \<and> strtoll m nptr endptr 10 = strtol m nptr endptr 10"
proof -
  have d: "isdigit (char_int (hd ds))" using assms(3,4) by (cases ds) auto
  have "hd ds \<noteq> 32" "hd ds \<noteq> 45" using char_int_value(2) [OF d] by auto
  then have hd: "hd (sg @ ds @ rest) \<noteq> 32" "hd ds \<noteq> 45" using assms(2,3) by auto
  let ?s = "nptr + of_nat k"
  have 1: "skip_spaces m nptr = Some ?s" "cstr m ?s (sg @ ds @ rest)"
    using skip_spaces_cstr [OF assms(1)] hd by auto
  have 2: "strto_sign m ?s = (sg \<noteq> [], ?s + of_nat (length sg))" "cstr m (?s + of_nat (length sg)) (ds @ rest)"
    using 1(2) assms(2,3) hd(2) by (cases ds; auto simp: strto_sign_def)+
  have 3: "strto_loop m (?s + of_nat (length sg)) 10 0 = Some v"
    using strto_loop_ten [OF 2(2) assms(4,5)] assms(3) by (simp add: v_def)
  show ?thesis using 1(1) 2(1) 3 by (simp add: strtol_def strtoll_def strto_base_def add.assoc)
qed

theorem strtol_last_digit_witness:
  "\<exists>m. cstr m 100 [32, 45, 49, 50, 59] \<and> strtol m 100 0 10 = Some (- 20, m)"
proof -
  let ?m = "string_at 100 [32, 45, 49, 50, 59]"
  have "cstr ?m 100 [32, 45, 49, 50, 59]" by (simp add: string_at_def)
  moreover have "strtol ?m 100 0 10 = Some (- 20, ?m)"
    using strtol_last_digit [of ?m 100 1 "[45]" "[49, 50]" "[59]" 0] calculation
    by (simp add: isdigit_def between_def char_int_def)
  ultimately show ?thesis by blast
qed

section \<open>Pseudo-random numbers\<close>

text \<open>The results of successive calls, and the generator on the integers modulo \<open>2 ^ 31\<close> they come from.\<close>

fun rand_seq :: "nat \<Rightarrow> u64 \<Rightarrow> i32 list" where
  "rand_seq 0 seed = []"
| "rand_seq (Suc n) seed = (case c_rand seed of (r, seed') \<Rightarrow> r # rand_seq n seed')"

definition lcg :: "nat \<Rightarrow> nat" where
  "lcg x = (x * 1103515245 + 12345) mod 2 ^ 31"

lemma c_rand_lcg:
  "unat (snd (c_rand seed)) mod 2 ^ 31 = lcg (unat seed mod 2 ^ 31)"
  "fst (c_rand seed) = of_nat (lcg (unat seed mod 2 ^ 31) div 65536)"
proof -
  let ?s = "seed * 1103515245 + 12345"
  have u: "unat ?s = (unat seed * 1103515245 + 12345) mod 2 ^ 64"
    by (simp add: unat_word_ariths mod_simps)
  have "(2 :: nat) ^ 31 dvd 2 ^ 64" by (rule le_imp_power_dvd) simp
  then have "unat ?s mod 2 ^ 31 = (unat seed * 1103515245 + 12345) mod 2 ^ 31"
    unfolding u by (rule mod_mod_cancel)
  also have "\<dots> = lcg (unat seed mod 2 ^ 31)" unfolding lcg_def by (intro mod_add_cong refl) (simp only: mod_mult_left_eq)
  finally show s: "unat (snd (c_rand seed)) mod 2 ^ 31 = lcg (unat seed mod 2 ^ 31)" by (simp add: c_rand_def Let_def)
  have "unat (ucast (?s div 65536) mod 32768 :: u32) = unat ?s div 65536 mod 2 ^ 32 mod 32768"
    by (simp add: unat_mod unsigned_ucast_eq take_bit_eq_mod unat_div)
  also have "\<dots> = unat ?s div 65536 mod 32768" by (rule mod_mod_cancel) simp
  also have "\<dots> = unat ?s mod 2 ^ 31 div 65536"
    using mod_mult2_eq [of "unat ?s" 65536 32768] by simp
  finally have "unat (fst (c_rand seed)) = lcg (unat seed mod 2 ^ 31) div 65536" using s by (simp add: c_rand_def Let_def)
  moreover have "fst (c_rand seed) = of_nat (unat (fst (c_rand seed)))" by simp
  ultimately show "fst (c_rand seed) = of_nat (lcg (unat seed mod 2 ^ 31) div 65536)" by argo
qed

text \<open>\<^verbatim>\<open>rand\<close> is the linear congruential generator of the C standard: whatever the seed, the results
  of any number of calls are bits 16 to 30 of the sequence \<open>x \<mapsto> (1103515245 x + 12345) mod 2 ^ 31\<close>, they lie between 0 and
  \<^verbatim>\<open>RAND_MAX\<close>, and only the low 31 bits of the seed matter.\<close>

theorem rand_is_lcg:
  "rand_seq n seed = map (\<lambda>i. of_nat ((lcg ^^ Suc i) (unat seed mod 2 ^ 31) div 65536)) [0..<n]
    \<and> sint ` set (rand_seq n seed) \<subseteq> {0..32767}"
proof -
  have "rand_seq n seed = map (\<lambda>i. of_nat ((lcg ^^ Suc i) (unat seed mod 2 ^ 31) div 65536)) [0..<n]"
  proof (induction n arbitrary: seed)
    case (Suc n)
    obtain r seed' where r: "c_rand seed = (r, seed')" by (cases "c_rand seed")
    have "map (\<lambda>i. of_nat ((lcg ^^ Suc i) x div 65536) :: i32) [0..<Suc n] =
      of_nat (lcg x div 65536) # map (\<lambda>i. of_nat ((lcg ^^ Suc i) (lcg x) div 65536)) [0..<n]" for x
      by (rule nth_equalityI) (auto simp: nth_Cons funpow_swap1 split: nat.split simp del: upt_Suc)
    then show ?case using Suc [of seed'] c_rand_lcg [of seed] by (simp add: r del: upt_Suc)
  qed simp
  moreover have "0 \<le> sint (of_nat (lcg x div 65536) :: i32) \<and> sint (of_nat (lcg x div 65536) :: i32) \<le> 32767" for x
  proof -
    have "lcg x < 2 ^ 31" by (simp add: lcg_def)
    then have "lcg x div 65536 \<le> 32767" by simp
    then show ?thesis using sint_int32 [of "int (lcg x div 65536)"] by simp
  qed
  ultimately show ?thesis by (auto simp del: of_nat_div)
qed

end
