(* ===== verification/Ice_Memmap.thy ===== *)
theory Ice_Memmap
  imports Ice_Stdlib Ice_Space
begin

text \<open>
  Ranges of address spaces: \<^verbatim>\<open>kernel/memory/memmap.cpp\<close> and the members of \<^verbatim>\<open>pagemap_t\<close> it defines. The objects
  \<^verbatim>\<open>memmap::local\<close>, \<^verbatim>\<open>memmap::global\<close> and \<^verbatim>\<open>pagemap_t\<close> are records in typed stores, keyed by their address; every
  allocation and release of \<^verbatim>\<open>make_shared\<close>, \<^verbatim>\<open>make_unique\<close>, \<^verbatim>\<open>new\<close> and the vectors is made on the heap of the model.
  The reference counts themselves are left out: the one object whose count falls to zero, the \<^verbatim>\<open>global\<close> of a private range in
  \<^verbatim>\<open>fork\<close>, is destroyed explicitly.
\<close>

unbundle bit_operations_syntax

section \<open>Objects\<close>

text \<open>A vector of shared pointers: the address of its array, its capacity and its elements.\<close>

record vec =
  vec_ptr :: u64
  vec_cap :: u64
  vec_elems :: "u64 list"

record memmap_local =
  loc_global :: u64
  loc_pagemap :: u64
  loc_base :: u64
  loc_length :: u64
  loc_offset :: u64
  loc_prot :: i32
  loc_flags :: i32

record memmap_global =
  glob_locals :: vec
  glob_shadow :: u64
  glob_base :: u64
  glob_length :: u64
  glob_offset :: u64

record ranged_pagemap = pagemap_t +
  ranges :: vec

record memmap = vmm +
  locals :: "u64 \<Rightarrow> memmap_local"
  globals :: "u64 \<Rightarrow> memmap_global"
  pagemaps :: "u64 \<Rightarrow> ranged_pagemap"

definition map_shared :: i32 where "map_shared = 0x01"
definition map_anonymous :: i32 where "map_anonymous = 0x20"

definition protocol_read :: i32 where "protocol_read = 1"
definition protocol_write :: i32 where "protocol_write = 2"
definition protocol_exec :: i32 where "protocol_exec = 4"

text \<open>The page map at an address, without its ranges.\<close>

definition pm_at :: "'a memmap_scheme \<Rightarrow> u64 \<Rightarrow> pagemap_t" where
  "pm_at s p = pagemap_t.truncate (pagemaps s p)"

section \<open>The library\<close>

text \<open>An array of shared pointers, 16 bytes each, is preceded by its length.\<close>

definition vec_empty :: vec where
  "vec_empty = \<lparr>vec_ptr = 0, vec_cap = 0, vec_elems = []\<rparr>"

definition delete_array :: "u64 \<Rightarrow> 'a heap_scheme \<Rightarrow> 'a heap_scheme" where
  "delete_array ptr s = (if ptr = 0 then s else operator_delete (ptr - 8) s)"

definition vec_reserve :: "u64 \<Rightarrow> vec \<Rightarrow> 'a heap_scheme \<Rightarrow> (vec, 'a heap_scheme) run" where
  "vec_reserve n v s =
     (if n > vec_cap v
      then bind_run (operator_new (8 + 16 * n) s) (\<lambda>new_ptr s.
             Inr (v\<lparr>vec_ptr := new_ptr + 8, vec_cap := n\<rparr>, delete_array (vec_ptr v) s))
      else Inr (v, s))"

definition vec_push_back :: "u64 \<Rightarrow> vec \<Rightarrow> 'a heap_scheme \<Rightarrow> (vec, 'a heap_scheme) run" where
  "vec_push_back x v s =
     bind_run (if of_nat (length (vec_elems v)) = vec_cap v
               then vec_reserve (if vec_cap v = 0 then 1 else vec_cap v * 2) v s else Inr (v, s))
       (\<lambda>v s. Inr (v\<lparr>vec_elems := vec_elems v @ [x]\<rparr>, s))"

text \<open>\<^verbatim>\<open>make_shared\<close> puts the control block of 40 bytes, rounded up to 48, before the object.\<close>

definition obj_offset :: u64 where
  "obj_offset = 48"

definition make_shared :: "u64 \<Rightarrow> 'a heap_scheme \<Rightarrow> (u64, 'a heap_scheme) run" where
  "make_shared sz s = bind_run (operator_new (obj_offset + sz) s) (\<lambda>ptr s. Inr (ptr + obj_offset, s))"

definition sizeof_local :: u64 where "sizeof_local = 56"
definition sizeof_global :: u64 where "sizeof_global = 56"

text \<open>\<^verbatim>\<open>new pagemap_t\<close> and \<^verbatim>\<open>make_unique<pagemap_t>()\<close>.\<close>

definition alloc_pagemap :: "'a memmap_scheme \<Rightarrow> (u64, 'a memmap_scheme) run" where
  "alloc_pagemap s =
     bind_run (operator_new sizeof_pagemap s) (\<lambda>p s.
       bind_run (pagemap_ctor s) (\<lambda>pm s.
         Inr (p, s\<lparr>pagemaps := (pagemaps s)(p := pagemap_t.extend pm \<lparr>ranges = vec_empty\<rparr>)\<rparr>)))"

text \<open>The members a constructor does not name are zero.\<close>

definition new_local :: memmap_local where
  "new_local = \<lparr>loc_global = 0, loc_pagemap = 0, loc_base = 0, loc_length = 0, loc_offset = 0, loc_prot = 0, loc_flags = 0\<rparr>"

definition new_global :: memmap_global where
  "new_global = \<lparr>glob_locals = vec_empty, glob_shadow = 0, glob_base = 0, glob_length = 0, glob_offset = 0\<rparr>"

section \<open>Mapping\<close>

definition prot_flags :: "i32 \<Rightarrow> u64" where
  "prot_flags prot =
     (let flags = USER;
          flags = (if prot AND protocol_read \<noteq> 0 then flags OR READ else flags);
          flags = (if prot AND protocol_write \<noteq> 0 then flags OR WRITE else flags)
      in if prot AND protocol_exec \<noteq> 0 then flags OR EXEC else flags)"

definition outside :: "u64 \<Rightarrow> memmap_local \<Rightarrow> bool" where
  "outside address l \<longleftrightarrow> address < loc_base l \<or> address \<ge> loc_base l + loc_length l"

definition global_map_page :: "u64 \<Rightarrow> u64 \<Rightarrow> u64 \<Rightarrow> i32 \<Rightarrow> 'a memmap_scheme \<Rightarrow> (bool, 'a memmap_scheme) run" where
  "global_map_page g va pa prot s =
     bind_run (map_page (pm_at s (glob_shadow (globals s g))) va pa (prot_flags prot) WRITE_BACK s) (\<lambda>ok s.
       if \<not> ok then Inr (False, s)
       else run_all (\<lambda>l s.
              if outside va (locals s l) then Inr (True, s)
              else map_page (pm_at s (loc_pagemap (locals s l))) va pa (prot_flags prot) WRITE_BACK s)
            (vec_elems (glob_locals (globals s g))) s)"

definition address_to_range :: "u64 \<Rightarrow> u64 \<Rightarrow> 'a memmap_scheme \<Rightarrow> (u64 \<times> u64 \<times> u64) option" where
  "address_to_range p address s =
     (case find (\<lambda>l. \<not> outside address (locals s l)) (vec_elems (ranges (pagemaps s p))) of
        None \<Rightarrow> None
      | Some l \<Rightarrow>
          let psize = pm_page_size (pm_at s p);
              map_page = address div psize;
              page = loc_offset (locals s l) div psize + (map_page - loc_base (locals s l) div psize)
          in Some (l, map_page, page))"

text \<open>The part of \<^verbatim>\<open>map_range\<close> before its loop: the new objects and the vectors that hold them.\<close>

definition open_range :: "u64 \<Rightarrow> u64 \<Rightarrow> u64 \<Rightarrow> i32 \<Rightarrow> i32 \<Rightarrow> 'a memmap_scheme \<Rightarrow> (u64, 'a memmap_scheme) run" where
  "open_range p va len prot flags s =
     bind_run (make_shared sizeof_global s) (\<lambda>g s.
     bind_run (make_shared sizeof_local s) (\<lambda>l s.
     bind_run (alloc_pagemap s) (\<lambda>shadow s.
     bind_run (vec_push_back l vec_empty s) (\<lambda>ls s.
     bind_run (vec_push_back l (ranges (pagemaps s p)) s) (\<lambda>rs s.
       Inr (g, s\<lparr>globals := (globals s)(g := new_global\<lparr>glob_locals := ls, glob_shadow := shadow, glob_base := va, glob_length := len\<rparr>),
                 locals := (locals s)(l := new_local\<lparr>loc_global := g, loc_pagemap := p, loc_base := va, loc_prot := prot, loc_flags := flags\<rparr>),
                 pagemaps := (pagemaps s)(p := (pagemaps s p)\<lparr>ranges := rs\<rparr>)\<rparr>))))))"

definition map_range ::
  "u64 \<Rightarrow> u64 \<Rightarrow> u64 \<Rightarrow> u64 \<Rightarrow> i32 \<Rightarrow> i32 \<Rightarrow> 'a memmap_scheme \<Rightarrow> (bool, 'a memmap_scheme) run option" where
  "map_range p virtual_address physical_address len prot flags s =
     (let psize = pm_page_size (pm_at s p);
          flags = flags OR map_anonymous;
          aligned_virtual_address = align_down virtual_address psize;
          aligned_length = align_up (len + (virtual_address - aligned_virtual_address)) psize in
      case open_range p aligned_virtual_address aligned_length prot flags s of
        Inl s \<Rightarrow> Some (Inl s)
      | Inr (g, s) \<Rightarrow>
          for_run 0 aligned_length psize (\<lambda>i. global_map_page g (aligned_virtual_address + i) (physical_address + i) prot) s)"

section \<open>Destruction\<close>

text \<open>The loop of the destructor passes the length of the range to \<^verbatim>\<open>unmap\<close> as flags.\<close>

partial_function (option) unmap_ranges :: "u64 \<Rightarrow> 'a memmap_scheme \<Rightarrow> (bool, 'a memmap_scheme) run option" where
  "unmap_ranges p s =
     (case vec_elems (ranges (pagemaps s p)) of
        [] \<Rightarrow> Some (Inr (True, s))
      | l # ls \<Rightarrow>
          case unmap_page (pm_at s p) (loc_base (locals s l)) (loc_length (locals s l)) s of
            Inl s \<Rightarrow> Some (Inl s)
          | Inr (ok, s) \<Rightarrow> unmap_ranges p s)"

definition pagemap_dtor :: "u64 \<Rightarrow> 'a memmap_scheme \<Rightarrow> (bool, 'a memmap_scheme) run option" where
  "pagemap_dtor p s =
     and_then (unmap_ranges p s) (\<lambda>s.
       let s = destroy_pagemap (pm_at s p) s
       in Some (Inr (True, delete_array (vec_ptr (ranges (pagemaps s p))) s)))"

section \<open>Forking\<close>

text \<open>The two loops over the pages of a range, for shared and for private ranges.\<close>

definition share_range :: "u64 \<Rightarrow> u64 \<Rightarrow> memmap_local \<Rightarrow> 'a memmap_scheme \<Rightarrow> (bool, 'a memmap_scheme) run option" where
  "share_range p child l s =
     for_run (loc_base l) (loc_base l + loc_length l) (pm_page_size (pm_at s p)) (\<lambda>i s.
       bind_run (virtual_to_pt_entry (pm_at s p) i False (pm_page_size (pm_at s p)) s) (\<lambda>old s.
         if old = 0 then Inr (True, s)
         else
           let v = load64 (mem s) old in
           bind_run (virtual_to_pt_entry (pm_at s child) i True (pm_page_size (pm_at s child)) s) (\<lambda>e s.
             Inr (True, s\<lparr>mem := store64 (mem s) e v\<rparr>)))) s"

definition copy_page :: "u64 \<Rightarrow> u64 \<Rightarrow> u64 \<Rightarrow> u64 \<Rightarrow> 'a memmap_scheme \<Rightarrow> (bool, 'a memmap_scheme) run" where
  "copy_page p child shadow i s =
     bind_run (virtual_to_pt_entry (pm_at s p) i True (pm_page_size (pm_at s child)) s) (\<lambda>old s.
     if old = 0 then Inr (True, s)
     else
       bind_run (virtual_to_pt_entry (pm_at s p) i True (pm_page_size (pm_at s child)) s) (\<lambda>new s.
       bind_run (virtual_to_pt_entry (pm_at s shadow) i True (pm_page_size (pm_at s shadow)) s) (\<lambda>new_shadow s.
       let old_page = pte_address (load64 (mem s) old) in
       bind_run (alloc (pm_page_size (pm_at s p) div page_size) s) (\<lambda>page s.
       let h = hhdm_offset s;
           m = memcpy (mem s) (tohh h page) (tohh h old_page) (pm_page_size (pm_at s p));
           m = store64 m new 0;
           m = store64 m new (pte_set_flags (load64 m new) (pte_flags (load64 m old)) True);
           m = store64 m new (pte_set_address (load64 m new) page);
           m = store64 m new_shadow (load64 m new)
       in Inr (True, s\<lparr>mem := m\<rparr>)))))"

definition copy_range :: "u64 \<Rightarrow> u64 \<Rightarrow> u64 \<Rightarrow> memmap_local \<Rightarrow> 'a memmap_scheme \<Rightarrow> (bool, 'a memmap_scheme) run option" where
  "copy_range p child shadow l s =
     for_run (scast (loc_flags l)) (loc_base l + loc_length l) (pm_page_size (pm_at s p)) (copy_page p child shadow) s"

text \<open>The last reference to the \<^verbatim>\<open>global\<close> of a private range is the local variable of \<^verbatim>\<open>fork\<close>: its shadow, its vector
  and its memory are released at the end of the branch.\<close>

definition destroy_global :: "u64 \<Rightarrow> 'a memmap_scheme \<Rightarrow> (bool, 'a memmap_scheme) run option" where
  "destroy_global g s =
     and_then (pagemap_dtor (glob_shadow (globals s g)) s) (\<lambda>s.
       let s = operator_delete (glob_shadow (globals s g)) s;
           s = delete_array (vec_ptr (glob_locals (globals s g))) s
       in Some (Inr (True, operator_delete (g - obj_offset) s)))"

definition fork_range :: "u64 \<Rightarrow> u64 \<Rightarrow> u64 \<Rightarrow> 'a memmap_scheme \<Rightarrow> (bool, 'a memmap_scheme) run option" where
  "fork_range p child l s =
     (case make_shared sizeof_local s of
        Inl s \<Rightarrow> Some (Inl s)
      | Inr (l', s) \<Rightarrow>
          let g = loc_global (locals s l); s = s\<lparr>locals := (locals s)(l' := locals s l)\<rparr> in
          and_then
            (if loc_flags (locals s l) AND map_shared \<noteq> 0
             then
               (case vec_push_back l' (glob_locals (globals s g)) s of
                  Inl s \<Rightarrow> Some (Inl s)
                | Inr (ls, s) \<Rightarrow> share_range p child (locals s l) (s\<lparr>globals := (globals s)(g := (globals s g)\<lparr>glob_locals := ls\<rparr>)\<rparr>))
             else
               (case bind_run (make_shared sizeof_global s) (\<lambda>g' s.
                     bind_run (alloc_pagemap s) (\<lambda>shadow s.
                     bind_run (vec_push_back l' vec_empty s) (\<lambda>ls s.
                       Inr ((g', shadow), s\<lparr>globals := (globals s)(g' := new_global\<lparr>glob_locals := ls, glob_shadow := shadow,
                         glob_base := glob_base (globals s g), glob_length := glob_length (globals s g),
                         glob_offset := glob_offset (globals s g)\<rparr>)\<rparr>)))) of
                  Inl s \<Rightarrow> Some (Inl s)
                | Inr ((g', shadow), s) \<Rightarrow> and_then (copy_range p child shadow (locals s l) s) (destroy_global g')))
            (\<lambda>s. case vec_push_back l' (ranges (pagemaps s child)) s of
                   Inl s \<Rightarrow> Some (Inl s)
                 | Inr (rs, s) \<Rightarrow> Some (Inr (True, s\<lparr>pagemaps := (pagemaps s)(child := (pagemaps s child)\<lparr>ranges := rs\<rparr>)\<rparr>))))"

fun fork_ranges :: "u64 \<Rightarrow> u64 \<Rightarrow> u64 list \<Rightarrow> 'a memmap_scheme \<Rightarrow> (bool, 'a memmap_scheme) run option" where
  "fork_ranges p child [] s = Some (Inr (True, s))"
| "fork_ranges p child (l # ls) s = and_then (fork_range p child l s) (fork_ranges p child ls)"

definition fork :: "u64 \<Rightarrow> 'a memmap_scheme \<Rightarrow> (u64, 'a memmap_scheme) run option" where
  "fork p s =
     (case alloc_pagemap s of
        Inl s \<Rightarrow> Some (Inl s)
      | Inr (child, s) \<Rightarrow>
          and_then (fork_ranges p child (vec_elems (ranges (pagemaps s p))) s) (\<lambda>s. Some (Inr (child, s))))"

section \<open>What the operations leave alone\<close>

text \<open>Walking and mapping change bytes and the heap only: the typed stores lie in the part of the state above the heap.\<close>

lemma new_page_table_fixed: "new_page_table s = Inr (r, s') \<Longrightarrow> fixed_part s' = fixed_part s"
  by (auto simp: new_page_table_def bind_run_Inr dest!: malloc_fixed)

lemma get_next_lvl_fixed: "get_next_lvl t i allocate s = Inr (r, s') \<Longrightarrow> fixed_part s' = fixed_part s"
  by (auto simp: get_next_lvl_def Let_def bind_run_Inr split: if_splits dest!: new_page_table_fixed)

lemma virtual_to_pt_entry_fixed: "virtual_to_pt_entry pm va allocate psize s = Inr (e, s') \<Longrightarrow> fixed_part s' = fixed_part s"
  by (auto simp: virtual_to_pt_entry_def Let_def bind_run_Inr split: if_splits dest!: get_next_lvl_fixed)

lemma map_one_fixed: "map_one pm va pa flags cache psize s = Inr (ok, s') \<Longrightarrow> fixed_part s' = fixed_part s"
  by (auto simp: map_one_def Let_def bind_run_Inr split: if_splits dest!: virtual_to_pt_entry_fixed)

lemma run_all_fixed:
  assumes "\<And>i s ok s'. f i s = Inr (ok, s') \<Longrightarrow> fixed_part s' = fixed_part s" and "run_all f xs s = Inr (ok, s')"
  shows "fixed_part s' = fixed_part s"
  using assms(2) by (induction xs arbitrary: s) (auto simp: bind_run_Inr split: if_splits dest!: assms(1))

lemma map_page_fixed: "map_page pm va pa flags cache s = Inr (ok, s') \<Longrightarrow> fixed_part s' = fixed_part s"
  by (auto simp: map_page_def Let_def split: if_splits dest: map_one_fixed)
    (erule run_all_fixed [rotated], erule map_one_fixed)

lemma fixed_stores:
  assumes "fixed_part s' = fixed_part s"
  shows "locals s' = locals s" "globals s' = globals s" "pagemaps s' = pagemaps s" "kernel_pagemap s' = kernel_pagemap s"
  using assms by (cases s; cases s'; simp add: fixed_part_iff)+

lemma unmap_page_fixed:
  fixes s :: "'a memmap_scheme"
  assumes "unmap_page pm va flags s = Inr (ok, s')" and "get_page_size pm flags \<noteq> pm_llpage_size pm"
  shows "locals s' = locals s" "pagemaps s' = pagemaps s"
proof -
  obtain e s1 where e: "virtual_to_pt_entry pm va False (pm_page_size pm) s = Inr (e, s1)"
    "s' = (if e = 0 then s1 else s1\<lparr>mem := store64 (mem s1) e 0, invalidated := invalidated s1 @ [va]\<rparr>)"
    using assms by (auto simp: unmap_page_def unmap_one_def Let_def bind_run_Inr split: if_splits)
  note f = fixed_stores [OF virtual_to_pt_entry_fixed [OF e(1)]]
  show "locals s' = locals s" "pagemaps s' = pagemaps s" using f e(2) by auto
qed

section \<open>What a range maps\<close>

lemma empty_range: "loc_length l = 0 \<Longrightarrow> outside address l"
  by (auto simp: outside_def)

lemma global_map_page_shadow:
  fixes s :: "'a memmap_scheme"
  assumes "\<forall>l \<in> set (vec_elems (glob_locals (globals s g))). loc_length (locals s l) = 0"
  shows "global_map_page g va pa prot s = map_page (pm_at s (glob_shadow (globals s g))) va pa (prot_flags prot) WRITE_BACK s"
proof -
  have skip: "run_all (\<lambda>l s. if outside va (locals s l) then Inr (True, s)
      else map_page (pm_at s (loc_pagemap (locals s l))) va pa (prot_flags prot) WRITE_BACK s) ls s' = Inr (True, s')"
    if "\<forall>l \<in> set ls. outside va (locals s' l)" for ls and s' :: "'a memmap_scheme"
    using that by (induction ls) simp_all
  show ?thesis
  proof (cases "map_page (pm_at s (glob_shadow (globals s g))) va pa (prot_flags prot) WRITE_BACK s")
    case (Inr x)
    obtain ok s' where x: "x = (ok, s')" by (cases x)
    note f = fixed_stores [OF map_page_fixed [OF Inr [unfolded x]]]
    have "\<forall>l \<in> set (vec_elems (glob_locals (globals s' g))). outside va (locals s' l)" using assms f empty_range by simp
    then show ?thesis unfolding global_map_page_def Inr x using skip by simp
  qed (simp add: global_map_page_def)
qed

lemma vec_push_back_elems: "vec_push_back x v s = Inr (v', s') \<Longrightarrow> vec_elems v' = vec_elems v @ [x]"
  by (auto simp: vec_push_back_def vec_reserve_def bind_run_Inr split: if_splits)

lemma open_range_stores:
  assumes "open_range p va len prot flags s = Inr (g, s')"
  shows "\<exists>l. vec_elems (glob_locals (globals s' g)) = [l] \<and> loc_length (locals s' l) = 0 \<and> loc_base (locals s' l) = va
    \<and> loc_pagemap (locals s' l) = p \<and> loc_prot (locals s' l) = prot \<and> loc_flags (locals s' l) = flags"
  using assms by (auto simp: open_range_def bind_run_Inr new_global_def new_local_def vec_empty_def dest!: vec_push_back_elems)

text \<open>C38: Once its range is entered, the \<^verbatim>\<open>map_range\<close> that takes a protection is the loop of \<^verbatim>\<open>map\<close> over the pages of the range on
  the shadow page map alone, with the same outcome, states and failures. The length of the new \<^verbatim>\<open>local\<close> is never set, so
  the inner loop of \<^verbatim>\<open>global::map_page\<close> skips it for every address, and \<^verbatim>\<open>map\<close> is not called on the page map the range belongs
  to. (What becomes visible there is what the two maps share, the tables of the kernel's half.)\<close>

theorem map_range_shadow_only:
  fixes s :: "'a memmap_scheme"
  assumes "open_range p (align_down va (pm_page_size (pm_at s p))) len' prot (flags OR map_anonymous) s = Inr (g, s')"
    and "len' = align_up (len + (va - align_down va (pm_page_size (pm_at s p)))) (pm_page_size (pm_at s p))"
  shows "map_range p va pa len prot flags s =
    for_run 0 len' (pm_page_size (pm_at s p))
      (\<lambda>i. map_page (pm_at s' (glob_shadow (globals s' g))) (align_down va (pm_page_size (pm_at s p)) + i) (pa + i) (prot_flags prot) WRITE_BACK) s'"
proof -
  define I where "I t \<longleftrightarrow> fixed_part t = fixed_part s'" for t :: "'a memmap_scheme"
  from open_range_stores [OF assms(1)] have empty: "\<forall>l \<in> set (vec_elems (glob_locals (globals s' g))). loc_length (locals s' l) = 0" by auto
  have same: "global_map_page g a b prot t = map_page (pm_at s' (glob_shadow (globals s' g))) a b (prot_flags prot) WRITE_BACK t"
    if "I t" for a b t
    using global_map_page_shadow [of t g a b prot] empty fixed_stores [of t s'] that by (simp add: I_def pm_at_def)
  have "for_run 0 len' psize (\<lambda>i. global_map_page g (a + i) (pa + i) prot) s' =
      for_run 0 len' psize (\<lambda>i. map_page (pm_at s' (glob_shadow (globals s' g))) (a + i) (pa + i) (prot_flags prot) WRITE_BACK) s'" for psize a
  proof (rule for_run_same [where I = I])
    show "I s'" by (simp add: I_def)
    show "I t'" if "I t" "global_map_page g (a + i) (pa + i) prot t = Inr (True, t')" for i t t'
      using that same [OF that(1)] map_page_fixed [of "pm_at s' (glob_shadow (globals s' g))" "a + i" "pa + i" "prot_flags prot" WRITE_BACK t True t']
      by (simp add: I_def)
  qed (rule same)
  then show ?thesis using assms by (simp add: map_range_def Let_def)
qed

lemma operator_new_fixed: "operator_new sz s = Inr (x, s') \<Longrightarrow> fixed_part s' = fixed_part s"
  by (simp add: operator_new_def c_malloc_def malloc_fixed)

lemma vec_push_back_fixed: "vec_push_back x v s = Inr (v', s') \<Longrightarrow> fixed_part s' = fixed_part s"
  by (auto simp: vec_push_back_def vec_reserve_def delete_array_def operator_delete_def c_free_def bind_run_Inr
      split: if_splits dest!: operator_new_fixed)

lemma pagemap_ctor_fixed:
  assumes "pagemap_ctor s = Inr (pm, s')"
  shows "fixed_part s' = fixed_part s"
proof -
  obtain t s1 where t: "new_page_table s = Inr (t, s1)" using assms by (auto simp: pagemap_ctor_def bind_run_Inr)
  note f = new_page_table_fixed [OF t]
  show ?thesis
  proof (cases "kernel_pagemap s1")
    case None
    then obtain ok where "run_all (\<lambda>i s. bind_run (get_next_lvl t i True s) (\<lambda>_ s. Inr (True, s))) kernel_half s1 = Inr (ok, s')"
      using assms t by (auto simp: pagemap_ctor_def bind_run_Inr Let_def)
    then have "fixed_part s' = fixed_part s1"
      by (rule run_all_fixed [rotated]) (auto simp: bind_run_Inr dest: get_next_lvl_fixed)
    then show ?thesis using f by simp
  next
    case (Some k)
    then show ?thesis using assms t f by (auto simp: pagemap_ctor_def Let_def)
  qed
qed

text \<open>A fresh block is none of the blocks in use.\<close>

lemma operator_new_fresh:
  assumes "heap_inv M own fl s" and "operator_new sz s = Inr (x, s')" and "unat sz + 4096 \<le> 2 ^ 64"
  obtains own' fl' where "heap_inv M own' fl' s'" "live own fl s \<subseteq> live own' fl' s'" "\<forall>k. (x, k) \<notin> live own fl s"
proof -
  have m: "malloc sz s = Inr (x, s')" using assms(2) by (simp add: operator_new_def c_malloc_def)
  from assms(1,3) m obtain own' fl' k where b: "heap_inv M own' fl' s'" "(x, k) \<notin> live own fl s"
    "live own' fl' s' = insert (x, k) (live own fl s)" by (rule malloc_block)
  have "\<forall>l. (x, l) \<notin> live own fl s" using live_unique [OF b(1), of x k] b(2,3) by auto
  then show ?thesis using that b(1,3) by blast
qed

lemma open_range_effect:
  assumes inv: "heap_inv M own fl s" and p: "(p, n) \<in> live own fl s" and run: "open_range p va len prot flags s = Inr (g, s')"
  obtains l where "\<forall>k. (l - obj_offset, k) \<notin> live own fl s" "\<forall>x. x \<noteq> l \<longrightarrow> locals s' x = locals s x" "loc_length (locals s' l) = 0"
    "pm_at s' p = pm_at s p" "vec_elems (ranges (pagemaps s' p)) = vec_elems (ranges (pagemaps s p)) @ [l]"
proof -
  obtain g0 s1 l0 s2 q s3 pm s4 ls s5 rs s6 where
    1: "operator_new (obj_offset + sizeof_global) s = Inr (g0, s1)" and
    2: "operator_new (obj_offset + sizeof_local) s1 = Inr (l0, s2)" and
    3: "operator_new sizeof_pagemap s2 = Inr (q, s3)" and
    4: "pagemap_ctor s3 = Inr (pm, s4)" and
    5: "vec_push_back (l0 + obj_offset) vec_empty (s4\<lparr>pagemaps := (pagemaps s4)(q := pagemap_t.extend pm \<lparr>ranges = vec_empty\<rparr>)\<rparr>) = Inr (ls, s5)" and
    6: "vec_push_back (l0 + obj_offset) (ranges (pagemaps s5 p)) s5 = Inr (rs, s6)" and
    s': "locals s' = (locals s6)(l0 + obj_offset := new_local\<lparr>loc_global := g, loc_pagemap := p, loc_base := va, loc_prot := prot, loc_flags := flags\<rparr>)"
      "pagemaps s' = (pagemaps s6)(p := (pagemaps s6 p)\<lparr>ranges := rs\<rparr>)"
    using run unfolding open_range_def make_shared_def alloc_pagemap_def
    by (auto simp: bind_run_Inr)
  have sz: "unat (obj_offset + sizeof_global) + 4096 \<le> 2 ^ 64" "unat (obj_offset + sizeof_local) + 4096 \<le> 2 ^ 64" "unat sizeof_pagemap + 4096 \<le> 2 ^ 64"
    by (simp_all add: obj_offset_def sizeof_global_def sizeof_local_def sizeof_pagemap_def)
  from inv 1 sz(1) obtain own1 fl1 where a: "heap_inv M own1 fl1 s1" "live own fl s \<subseteq> live own1 fl1 s1" by (rule operator_new_fresh)
  from a(1) 2 sz(2) obtain own2 fl2 where b: "heap_inv M own2 fl2 s2" "live own1 fl1 s1 \<subseteq> live own2 fl2 s2" "\<forall>k. (l0, k) \<notin> live own1 fl1 s1"
    by (rule operator_new_fresh)
  from b(1) 3 sz(3) obtain own3 fl3 where c: "\<forall>k. (q, k) \<notin> live own2 fl2 s2" by (rule operator_new_fresh)
  have qp: "q \<noteq> p" using c p a(2) b(2) by blast
  note f = fixed_stores [OF operator_new_fixed [OF 1]] fixed_stores [OF operator_new_fixed [OF 2]] fixed_stores [OF operator_new_fixed [OF 3]]
    fixed_stores [OF pagemap_ctor_fixed [OF 4]] fixed_stores [OF vec_push_back_fixed [OF 5]] fixed_stores [OF vec_push_back_fixed [OF 6]]
  show ?thesis
  proof (rule that [of "l0 + obj_offset"])
    show "\<forall>k. (l0 + obj_offset - obj_offset, k) \<notin> live own fl s" using b(3) a(2) by auto
    show "\<forall>x. x \<noteq> l0 + obj_offset \<longrightarrow> locals s' x = locals s x" "loc_length (locals s' (l0 + obj_offset)) = 0"
      using s'(1) f by (auto simp: new_local_def)
    show "pm_at s' p = pm_at s p" using s'(2) f qp by (simp add: pm_at_def pagemap_t.defs)
    show "vec_elems (ranges (pagemaps s' p)) = vec_elems (ranges (pagemaps s p)) @ [l0 + obj_offset]"
      using s'(2) f qp vec_push_back_elems [OF 6] by simp
  qed
qed
text \<open>A range that \<^verbatim>\<open>map_range\<close> has entered is never found again: \<^verbatim>\<open>address_to_range\<close> answers for every address as it
  did before, although the range is in the list of the page map.\<close>

theorem range_never_found:
  assumes "heap_inv M own fl s" and "(p, n) \<in> live own fl s"
    and "\<forall>l \<in> set (vec_elems (ranges (pagemaps s p))). \<exists>k. (l - obj_offset, k) \<in> live own fl s"
    and "map_range p va pa len prot flags s = Some (Inr (ok, s'))"
  shows "address_to_range p a s' = address_to_range p a s
    \<and> (\<exists>l. vec_elems (ranges (pagemaps s' p)) = vec_elems (ranges (pagemaps s p)) @ [l])"
proof -
  define va' where "va' = align_down va (pm_page_size (pm_at s p))"
  obtain len' g s1 where o: "open_range p va' len' prot (flags OR map_anonymous) s = Inr (g, s1)"
    and loop: "for_run 0 len' (pm_page_size (pm_at s p)) (\<lambda>i. global_map_page g (va' + i) (pa + i) prot) s1 = Some (Inr (ok, s'))"
    using assms(4) unfolding map_range_def Let_def va'_def by (auto split: sum.splits)
  from assms(1,2) o obtain l where l: "\<forall>k. (l - obj_offset, k) \<notin> live own fl s" "\<forall>x. x \<noteq> l \<longrightarrow> locals s1 x = locals s x"
    "loc_length (locals s1 l) = 0" "pm_at s1 p = pm_at s p" "vec_elems (ranges (pagemaps s1 p)) = vec_elems (ranges (pagemaps s p)) @ [l]"
    by (rule open_range_effect)
  have empty: "\<forall>x \<in> set (vec_elems (glob_locals (globals s1 g))). loc_length (locals s1 x) = 0" using open_range_stores [OF o] by auto
  have "fixed_part t' = fixed_part s1" if "fixed_part t = fixed_part s1" "global_map_page g b c prot t = Inr (ok, t')" for b c t ok t'
    using that global_map_page_shadow [of t g b c prot] empty fixed_stores [OF that(1)] by (auto dest: map_page_fixed)
  with for_run_inv [OF loop, of "\<lambda>t. fixed_part t = fixed_part s1"] have "fixed_part s' = fixed_part s1" by blast
  note f = fixed_stores [OF this]
  have old: "locals s1 x = locals s x" if "x \<in> set (vec_elems (ranges (pagemaps s p)))" for x
    using assms(3) l(1,2) that by metis
  have "find (\<lambda>x. \<not> outside a (locals s1 x)) (xs @ [l]) = find (\<lambda>x. \<not> outside a (locals s x)) xs"
    if "\<forall>x \<in> set xs. locals s1 x = locals s x" for xs
    using that empty_range [OF l(3)] by (induction xs) auto
  then have fnd: "find (\<lambda>x. \<not> outside a (locals s1 x)) (vec_elems (ranges (pagemaps s1 p))) =
      find (\<lambda>x. \<not> outside a (locals s x)) (vec_elems (ranges (pagemaps s p)))" using l(5) old by simp
  have "locals s1 x = locals s x" if "find (\<lambda>x. \<not> outside a (locals s x)) (vec_elems (ranges (pagemaps s p))) = Some x" for x
    using old that by (auto simp: find_Some_iff)
  then have "address_to_range p a s1 = address_to_range p a s"
    unfolding address_to_range_def fnd l(4) by (auto simp: Let_def split: option.split)
  moreover have "address_to_range p a s' = address_to_range p a s1" unfolding address_to_range_def pm_at_def f ..
  ultimately show ?thesis using f l(5) by simp
qed

section \<open>Destroying a page map with ranges\<close>

lemma unmap_ranges_Some:
  assumes run: "unmap_ranges p s = Some r" and "I s" and "\<And>s. I s \<Longrightarrow> vec_elems (ranges (pagemaps s p)) \<noteq> []"
    and keep: "\<And>s l. I s \<Longrightarrow> l = hd (vec_elems (ranges (pagemaps s p))) \<Longrightarrow>
      \<exists>ok s'. unmap_page (pm_at s p) (loc_base (locals s l)) (loc_length (locals s l)) s = Inr (ok, s') \<and> I s'"
  shows False
proof -
  have "p = p \<longrightarrow> \<not> I s"
  proof (rule unmap_ranges.raw_induct [OF _ run, where P = "\<lambda>q s r. q = p \<longrightarrow> \<not> I s"], intro impI notI)
    fix rec q s r
    assume IH: "\<And>q s r. rec q s = Some r \<Longrightarrow> q = p \<longrightarrow> \<not> I s" and b: "q = p" "I s"
      and one: "(case vec_elems (ranges (pagemaps s q)) of [] \<Rightarrow> Some (Inr (True, s))
        | l # ls \<Rightarrow> (case unmap_page (pm_at s q) (loc_base (locals s l)) (loc_length (locals s l)) s of
            Inl s \<Rightarrow> Some (Inl s) | Inr (ok, s) \<Rightarrow> rec q s)) = Some r"
    from assms(3) [OF b(2)] obtain l ls where ls: "vec_elems (ranges (pagemaps s p)) = l # ls" by (cases "vec_elems (ranges (pagemaps s p))") auto
    with keep [OF b(2)] obtain ok s' where "unmap_page (pm_at s p) (loc_base (locals s l)) (loc_length (locals s l)) s = Inr (ok, s')" "I s'" by auto
    then show False using one ls b IH by auto
  qed
  then show False using assms(2) by simp
qed

text \<open>C39: The destructor of a page map that has a range, such as one \<^verbatim>\<open>map_range\<close> has made, does not return: its loop waits for the
  list of ranges to become empty and never takes one out.\<close>

theorem destructor_diverges:
  assumes "pagemap_ok M own fl tbl (pm_at s p) s" and "vec_elems (ranges (pagemaps s p)) = l # ls" and "loc_length (locals s l) = 0"
    and "\<forall>n e. mapped (pm_at s p) s (loc_base (locals s l)) = Some (n, e) \<longrightarrow> n = 12"
  shows "unmap_ranges p s = None \<and> pagemap_dtor p s = None"
proof -
  define I where "I t \<longleftrightarrow> pagemap_ok M own fl tbl (pm_at s p) t \<and> locals t = locals s \<and> pagemaps t = pagemaps s
    \<and> at_most_small (mapped (pm_at s p) t (loc_base (locals s l)))" for t :: "'a memmap_scheme"
  have small: "\<not> is_lpage 0" by (simp add: is_lpage_def)
  have none: "unmap_ranges p s = None"
  proof (rule ccontr)
    assume "unmap_ranges p s \<noteq> None"
    then obtain r where "unmap_ranges p s = Some r" by blast
    then show False
    proof (rule unmap_ranges_Some [where I = I])
      show "I s" using assms(1,4) by (simp add: I_def at_most_small_def)
      show "vec_elems (ranges (pagemaps t p)) \<noteq> []" if "I t" for t using that assms(2) by (simp add: I_def)
    next
      fix t k assume I: "I t" and k: "k = hd (vec_elems (ranges (pagemaps t p)))"
      have ok: "pagemap_ok M own fl tbl (pm_at s p) t" "\<forall>n e. mapped (pm_at s p) t (loc_base (locals s l)) = Some (n, e) \<longrightarrow> n = 12"
        using I unfolding I_def at_most_small_def by blast+
      from ok(1) small ok(2) obtain r t' where t': "unmap_page (pm_at s p) (loc_base (locals s l)) 0 t = Inr (r, t')"
        "pagemap_ok M own fl tbl (pm_at s p) t'"
        "\<forall>va'. mapped (pm_at s p) t' va' = (if same_page (loc_base (locals s l)) va' then None else mapped (pm_at s p) t va')"
        by (rule unmap_page_effect)
      have "standard (pm_at s p)" using ok(1) by (simp add: pagemap_ok_def)
      then have "get_page_size (pm_at s p) 0 \<noteq> pm_llpage_size (pm_at s p)" using get_page_size_small [of "pm_at s p" 0] small by simp
      note f = unmap_page_fixed [OF t'(1) this]
      have "k = l" "pm_at t p = pm_at s p" "locals t = locals s" using k I assms(2) by (simp_all add: I_def pm_at_def)
      moreover have "I t'" using t'(2,3) f I by (simp add: I_def at_most_small_def same_page_def)
      ultimately show "\<exists>ok s'. unmap_page (pm_at t p) (loc_base (locals t k)) (loc_length (locals t k)) t = Inr (ok, s') \<and> I s'"
        using t'(1) assms(3) by auto
    qed
  qed
  then show ?thesis by (simp add: pagemap_dtor_def and_then_def)
qed

theorem destructor_diverges_witness:
  "\<exists>s1 t s2. slab_allocator vm_state = Inr ((), s1) \<and> new_page_table s1 = Inr (t, s2)
    \<and> pagemap_dtor 1 (vmm.extend s2
        \<lparr>locals = (\<lambda>_. new_local\<lparr>loc_base := 0x400000\<rparr>), globals = (\<lambda>_. new_global),
         pagemaps = (\<lambda>_. pagemap_t.extend (page_map t) \<lparr>ranges = \<lparr>vec_ptr = 24, vec_cap = 1, vec_elems = [2]\<rparr>\<rparr>)\<rparr>) = None"
proof -
  obtain s1 t s2 own fl where s: "slab_allocator vm_state = Inr ((), s1)" "new_page_table s1 = Inr (t, s2)"
    "pagemap_ok {2..<64} own fl [[] \<mapsto> t] (page_map t) s2" "fresh 14 s2" "page_limit s2 = 64" "\<forall>i < 512. ent (mem s2) t i = 0"
    by (rule vm_state_runs)
  let ?s = "vmm.extend s2
        \<lparr>locals = (\<lambda>_. new_local\<lparr>loc_base := 0x400000\<rparr>), globals = (\<lambda>_. new_global),
         pagemaps = (\<lambda>_. pagemap_t.extend (page_map t) \<lparr>ranges = \<lparr>vec_ptr = 24, vec_cap = 1, vec_elems = [2]\<rparr>\<rparr>)\<rparr>"
  have same: "heap.truncate ?s = heap.truncate s2" by (simp add: heap.truncate_def vmm.extend_def)
  have pm: "pm_at ?s 1 = page_map t" by (simp add: pm_at_def vmm.extend_def pagemap_t.defs)
  have "pagemap_dtor 1 ?s = None"
  proof (rule destructor_diverges [THEN conjunct2])
    show "pagemap_ok {2..<64} own fl [[] \<mapsto> t] (pm_at ?s 1) ?s" using s(3) pagemap_ok_fields(1) [OF same] pm by simp
    show "vec_elems (ranges (pagemaps ?s 1)) = [2]" "loc_length (locals ?s 2) = 0"
      by (simp_all add: vmm.extend_def pagemap_t.defs new_local_def)
    show "\<forall>n e. mapped (pm_at ?s 1) ?s (loc_base (locals ?s 2)) = Some (n, e) \<longrightarrow> n = 12"
      using empty_map [OF s(3,6)] pagemap_ok_fields(2) [OF same] pm by simp
  qed
  then show ?thesis using s(1,2) by blast
qed

section \<open>Runs that succeed\<close>

text \<open>A small allocation beside a page map.\<close>

lemma operator_new_ready:
  assumes ok: "pagemap_ok M own fl tbl k s" and sz: "sz \<le> 1024" and f: "fresh f s" "f + 1 \<le> page_limit s"
  obtains x s' own' fl' where "operator_new sz s = Inr (x, s')" "pagemap_ok M own' fl' tbl k s'" "fresh (f + 1) s'"
    "page_limit s' = page_limit s" "live own fl s \<subseteq> live own' fl' s'" "\<exists>n. (x, n) \<in> live own' fl' s'"
proof -
  have st: "standard k" and tree: "pt_tree M own fl tbl (top_level k) s" using ok by (simp_all add: pagemap_ok_def)
  note inv = pt_treeD(1) [OF tree]
  have p: "pages_needed sz = 1" using sz by (simp add: pages_needed_def)
  have z: "unat sz + 4096 \<le> 2 ^ 64" using sz by (simp add: word_le_nat_alt)
  from malloc_fresh [OF inv z f(1)] f(2) p obtain x s' where
    m: "malloc sz s = Inr (x, s')" "fresh (f + 1) s'" "mem_usable_top s' = mem_usable_top s" by metis
  from inv z m(1) obtain own' fl' n where b: "heap_inv M own' fl' s'" "live own' fl' s' = insert (x, n) (live own fl s)" "keeps (live own fl s) s s'"
    by (rule malloc_block)
  have "hhdm_offset s' = hhdm_offset s" using malloc_fixed [OF m(1)] by (simp add: fixed_part_iff)
  then have "pt_tree M own' fl' tbl (top_level k) s'" using pt_tree_keeps(1) [OF tree b(1) _ b(3)] b(2) by blast
  then show ?thesis using that [of x s' own' fl'] m b(2) st by (auto simp: operator_new_def c_malloc_def pagemap_ok_def)
qed

lemma vec_push_back_ready:
  assumes ok: "pagemap_ok M own fl tbl k s" and v: "vec_ptr v = 0" "vec_cap v = 0" "vec_elems v = []" and f: "fresh f s" "f + 1 \<le> page_limit s"
  obtains v' s' own' fl' where "vec_push_back x v s = Inr (v', s')" "pagemap_ok M own' fl' tbl k s'" "fresh (f + 1) s'"
    "page_limit s' = page_limit s" "live own fl s \<subseteq> live own' fl' s'"
proof -
  have "(24 :: u64) \<le> 1024" by simp
  from ok this f obtain y s' own' fl' where y: "operator_new 24 s = Inr (y, s')" "pagemap_ok M own' fl' tbl k s'" "fresh (f + 1) s'"
    "page_limit s' = page_limit s" "live own fl s \<subseteq> live own' fl' s'" by (rule operator_new_ready)
  have "vec_push_back x v s = Inr (v\<lparr>vec_ptr := y + 8, vec_cap := 1, vec_elems := [x]\<rparr>, s')"
    using y(1) v by (simp add: vec_push_back_def vec_reserve_def delete_array_def)
  then show ?thesis using that y(2-5) by blast
qed

lemma open_range_ready:
  assumes ok: "pagemap_ok M own fl tbl k s" and kp: "kernel_pagemap s = Some k" and v: "\<forall>q. ranges (pagemaps s q) = vec_empty"
    and f: "fresh f s" "f + 7 \<le> page_limit s"
  obtains g s' where "open_range p va len prot flags s = Inr (g, s')"
proof -
  have sz: "obj_offset + sizeof_global \<le> 1024" "obj_offset + sizeof_local \<le> 1024" "sizeof_pagemap \<le> 1024"
    by (simp_all add: obj_offset_def sizeof_global_def sizeof_local_def sizeof_pagemap_def)
  from ok sz(1) f(1) obtain g s1 own1 fl1 where 1: "operator_new (obj_offset + sizeof_global) s = Inr (g, s1)" "pagemap_ok M own1 fl1 tbl k s1"
    "fresh (f + 1) s1" "page_limit s1 = page_limit s"
    by (rule operator_new_ready) (use f in simp)
  from 1(2) sz(2) 1(3) obtain l s2 own2 fl2 where 2: "operator_new (obj_offset + sizeof_local) s1 = Inr (l, s2)" "pagemap_ok M own2 fl2 tbl k s2"
    "fresh (f + 1 + 1) s2" "page_limit s2 = page_limit s1"
    by (rule operator_new_ready) (use f 1(4) in simp)
  from 2(2) sz(3) 2(3) obtain q s3 own3 fl3 where 3: "operator_new sizeof_pagemap s2 = Inr (q, s3)" "pagemap_ok M own3 fl3 tbl k s3"
    "fresh (f + 1 + 1 + 1) s3" "page_limit s3 = page_limit s2"
    by (rule operator_new_ready) (use f 1(4) 2(4) in simp)
  note fs = fixed_stores [OF operator_new_fixed [OF 1(1)]] fixed_stores [OF operator_new_fixed [OF 2(1)]] fixed_stores [OF operator_new_fixed [OF 3(1)]]
  have "kernel_pagemap s3 = Some k" "f + 1 + 1 + 1 + 2 \<le> page_limit s3" using fs kp f 1(4) 2(4) 3(4) by simp_all
  with 3(2,3) obtain pm s4 own4 fl4 where 4: "pagemap_ctor s3 = Inr (pm, s4)" "pagemap_ok M own4 fl4 tbl k s4" "fresh (f + 1 + 1 + 1 + 2) s4"
    "page_limit s4 = page_limit s3" by (metis pagemap_ctor_ready)
  let ?s4 = "s4\<lparr>pagemaps := (pagemaps s4)(q := pagemap_t.extend pm \<lparr>ranges = vec_empty\<rparr>)\<rparr>"
  have same: "heap.truncate ?s4 = heap.truncate s4" by (simp add: heap.truncate_def)
  have ok4: "pagemap_ok M own4 fl4 tbl k ?s4" "fresh (f + 1 + 1 + 1 + 2) ?s4" "f + 1 + 1 + 1 + 2 + 1 \<le> page_limit ?s4"
    using pagemap_ok_fields(1,3) [OF same] 4(2-4) f 1(4) 2(4) 3(4) by simp_all
  have e: "vec_ptr vec_empty = 0" "vec_cap vec_empty = 0" "vec_elems vec_empty = []" by (simp_all add: vec_empty_def)
  from ok4(1) e ok4(2,3) obtain ls s5 own5 fl5 where 5: "vec_push_back (l + obj_offset) vec_empty ?s4 = Inr (ls, s5)" "pagemap_ok M own5 fl5 tbl k s5"
    "fresh (f + 1 + 1 + 1 + 2 + 1) s5" "page_limit s5 = page_limit ?s4" by (rule vec_push_back_ready)
  have "ranges (pagemaps s5 p) = vec_empty"
    using v fs fixed_stores [OF pagemap_ctor_fixed [OF 4(1)]] fixed_stores [OF vec_push_back_fixed [OF 5(1)]] by (simp add: pagemap_t.defs)
  moreover have "f + 1 + 1 + 1 + 2 + 1 + 1 \<le> page_limit s5" using f 1(4) 2(4) 3(4) 4(4) 5(4) by simp
  ultimately obtain rs s6 where 6: "vec_push_back (l + obj_offset) (ranges (pagemaps s5 p)) s5 = Inr (rs, s6)"
    using vec_push_back_ready [OF 5(2), of vec_empty] e 5(3) by metis
  show ?thesis using that 1(1) 2(1) 3(1) 4(1) 5(1) 6 by (auto simp: open_range_def make_shared_def alloc_pagemap_def)
qed

text \<open>The machine of the page tables with its map as the kernel's, and stores without ranges.\<close>

definition memmap_state :: "u64 \<Rightarrow> vmm \<Rightarrow> memmap" where
  "memmap_state t s = vmm.extend (s\<lparr>kernel_pagemap := Some (page_map t)\<rparr>)
     \<lparr>locals = (\<lambda>_. new_local), globals = (\<lambda>_. new_global), pagemaps = (\<lambda>_. pagemap_t.extend (page_map t) \<lparr>ranges = vec_empty\<rparr>)\<rparr>"

lemma memmap_state_simps [simp]:
  "heap.truncate (memmap_state t s) = heap.truncate s" "kernel_pagemap (memmap_state t s) = Some (page_map t)"
  "pagemaps (memmap_state t s) q = pagemap_t.extend (page_map t) \<lparr>ranges = vec_empty\<rparr>"
  by (simp_all add: memmap_state_def vmm.extend_def heap.truncate_def)

lemma memmap_state_runs:
  obtains s1 t s2 p s3 own fl n where "slab_allocator vm_state = Inr ((), s1)" "new_page_table s1 = Inr (t, s2)"
    "operator_new sizeof_pagemap (memmap_state t s2) = Inr (p, s3)" "pagemap_ok {2..<64} own fl [[] \<mapsto> t] (page_map t) s3"
    "(p, n) \<in> live own fl s3" "pm_at s3 p = page_map t" "\<forall>q. ranges (pagemaps s3 q) = vec_empty"
    "\<And>va len prot flags. \<exists>g s'. open_range p va len prot flags s3 = Inr (g, s')"
proof -
  obtain s1 t s2 own fl where s: "slab_allocator vm_state = Inr ((), s1)" "new_page_table s1 = Inr (t, s2)"
    "pagemap_ok {2..<64} own fl [[] \<mapsto> t] (page_map t) s2" "fresh 14 s2" "page_limit s2 = 64" "\<forall>i < 512. ent (mem s2) t i = 0"
    by (rule vm_state_runs)
  let ?s = "memmap_state t s2"
  have same: "heap.truncate ?s = heap.truncate s2" by simp
  have ok: "pagemap_ok {2..<64} own fl [[] \<mapsto> t] (page_map t) ?s" "fresh 14 ?s" "page_limit ?s = 64"
    using pagemap_ok_fields(1,3) [OF same] s(3-5) heap_fields(3) [OF same] by simp_all
  have sz: "sizeof_pagemap \<le> 1024" "14 + 1 \<le> page_limit ?s" using ok(3) by (simp_all add: sizeof_pagemap_def)
  from ok(1) sz(1) ok(2) sz(2) obtain p s3 own' fl' where p: "operator_new sizeof_pagemap ?s = Inr (p, s3)"
    "pagemap_ok {2..<64} own' fl' [[] \<mapsto> t] (page_map t) s3" "fresh (14 + 1) s3" "page_limit s3 = page_limit ?s" "\<exists>n. (p, n) \<in> live own' fl' s3"
    by (rule operator_new_ready)
  then obtain n where n: "(p, n) \<in> live own' fl' s3" by blast
  note fs = fixed_stores [OF operator_new_fixed [OF p(1)]]
  have r: "\<forall>q. ranges (pagemaps s3 q) = vec_empty" using fs by (simp add: pagemap_t.defs)
  have "kernel_pagemap s3 = Some (page_map t)" "14 + 1 + 7 \<le> page_limit s3" using fs p(4) ok(3) by simp_all
  then have run: "\<exists>g s'. open_range p va len prot flags s3 = Inr (g, s')" for va len prot flags
    using open_range_ready [OF p(2) _ r p(3)] by metis
  have pm: "pm_at s3 p = page_map t" using fs by (simp add: pm_at_def pagemap_t.defs)
  show ?thesis by (rule that [OF s(1,2) p(1,2) n pm r run])
qed

theorem map_range_shadow_only_witness:
  "\<exists>s1 t s2 p s3 g s4. slab_allocator vm_state = Inr ((), s1) \<and> new_page_table s1 = Inr (t, s2)
    \<and> operator_new sizeof_pagemap (memmap_state t s2) = Inr (p, s3)
    \<and> map_range p 0x400123 0x7000 0xF00 3 2 s3 =
        for_run 0 0x2000 0x1000 (\<lambda>i. map_page (pm_at s4 (glob_shadow (globals s4 g))) (0x400000 + i) (0x7000 + i) (prot_flags 3) WRITE_BACK) s4"
proof -
  obtain s1 t s2 p s3 where s: "slab_allocator vm_state = Inr ((), s1)" "new_page_table s1 = Inr (t, s2)"
    "operator_new sizeof_pagemap (memmap_state t s2) = Inr (p, s3)" "pm_at s3 p = page_map t"
    "\<And>va len prot flags. \<exists>g s'. open_range p va len prot flags s3 = Inr (g, s')"
    by (rule memmap_state_runs) blast
  have sz: "pm_page_size (pm_at s3 p) = 0x1000" by (simp add: s(4) page_map_def KiB4_def)
  have al: "align_down 0x400123 0x1000 = 0x400000" "align_up (0xF00 + (0x400123 - 0x400000)) 0x1000 = 0x2000"
    by (simp_all add: align_up_def align_down_def)
  obtain g s4 where o: "open_range p (align_down 0x400123 (pm_page_size (pm_at s3 p))) 0x2000 3 (2 OR map_anonymous) s3 = Inr (g, s4)"
    using s(5) by blast
  have "map_range p 0x400123 0x7000 0xF00 3 2 s3 =
      for_run 0 0x2000 0x1000 (\<lambda>i. map_page (pm_at s4 (glob_shadow (globals s4 g))) (0x400000 + i) (0x7000 + i) (prot_flags 3) WRITE_BACK) s4"
    using map_range_shadow_only [OF o, of "0xF00" "0x7000"] by (simp only: sz al)
  then show ?thesis using s(1-3) by blast
qed

theorem range_never_found_witness:
  "\<exists>s1 t s2 p s3 s4. slab_allocator vm_state = Inr ((), s1) \<and> new_page_table s1 = Inr (t, s2)
    \<and> operator_new sizeof_pagemap (memmap_state t s2) = Inr (p, s3)
    \<and> map_range p 0x400000 0x7000 0 3 2 s3 = Some (Inr (True, s4)) \<and> address_to_range p 0x400000 s4 = None"
proof -
  obtain s1 t s2 p s3 own fl n where s: "slab_allocator vm_state = Inr ((), s1)" "new_page_table s1 = Inr (t, s2)"
    "operator_new sizeof_pagemap (memmap_state t s2) = Inr (p, s3)" "pagemap_ok {2..<64} own fl [[] \<mapsto> t] (page_map t) s3"
    "(p, n) \<in> live own fl s3" "pm_at s3 p = page_map t" "\<forall>q. ranges (pagemaps s3 q) = vec_empty"
    "\<And>va len prot flags. \<exists>g s'. open_range p va len prot flags s3 = Inr (g, s')"
    by (rule memmap_state_runs) blast
  obtain g s4 where o: "open_range p 0x400000 0 3 (2 OR map_anonymous) s3 = Inr (g, s4)" using s(8) by blast
  have "pm_page_size (pm_at s3 p) = 0x1000" by (simp add: s(6) page_map_def KiB4_def)
  moreover have "align_down 0x400000 0x1000 = 0x400000" "align_up 0 0x1000 = 0" by (simp_all add: align_up_def align_down_def)
  ultimately have run: "map_range p 0x400000 0x7000 0 3 2 s3 = Some (Inr (True, s4))"
    using o by (simp add: map_range_def Let_def for_run.simps)
  have "heap_inv {2..<64} own fl s3" using s(4) pt_treeD(1) unfolding pagemap_ok_def by blast
  from range_never_found [OF this s(5) _ run, of "0x400000"] s(7) have "address_to_range p 0x400000 s4 = address_to_range p 0x400000 s3"
    by (simp add: vec_empty_def)
  also have "\<dots> = None" using s(7) by (simp add: address_to_range_def vec_empty_def)
  finally show ?thesis using s(1-3) run by blast
qed

end
