(* ===== verification/Ice_Terminal.thy ===== *)
theory Ice_Terminal
  imports Ice_Printf Ice_Paging
begin

text \<open>
  The console: \<^verbatim>\<open>kernel/drivers/graphics/terminal.cpp\<close> with the terminal overloads of \<^verbatim>\<open>printf\<close> in its
  header, \<^verbatim>\<open>printf\<close> and \<^verbatim>\<open>vprintf\<close> of \<^verbatim>\<open>kernel/libs/libc/stdio.cpp\<close>, the logger of
  \<^verbatim>\<open>kernel/sys/logger.cpp\<close> and the panics of \<^verbatim>\<open>kernel/sys/panic.cpp\<close>. The function \<^verbatim>\<open>write\<close> of the
  terminal response belongs to the boot loader: the state keeps the calls made to it, in order. Terminals
  are addresses, 0 is the null pointer. Printing through a format the interpreter leaves undefined is
  \<^const>\<open>None\<close>.
\<close>

unbundle bit_operations_syntax

section \<open>State\<close>

datatype term_write = Text string | Full_refresh

text \<open>\<open>response\<close> is the list of terminals of the loader's response, \<^const>\<open>None\<close> where there is no response, and
  \<open>columns\<close> the field of each terminal.\<close>

record console = vmm +
  response :: "u64 list option"
  columns :: "u64 \<Rightarrow> u64"
  terminals :: "u64 list"
  main_term :: u64
  term_count :: u64
  shown :: "(u64 \<times> term_write) list"

section \<open>Terminals\<close>

text \<open>\<^verbatim>\<open>init\<close> dereferences the response and the first of its terminals.\<close>

definition terminal_init :: "'a console_scheme \<Rightarrow> 'a console_scheme option" where
  "terminal_init s =
     (case response s of Some (t # ts) \<Rightarrow>
        Some (s\<lparr>terminals := t # ts, main_term := t, term_count := of_nat (length (t # ts))\<rparr>)
      | _ \<Rightarrow> None)"

definition print :: "string \<Rightarrow> u64 \<Rightarrow> 'a console_scheme \<Rightarrow> 'a console_scheme" where
  "print str t s =
     (if response s = None \<or> t = 0 then s else s\<lparr>shown := shown s @ [(t, Text str)]\<rparr>)"

text \<open>The two-character array ends at its terminator, so the null character prints the empty string.\<close>

definition printc :: "char \<Rightarrow> u64 \<Rightarrow> 'a console_scheme \<Rightarrow> 'a console_scheme" where
  "printc c t s = print (if c = CHR 0x00 then [] else [c]) t s"

text \<open>The array \<^verbatim>\<open>temp\<close> is a list; its last element is the character stored last. The division is the signed
  one of \<^verbatim>\<open>int\<close>.\<close>

definition div10 :: "i32 \<Rightarrow> i32" where
  "div10 num = word_of_int (sint num sdiv 10)"

definition digit10 :: "i32 \<Rightarrow> char" where
  "digit10 num = char_of (nat (sint num smod 10 + 48))"

function printi_digits :: "i32 \<Rightarrow> string \<Rightarrow> string" where
  "printi_digits num temp = (if 0 < sint num then printi_digits (div10 num) (temp @ [digit10 num]) else temp)"
  by pat_completeness auto
termination
proof (relation "measure (\<lambda>(num, temp). nat (sint num))", goal_cases)
  case (2 num temp)
  have "sint num < 2 ^ 31" using sint_range_size [of num] by (simp add: word_size)
  then have "sint (div10 num) = sint num div 10"
    unfolding div10_def using 2 by (subst sint_int32) (auto simp: signed_divide_int_def)
  then show ?case using 2 by auto
qed simp

declare printi_digits.simps [simp del]

text \<open>The negation wraps for the least \<^verbatim>\<open>int\<close>, which the test after it is there for. The minus sign goes
  to the default terminal.\<close>

definition printi :: "i32 \<Rightarrow> u64 \<Rightarrow> 'a console_scheme \<Rightarrow> 'a console_scheme" where
  "printi num t s =
     (if num \<noteq> 0 then
        let (num, s) = (if sint num < 0 then (- num, printc CHR ''-'' (main_term s) s) else (num, s));
            (num, temp) = (if sint num \<le> 0 then (- div10 num, ''8'') else (num, []));
            temp = printi_digits num temp
        in fold (\<lambda>c. printc c t) (rev temp) s
      else printc CHR ''0'' t s)"

definition terminal_reset :: "u64 \<Rightarrow> 'a console_scheme \<Rightarrow> 'a console_scheme" where
  "terminal_reset t s =
     (if response s = None \<or> t = 0 then s else s\<lparr>shown := shown s @ [(t, Full_refresh)]\<rparr>)"

abbreviation ESC :: char where "ESC \<equiv> CHR 0x1B"

definition clear :: "string \<Rightarrow> u64 \<Rightarrow> 'a console_scheme \<Rightarrow> 'a console_scheme" where
  "clear ansii_color t s = print (ESC # ''[H'' @ ESC # ''[2J'') t (print ansii_color t s)"

text \<open>Both loops count to the same difference, which wraps for a text wider than the terminal; everything is
  printed on the default terminal.\<close>

definition center_padding :: "string \<Rightarrow> u64 \<Rightarrow> 'a console_scheme \<Rightarrow> nat" where
  "center_padding txt t s = unat (columns s t div 2 - of_nat (length txt) div 2)"

definition pad_center :: "nat \<Rightarrow> 'a console_scheme \<Rightarrow> 'a console_scheme" where
  "pad_center n s = (printc CHR '' '' (main_term s) ^^ n) s"

definition center :: "string \<Rightarrow> u64 \<Rightarrow> 'a console_scheme \<Rightarrow> 'a console_scheme" where
  "center txt t s =
     (let s = pad_center (center_padding txt t s) s;
          s = print txt (main_term s) s
      in pad_center (center_padding txt t s) s)"

definition putchar :: "char \<Rightarrow> 'a console_scheme \<Rightarrow> 'a console_scheme" where
  "putchar c s = printc c (main_term s) s"

section \<open>Formatted printing\<close>

definition putchar_wrapper :: "char \<Rightarrow> u64 \<Rightarrow> 'a console_scheme \<Rightarrow> 'a console_scheme" where
  "putchar_wrapper c unused s = putchar c s"

text \<open>The value of \<^verbatim>\<open>printf\<close> is not used by any caller here, so only the state is kept.\<close>

definition vprintf :: "string \<Rightarrow> va list \<Rightarrow> 'a console_scheme \<Rightarrow> (i32 \<times> 'a console_scheme) option" where
  "vprintf fmt args s = vsnprintf_impl fmt args (function_gadget putchar_wrapper 0, s)"

definition printf :: "string \<Rightarrow> va list \<Rightarrow> 'a console_scheme \<Rightarrow> 'a console_scheme option" where
  "printf fmt args s = map_option snd (vprintf fmt args s)"

definition term_vprintf ::
  "u64 \<Rightarrow> string \<Rightarrow> va list \<Rightarrow> 'a console_scheme \<Rightarrow> (i32 \<times> 'a console_scheme) option" where
  "term_vprintf t fmt args s = vfctprintf printc t fmt args s"

definition term_printf :: "u64 \<Rightarrow> string \<Rightarrow> va list \<Rightarrow> 'a console_scheme \<Rightarrow> 'a console_scheme option" where
  "term_printf t fmt args s = map_option snd (term_vprintf t fmt args s)"

definition cursor_up :: "i32 \<Rightarrow> u64 \<Rightarrow> 'a console_scheme \<Rightarrow> 'a console_scheme option" where
  "cursor_up lines t s = term_printf t (ESC # ''[dA'') [Word (scast lines)] s"

definition cursor_down :: "i32 \<Rightarrow> u64 \<Rightarrow> 'a console_scheme \<Rightarrow> 'a console_scheme option" where
  "cursor_down lines t s = term_printf t (ESC # ''[%dB'') [Word (scast lines)] s"

definition cursor_right :: "i32 \<Rightarrow> u64 \<Rightarrow> 'a console_scheme \<Rightarrow> 'a console_scheme option" where
  "cursor_right lines t s = term_printf t (ESC # ''[%dC'') [Word (scast lines)] s"

definition cursor_left :: "i32 \<Rightarrow> u64 \<Rightarrow> 'a console_scheme \<Rightarrow> 'a console_scheme option" where
  "cursor_left lines t s = term_printf t (ESC # ''[%dD'') [Word (scast lines)] s"

section \<open>Logging\<close>

datatype log_level = INFO | WARN | ERROR

abbreviation newline :: char where "newline \<equiv> CHR 0x0A"

fun level_str :: "log_level \<Rightarrow> string" where
  "level_str INFO = ESC # ''[1;34m'' @ ''info'' @ ESC # ''[0m''"
| "level_str WARN = ESC # ''[0;33m'' @ ''warn'' @ ESC # ''[0m''"
| "level_str ERROR = ESC # ''[0;31m'' @ ''error'' @ ESC # ''[0m''"

definition vlog :: "log_level \<Rightarrow> string \<Rightarrow> va list \<Rightarrow> 'a console_scheme \<Rightarrow> 'a console_scheme option" where
  "vlog level fmt args s =
     Option.bind (printf ''%s: '' [Str (level_str level)] s) (\<lambda>s.
       Option.bind (map_option snd (vprintf fmt args s)) (printf [newline] []))"

definition log :: "log_level \<Rightarrow> string \<Rightarrow> va list \<Rightarrow> 'a console_scheme \<Rightarrow> 'a console_scheme option" where
  "log level fmt args s = vlog level fmt args s"

definition log_info :: "string \<Rightarrow> va list \<Rightarrow> 'a console_scheme \<Rightarrow> 'a console_scheme option" where
  "log_info fmt args s = vlog INFO fmt args s"

definition log_warn :: "string \<Rightarrow> va list \<Rightarrow> 'a console_scheme \<Rightarrow> 'a console_scheme option" where
  "log_warn fmt args s = vlog WARN fmt args s"

definition log_error :: "string \<Rightarrow> va list \<Rightarrow> 'a console_scheme \<Rightarrow> 'a console_scheme option" where
  "log_error fmt args s = vlog ERROR fmt args s"

section \<open>Panics\<close>

text \<open>The processor halts in \<^const>\<open>Inl\<close>, after the messages. The line is an \<^verbatim>\<open>int\<close> that the format takes as a
  string.\<close>

definition panic_at :: "string \<Rightarrow> i32 \<Rightarrow> string \<Rightarrow> string \<Rightarrow> 'a console_scheme
  \<Rightarrow> (unit, 'a console_scheme) run option" where
  "panic_at file line func message s =
     Option.bind (printf [newline] [] s) (\<lambda>s.
       Option.bind (log_error ''%s'' [Str message] s) (\<lambda>s.
         Option.bind (log_error ''File: %s'' [Str file] s) (\<lambda>s.
           Option.bind (log_error ''Line: %s'' [Word (scast line)] s) (\<lambda>s.
             Option.bind (log_error ''Function: %s'' [Str func] s) (\<lambda>s.
               Option.bind (log_error ''System halted!'' [] s) (\<lambda>s. Some (Inl s)))))))"

definition panic :: "string \<Rightarrow> 'a console_scheme \<Rightarrow> (unit, 'a console_scheme) run option" where
  "panic message s =
     Option.bind (printf [newline] [] s) (\<lambda>s.
       Option.bind (log_error ''%s'' [Str message] s) (\<lambda>s.
         Option.bind (log_error ''System halted!'' [] s) (\<lambda>s. Some (Inl s))))"

definition abort :: "'a console_scheme \<Rightarrow> (unit, 'a console_scheme) run option" where
  "abort s = panic ''abort()'' s"

definition assert_fail :: "string \<Rightarrow> string \<Rightarrow> i32 \<Rightarrow> string \<Rightarrow> 'a console_scheme
  \<Rightarrow> (unit, 'a console_scheme) run option" where
  "assert_fail message file line func s = panic_at file line func message s"

section \<open>The text of a format\<close>

text \<open>\<open>formats s fmt args cs\<close>: the format with these arguments prints the text \<open>cs\<close>, whatever the gadget and the state. The
  argument \<open>s\<close> only gives the type of states.\<close>

definition formats :: "'a machine_scheme \<Rightarrow> string \<Rightarrow> va list \<Rightarrow> string \<Rightarrow> bool" where
  "formats s fmt args cs \<longleftrightarrow> (\<forall>out :: 'a out. format_string_loop fmt args out = Some (emit cs out))"

lemma formats_state: "formats s fmt args cs \<Longrightarrow> formats (s' :: 'a machine_scheme) fmt args cs" for s :: "'a machine_scheme"
  by (simp add: formats_def del: split_paired_All)

named_theorems format_rules

lemma formats_Nil [format_rules]: "formats s [] args []"
  by (simp add: formats_def format_string_loop.simps)

lemma formats_char [format_rules]: "c \<noteq> CHR ''%'' \<Longrightarrow> formats s fmt args cs \<Longrightarrow> formats s (c # fmt) args (c # cs)"
  by (simp add: formats_def format_string_loop.simps [of "c # fmt"] del: split_paired_All)

lemma formats_conversion:
  fixes s :: "'a machine_scheme"
  assumes "\<not> is_digit c" "c \<notin> set ''0-+ #*.lhtjz''" and "\<And>out :: 'a out. print_spec c 0 0 0 (a # args) out = Some (args, emit xs out)"
    and "formats s fmt args cs"
  shows "formats s (CHR ''%'' # c # fmt) (a # args) (xs @ cs)"
  using assms(3,4) parse_conversion_plain(1) [OF assms(1,2), of fmt "a # args"]
  by (simp add: formats_def format_string_loop.simps [of "_ # c # fmt"] emit_append del: split_paired_All)

lemma formats_string [format_rules]:
  "formats s fmt args cs \<Longrightarrow> formats s (CHR ''%'' # CHR ''s'' # fmt) (Str p # args) (p @ cs)"
  by (rule formats_conversion) (simp_all add: is_digit_def print_spec_def print_string_spec_emit has_def)

lemma formats_decimal [format_rules]:
  "formats s fmt args cs \<Longrightarrow> formats s (CHR ''%'' # CHR ''d'' # fmt) (Word v # args) (int_text (sint (ucast v :: i32)) @ cs)"
  by (rule formats_conversion) (simp_all add: is_digit_def print_spec_def print_decimal_spec has_def)

lemma formats_int [format_rules]:
  "formats s fmt args cs \<Longrightarrow> formats s (CHR ''%'' # CHR ''i'' # fmt) (Word v # args) (int_text (sint (ucast v :: i32)) @ cs)"
  by (rule formats_conversion) (simp_all add: is_digit_def print_spec_def print_decimal_spec has_def)

lemma formats_unique: "formats (snd out) fmt args cs \<Longrightarrow> vsnprintf_impl fmt args out =
    (case append_termination_with_gadget (emit cs out) of (gadget, s) \<Rightarrow> Some (pos gadget, s))"
  by (simp add: formats_def vsnprintf_impl_def del: split_paired_All)

section \<open>What the console shows\<close>

text \<open>A text sent to a terminal one character at a time.\<close>

definition chars :: "u64 \<Rightarrow> string \<Rightarrow> (u64 \<times> term_write) list" where
  "chars t cs = map (\<lambda>c. (t, Text (if c = CHR 0x00 then [] else [c]))) cs"

definition say :: "u64 \<Rightarrow> string \<Rightarrow> 'a console_scheme \<Rightarrow> 'a console_scheme" where
  "say t cs s = s\<lparr>shown := shown s @ chars t cs\<rparr>"

definition ready :: "'a console_scheme \<Rightarrow> bool" where
  "ready s \<longleftrightarrow> response s \<noteq> None \<and> main_term s \<noteq> 0"

lemma say_simps [simp]:
  "say t [] s = s" "say t ys (say t xs s) = say t (xs @ ys) s" "ready (say t xs s) \<longleftrightarrow> ready s"
  "main_term (say t xs s) = main_term s" "response (say t xs s) = response s" "columns (say t xs s) = columns s"
  by (simp_all add: say_def chars_def ready_def)

lemma printc_say [simp]: "response s \<noteq> None \<Longrightarrow> t \<noteq> 0 \<Longrightarrow> printc c t s = say t [c] s"
  by (simp add: printc_def print_def say_def chars_def)

lemma fold_printc: "response s \<noteq> None \<Longrightarrow> t \<noteq> 0 \<Longrightarrow> fold (\<lambda>c. printc c t) cs s = say t cs s"
  by (induction cs arbitrary: s) simp_all

lemma fold_putchar: "ready s \<Longrightarrow> fold (\<lambda>c. putchar_wrapper c a) cs s = say (main_term s) cs s"
  by (induction cs arbitrary: s) (simp_all add: putchar_wrapper_def putchar_def ready_def)

lemma emit_function:
  assumes "out_function g = Some f" and "unat (pos g) + length cs \<le> unat (max_chars g)"
  shows "emit cs (g, s) = (g\<lparr>pos := pos g + of_nat (length cs)\<rparr>, fold (\<lambda>c. f c (extra_function_arg g)) cs s)"
  using assms
proof (induction cs arbitrary: g s)
  case (Cons c cs)
  then have lt: "pos g < max_chars g" by (simp add: word_less_nat_alt)
  then have "putchar_via_gadget c (g, s) = (g\<lparr>pos := pos g + 1\<rparr>, f c (extra_function_arg g) s)"
    using Cons.prems(1) by (simp add: putchar_via_gadget_def Let_def)
  then show ?case
    using Cons.IH [of "g\<lparr>pos := pos g + 1\<rparr>"] Cons.prems unat_plus_one [OF lt] by (simp add: add.assoc)
qed simp

lemma function_gadget_text:
  assumes "formats s fmt args cs" and "length cs \<le> 0x7FFFFFFF"
  shows "vsnprintf_impl fmt args (function_gadget f a, s) = Some (of_nat (length cs), fold (\<lambda>c. f c a) cs s)"
  using emit_function [of "function_gadget f a" f cs s] assms
  by (simp add: formats_unique function_gadget_def discarding_gadget_def append_termination_with_gadget_def)

lemma vprintf_say:
  "formats s fmt args cs \<Longrightarrow> length cs \<le> 0x7FFFFFFF \<Longrightarrow> ready s \<Longrightarrow>
    vprintf fmt args s = Some (of_nat (length cs), say (main_term s) cs s)"
  by (simp add: vprintf_def function_gadget_text fold_putchar)

lemma printf_say:
  "formats s fmt args cs \<Longrightarrow> length cs \<le> 0x7FFFFFFF \<Longrightarrow> ready s \<Longrightarrow>
    printf fmt args s = Some (say (main_term s) cs s)"
  by (simp add: printf_def vprintf_say)

lemma term_printf_say:
  "formats s fmt args cs \<Longrightarrow> length cs \<le> 0x7FFFFFFF \<Longrightarrow> response s \<noteq> None \<Longrightarrow> t \<noteq> 0 \<Longrightarrow>
    term_printf t fmt args s = Some (say t cs s)"
  by (simp add: term_printf_def term_vprintf_def vfctprintf_def function_gadget_text fold_printc)

lemma level_str_length: "length (level_str level) \<le> 16"
  by (cases level) simp_all

lemma vlog_say:
  fixes s :: "'a console_scheme"
  assumes "formats s fmt args cs" and "length cs \<le> 0x7FFFFFFF" and "ready s"
  shows "vlog level fmt args s = Some (say (main_term s) (level_str level @ '': '' @ cs @ [newline]) s)"
proof -
  have "formats s' ''%s: '' [Str (level_str level)] (level_str level @ '': '')" "formats s' [newline] [] [newline]" for s' :: "'a console_scheme"
    by (intro format_rules; simp)+
  note f = printf_say [OF this(1)] vprintf_say [OF formats_state [OF assms(1)] assms(2)] printf_say [OF this(2)]
  show ?thesis using assms(3) level_str_length [of level] by (simp add: vlog_def f)
qed

text \<open>C31: Logging writes one line: on a console with a response and a main terminal, every level of
  \<^verbatim>\<open>log\<close> prints its coloured label, a colon, the formatted text and a newline on the main terminal and
  changes nothing else; \<^verbatim>\<open>log_info\<close>, \<^verbatim>\<open>log_warn\<close> and \<^verbatim>\<open>log_error\<close> are \<^verbatim>\<open>log\<close> at their level.\<close>

theorem log_line:
  assumes "formats s fmt args cs" and "length cs \<le> 0x7FFFFFFF" and "ready s"
  shows "log level fmt args s = Some (say (main_term s) (level_str level @ '': '' @ cs @ [newline]) s)
    \<and> log_info fmt args s = log INFO fmt args s \<and> log_warn fmt args s = log WARN fmt args s
    \<and> log_error fmt args s = log ERROR fmt args s"
  using vlog_say [OF assms] by (simp add: log_def log_info_def log_warn_def log_error_def)

text \<open>A console with one terminal of 80 columns at address 1.\<close>

definition console0 :: console where
  "console0 = \<lparr>mem = \<lambda>_. 0, hhdm_offset = 0, mem_usable_top = 0, last_index = 0, bitmap = \<lparr>bm_buffer = 0, bm_size = 0\<rparr>,
     usable_memory = 0, total_memory = 0, used_memory = 0, mem_top = 0, memmaps = [], slabs_addr = 0, gib1_pages = False,
     kernel_pagemap = None, cr3 = 0, invalidated = [], response = Some [1], columns = \<lambda>_. 80, terminals = [1],
     main_term = 1, term_count = 1, shown = []\<rparr>"

lemma console0_simps [simp]:
  "ready console0" "response console0 = Some [1]" "main_term console0 = 1" "columns console0 t = 80" "shown console0 = []"
  by (simp_all add: console0_def ready_def)

lemma char_digits: "char_of (48 :: nat) = CHR ''0''" "char_of (53 :: nat) = CHR ''5''" "char_of (56 :: nat) = CHR ''8''"
  by code_simp+

theorem log_line_witness:
  "log WARN ''%s %d'' [Str ''x'', Word (- 5)] console0 =
    Some (say 1 (level_str WARN @ '': x -5'' @ [newline]) console0)"
proof -
  have f: "formats console0 ''%s %d'' [Str ''x'', Word (- 5)] (''x'' @ '' '' @ int_text (- 5) @ [])"
  proof (rule formats_string)
    have "sint (ucast (- 5 :: u64) :: i32) = - 5" by simp
    then show "formats console0 '' %d'' [Word (- 5)] ('' '' @ int_text (- 5) @ [])"
      using formats_char [OF _ formats_decimal [OF formats_Nil, where v = "- 5" and args = "[]"], of "CHR '' ''"] by simp
  qed
  moreover have "int_text (- 5) = ''-5''" by (simp add: int_text_def num_text.simps digit_char_def char_digits)
  ultimately show ?thesis using log_line [OF f _ console0_simps(1), of WARN] by simp
qed

section \<open>Integers, centring and cursor movements\<close>

lemma signed_by_ten:
  fixes x :: int
  assumes "0 \<le> x"
  shows "x sdiv 10 = x div 10" "x smod 10 = x mod 10"
proof -
  show "x sdiv 10 = x div 10" using assms by (cases "x = 0") (simp_all add: signed_divide_int_def)
  show "x smod 10 = x mod 10" using assms by (cases "x = 0") (simp_all add: signed_modulo_int_def)
qed

lemma sint_div10:
  assumes "0 \<le> sint num"
  shows "sint (div10 num) = sint num div 10"
proof -
  have "sint num < 2 ^ 31" using sint_range_size [of num] by (simp add: word_size)
  then show ?thesis unfolding div10_def signed_by_ten [OF assms] using assms by (intro sint_int32) auto
qed

lemma digit10_char:
  assumes "0 \<le> sint num"
  shows "digit10 num = digit_char 0 (nat (sint num) mod 10)"
  using assms by (simp add: digit10_def digit_char_def signed_by_ten nat_add_distrib nat_mod_distrib)

lemma printi_digits_text:
  "0 < n \<Longrightarrow> sint num = int n \<Longrightarrow> printi_digits num temp = temp @ rev (num_text 0 10 n)"
proof (induction n arbitrary: num temp rule: less_induct)
  case (less n)
  have d: "sint (div10 num) = int (n div 10)" "digit10 num = digit_char 0 (n mod 10)"
    using less.prems sint_div10 [of num] digit10_char [of num] by (simp_all add: zdiv_int)
  have "printi_digits num temp = printi_digits (div10 num) (temp @ [digit_char 0 (n mod 10)])"
    using less.prems d by (simp add: printi_digits.simps [of num])
  also have "\<dots> = temp @ rev (num_text 0 10 n)"
  proof (cases "n < 10")
    case True
    then show ?thesis using d by (simp add: printi_digits.simps [of "div10 num"] num_text.simps [of _ _ n])
  next
    case False
    then show ?thesis
      using less.IH [of "n div 10" "div10 num"] d less.prems by (simp add: num_text.simps [of _ _ n])
  qed
  finally show ?case .
qed

lemma printi_least: "printi_digits (- div10 2147483648) ''8'' = rev (num_text 0 10 2147483648)"
proof -
  have "sint (2147483648 :: i32) = - 2147483648" by simp
  then have "div10 2147483648 = word_of_int (- 214748364)" unfolding div10_def by (simp only:) (simp add: signed_divide_int_def)
  then have "sint (- div10 2147483648) = int 214748364" by simp
  from printi_digits_text [OF _ this] show ?thesis by (simp add: num_text.simps [of 0 10 "2147483648"] digit_char_def char_digits)
qed

text \<open>\<^verbatim>\<open>printi\<close> prints the decimal notation of every \<^verbatim>\<open>int\<close>, the least one included, digit by
  digit on its terminal, and the ten characters of its array are enough; the minus sign of a
  negative number goes to the main terminal instead.\<close>

theorem printi_decimal:
  assumes "ready s" and "t \<noteq> 0"
  shows "printi num t s = say t (num_text 0 10 (nat \<bar>sint num\<bar>)) (if sint num < 0 then say (main_term s) ''-'' s else s)
    \<and> length (num_text 0 10 (nat \<bar>sint num\<bar>)) \<le> 10"
proof -
  have r: "- (2 ^ 31) \<le> sint num" "sint num < 2 ^ 31" using sint_range_size [of num] by (simp_all add: word_size)
  have s: "response s \<noteq> None" "main_term s \<noteq> 0" using assms(1) by (simp_all add: ready_def)
  note out = fold_printc [OF s(1) assms(2)] fold_printc [of "say (main_term s) ''-'' s" t, unfolded say_simps, OF s(1) assms(2)]
  consider "num = 0" | "0 < sint num" | "sint num < 0" "sint num \<noteq> - (2 ^ 31)" | "sint num = - (2 ^ 31)"
  proof (cases "sint num = 0")
    case True
    then have "num = 0" by (simp add: word_eq_iff_signed [where 'a = int])
    then show ?thesis by (rule that(1))
  qed (use that in linarith)
  then have "printi num t s = say t (num_text 0 10 (nat \<bar>sint num\<bar>)) (if sint num < 0 then say (main_term s) ''-'' s else s)"
  proof cases
    case 1
    then show ?thesis using s assms(2) by (simp add: printi_def num_text.simps digit_char_def char_digits)
  next
    case 2
    then have "num \<noteq> 0" by auto
    then show ?thesis using 2 printi_digits_text [of "nat (sint num)" num "[]"] out by (simp add: printi_def)
  next
    case 3
    then have "sint (- num) = - sint num" using r sint_int32 [of "- sint num"] by simp
    moreover have "num \<noteq> 0" using 3 by auto
    ultimately show ?thesis
      using 3 printi_digits_text [of "nat (- sint num)" "- num" "[]"] out s by (simp add: printi_def)
  next
    case 4
    have "num = word_of_int (sint num)" by simp
    then have num: "num = 2147483648" unfolding 4 by simp
    have m: "- (2147483648 :: i32) = 2147483648" by simp
    have "printi_digits (- div10 (- 2147483648)) ''8'' = rev (num_text 0 10 2147483648)"
      by (subst m) (rule printi_least)
    then show ?thesis using 4 out s by (simp add: printi_def num)
  qed
  moreover have "nat \<bar>sint num\<bar> < 10 ^ 10" using r by auto
  then have "length (num_text 0 10 (nat \<bar>sint num\<bar>)) \<le> 10" by (intro length_num_text) simp_all
  ultimately show ?thesis ..
qed

theorem printi_decimal_witness:
  "printi (- 8) 2 console0 = say 2 ''8'' (say 1 ''-'' console0)"
  using printi_decimal [OF console0_simps(1), of 2 "- 8"] by (simp add: num_text.simps digit_char_def char_digits)

lemma pad_center_say: "ready s \<Longrightarrow> pad_center n s = say (main_term s) (replicate n CHR '' '') s"
proof (induction n)
  case (Suc n)
  then have "pad_center (Suc n) s = printc CHR '' '' (main_term s) (pad_center n s)" by (simp add: pad_center_def)
  then show ?case using Suc by (simp add: ready_def replicate_append_same)
qed (simp add: pad_center_def)

lemma cursor_text:
  "formats s (ESC # ''[dA'') args (ESC # ''[dA'')"
  "c \<noteq> CHR ''%'' \<Longrightarrow> formats s (ESC # ''[%d'' @ [c]) [Word v] (ESC # ''['' @ int_text (sint (ucast v :: i32)) @ [c])"
proof -
  show "formats s (ESC # ''[dA'') args (ESC # ''[dA'')" by (intro formats_char formats_Nil) simp_all
  assume "c \<noteq> CHR ''%''"
  then have "formats s (''%d'' @ [c]) [Word v] (int_text (sint (ucast v :: i32)) @ [c])"
    using formats_decimal [OF formats_char [OF _ formats_Nil, of c], where v = v and args = "[]"] by simp
  then show "formats s (ESC # ''[%d'' @ [c]) [Word v] (ESC # ''['' @ int_text (sint (ucast v :: i32)) @ [c])"
    using formats_char [OF _ formats_char, of ESC "CHR ''[''" s "''%d'' @ [c]"] by simp
qed

lemma ucast_scast32 [simp]: "ucast (scast (k :: i32) :: u64) = k"
  by (rule bit_word_eqI) (simp add: bit_ucast_iff bit_signed_iff)

lemma cursor_say:
  fixes k :: i32
  assumes "response s \<noteq> None" and "t \<noteq> 0" and "c \<noteq> CHR ''%''"
  shows "term_printf t (ESC # ''[%d'' @ [c]) [Word (scast k)] s = Some (say t (ESC # ''['' @ int_text (sint k) @ [c]) s)"
proof -
  have k: "sint (ucast (scast k :: u64) :: i32) = sint k" by simp
  have "nat \<bar>sint k\<bar> < 10 ^ 10" using sint_range_size [of k] by (auto simp: word_size)
  then have "length (num_text 0 10 (nat \<bar>sint k\<bar>)) \<le> 10" by (intro length_num_text) simp_all
  then have "length (ESC # ''['' @ int_text (sint k) @ [c]) \<le> 0x7FFFFFFF" by (auto simp: int_text_def)
  then show ?thesis by (intro term_printf_say cursor_text(2) [where v = "scast k", unfolded k] assms)
qed

text \<open>Centring a text no wider than its terminal puts equally many spaces on both sides, on the main
  terminal, and prints as many characters as the terminal has columns when that number and the length of the text are even
  (at most one more otherwise). Moving the cursor down, right or left prints the control sequence with the count;
  moving it up prints the letters of a conversion instead of the count.\<close>

theorem center_and_cursor:
  assumes "ready s" and "t \<noteq> 0" and "length txt \<le> unat (columns s t)"
  defines "n \<equiv> unat (columns s t) div 2 - length txt div 2"
  shows "center txt t s = say (main_term s) (replicate n CHR '' '')
      (print txt (main_term s) (say (main_term s) (replicate n CHR '' '') s))
    \<and> 2 * n + length txt = unat (columns s t) - unat (columns s t) mod 2 + length txt mod 2
    \<and> cursor_down k t s = Some (say t (ESC # ''['' @ int_text (sint k) @ ''B'') s)
    \<and> cursor_right k t s = Some (say t (ESC # ''['' @ int_text (sint k) @ ''C'') s)
    \<and> cursor_left k t s = Some (say t (ESC # ''['' @ int_text (sint k) @ ''D'') s)
    \<and> cursor_up k t s = Some (say t (ESC # ''[dA'') s)"
proof -
  have s: "response s \<noteq> None" using assms(1) by (simp add: ready_def)
  have "length txt < 2 ^ 64" using assms(3) unat_less64 [of "columns s t"] by linarith
  then have "unat (of_nat (length txt) :: u64) = length txt" by (rule unat_of_nat64)
  then have p: "center_padding txt t s' = n" if "columns s' = columns s" for s' :: "'a console_scheme"
    using assms(3) that unfolding center_padding_def n_def
    by (subst unat_sub) (simp_all add: word_le_nat_alt unat_div div_le_mono)
  let ?s1 = "say (main_term s) (replicate n CHR '' '') s"
  have 1: "ready (print txt (main_term s) ?s1)" "main_term (print txt (main_term s) ?s1) = main_term s"
    "columns (print txt (main_term s) ?s1) = columns s"
    using assms(1) by (auto simp: print_def ready_def)
  have "center txt t s = say (main_term s) (replicate n CHR '' '') (print txt (main_term s) ?s1)"
    unfolding center_def Let_def p [OF refl] pad_center_say [OF assms(1)] say_simps
    using p [OF 1(3)] pad_center_say [OF 1(1)] 1(2) by simp
  moreover have "2 * n + length txt = unat (columns s t) - unat (columns s t) mod 2 + length txt mod 2"
  proof -
    have "length txt div 2 \<le> unat (columns s t) div 2" using assms(3) by (rule div_le_mono)
    then show ?thesis
      using div_mult_mod_eq [of "unat (columns s t)" 2] div_mult_mod_eq [of "length txt" 2] unfolding n_def by linarith
  qed
  moreover have "cursor_down k t s = Some (say t (ESC # ''['' @ int_text (sint k) @ ''B'') s)"
    "cursor_right k t s = Some (say t (ESC # ''['' @ int_text (sint k) @ ''C'') s)"
    "cursor_left k t s = Some (say t (ESC # ''['' @ int_text (sint k) @ ''D'') s)"
    using cursor_say [OF s assms(2), of "CHR ''B''" k] cursor_say [OF s assms(2), of "CHR ''C''" k]
      cursor_say [OF s assms(2), of "CHR ''D''" k]
    by (simp_all add: cursor_down_def cursor_right_def cursor_left_def)
  moreover have "cursor_up k t s = Some (say t (ESC # ''[dA'') s)"
    unfolding cursor_up_def by (rule term_printf_say [OF cursor_text(1) _ s assms(2)]) simp
  ultimately show ?thesis by blast
qed

theorem center_and_cursor_witness:
  "center ''hi'' 1 console0 = say 1 (replicate 39 CHR '' '') (print ''hi'' 1 (say 1 (replicate 39 CHR '' '') console0))"
  using center_and_cursor [OF console0_simps(1), of 1 "''hi''"] by simp

section \<open>Panics\<close>

lemma formats_text: "CHR ''%'' \<notin> set cs \<Longrightarrow> formats s cs args cs"
  by (induction cs) (auto intro: format_rules)

lemma formats_message: "formats s ''%s'' [Str p] p"
  using formats_string [OF formats_Nil] by simp

lemma panic_say:
  assumes "ready s" and "length message \<le> 0x7FFFFFFF"
  shows "panic message s = Some (Inl (say (main_term s) (newline # level_str ERROR @ '': '' @ message @
      newline # level_str ERROR @ '': System halted!'' @ [newline]) s))"
proof -
  have n: "printf [newline] [] s = Some (say (main_term s) [newline] s)"
    using assms(1) by (intro printf_say formats_text) simp_all
  note e = vlog_say [where level = ERROR]
  have m: "log_error ''%s'' [Str message] s' = Some (say (main_term s') (level_str ERROR @ '': '' @ message @ [newline]) s')"
    if "ready s'" for s' using e [OF formats_message assms(2) that] by (simp add: log_error_def)
  have h: "log_error ''System halted!'' [] s' = Some (say (main_term s') (level_str ERROR @ '': System halted!'' @ [newline]) s')"
    if "ready s'" for s' using e [OF formats_text [of "''System halted!''" _ "[]"] _ that] by (simp add: log_error_def)
  show ?thesis using assms(1) n by (simp add: panic_def m h del: level_str.simps)
qed

lemma line_undefined:
  fixes line :: i32 and s :: "'a console_scheme"
  assumes "line \<noteq> 0"
  shows "log_error ''Line: %s'' [Word (scast line)] s = None"
proof -
  have "scast line \<noteq> (0 :: u64)" using assms ucast_scast32 [of line] by (metis unsigned_0)
  then have "format_string_loop ''Line: %s'' [Word (scast line)] out = None"
    for out :: "'a console_scheme output_gadget_t \<times> 'a console_scheme"
    by (simp add: format_string_loop.simps parse_conversion_plain is_digit_def print_spec_def)
  then show ?thesis by (simp add: log_error_def vlog_def vprintf_def vsnprintf_impl_def bind_eq_None_conv)
qed

text \<open>C32: \<^verbatim>\<open>panic\<close> and \<^verbatim>\<open>abort\<close> never return: they log the message and \<^verbatim>\<open>System halted!\<close> as errors on the main
  terminal and halt the processor, with everything else unchanged. A failed assertion cannot do the same:
  it prints its line number, which is never 0, through \<^verbatim>\<open>%s\<close>, and has no defined outcome.\<close>

theorem panic_halts:
  assumes "ready s" and "length message \<le> 0x7FFFFFFF"
  shows "panic message s = Some (Inl (say (main_term s) (newline # level_str ERROR @ '': '' @ message @
      newline # level_str ERROR @ '': System halted!'' @ [newline]) s))
    \<and> abort s = panic ''abort()'' s
    \<and> (line \<noteq> 0 \<longrightarrow> assert_fail message file line func s = None)"
  using panic_say [OF assms]
  by (auto simp: abort_def assert_fail_def panic_at_def bind_eq_None_conv line_undefined simp del: level_str.simps)

theorem panic_halts_witness:
  "\<exists>s. panic ''bad'' console0 = Some (Inl s)
    \<and> assert_fail ''x'' ''f.cpp'' 7 ''f'' console0 = None"
proof -
  have "length ''bad'' \<le> 0x7FFFFFFF" "length ''x'' \<le> 0x7FFFFFFF" by simp_all
  note w = panic_halts [OF console0_simps(1) this(1), where line = 7]
    panic_halts [OF console0_simps(1) this(2), where line = 7 and func = "''f''", of "''f.cpp''"]
  then show ?thesis by auto
qed

end
