(* ===== verification/Ice_Interrupts.thy ===== *)
theory Ice_Interrupts
  imports Ice_Terminal
begin

text \<open>
  Segments, interrupts and the interrupt controller: \<^verbatim>\<open>gdt/gdt.cpp\<close>, \<^verbatim>\<open>idt/idt.cpp\<close>, \<^verbatim>\<open>cpu/pic.cpp\<close> and
  \<^verbatim>\<open>cpu/cpu.cpp\<close> under \<^verbatim>\<open>kernel/arch/x86_64\<close>, with their headers. The hardware is outside the model: the
  state keeps the writes to ports in order, and what a port reads after these writes is a parameter. So are the
  addresses of tables and stubs, and the code of registered handlers.
\<close>

unbundle bit_operations_syntax

section \<open>State\<close>

record gdt_entry_t =
  limit_low :: u16
  base_low :: u16
  base_mid :: u8
  access :: u8
  granularity :: u8
  base_high :: u8

record gdt_descriptor_t =
  gd_segment :: u16
  gd_offset :: u64

record idt_entry_t =
  offset_low :: u16
  selector :: u16
  ist :: u8
  type_attributes :: u8
  offset_middle :: u8
  offset_high :: u32
  id_zero :: u32

record idt_descriptor_t =
  id_limit :: u16
  id_base :: u64

record interrupt_handler_t =
  ih_handler :: u64
  ih_args :: u64
  ih_arg :: bool

record cpu_interrupt_state_t =
  r15 :: u64
  r14 :: u64
  r13 :: u64
  r12 :: u64
  r11 :: u64
  r10 :: u64
  r9 :: u64
  r8 :: u64
  rbp :: u64
  rdi :: u64
  rsi :: u64
  rdx :: u64
  rcx :: u64
  rbx :: u64
  rax :: u64
  int_no :: u64
  error_code :: u64
  rip :: u64
  reg_cs :: u64
  rflags :: u64
  rsp :: u64
  reg_ss :: u64

text \<open>The tables of 256 entries are indexed by \<^verbatim>\<open>uint8_t\<close>; \<open>gdtr\<close> holds the arguments of the last call of the
  assembly routine \<^verbatim>\<open>gdt64_load\<close>, the descriptor and the data and code selectors, \<open>idtr\<close> that of \<^verbatim>\<open>lidt\<close>.\<close>

record cpu = console +
  port_writes :: "(u16 \<times> u8) list"
  interrupts_on :: bool
  gdt :: "gdt_entry_t list"
  gdtr :: "(gdt_descriptor_t \<times> u64 \<times> u64) option"
  idt :: "u8 \<Rightarrow> idt_entry_t"
  idt_descriptor :: idt_descriptor_t
  idtr :: "idt_descriptor_t option"
  interrupt_handlers :: "u8 \<Rightarrow> interrupt_handler_t"
  next_free :: u8

text \<open>What a port reads after a sequence of writes.\<close>

type_synonym device = "(u16 \<times> u8) list \<Rightarrow> u16 \<Rightarrow> u8"

section \<open>Processor\<close>

definition out8 :: "u16 \<Rightarrow> u8 \<Rightarrow> 'a cpu_scheme \<Rightarrow> 'a cpu_scheme" where
  "out8 port v s = s\<lparr>port_writes := port_writes s @ [(port, v)]\<rparr>"

definition in8 :: "device \<Rightarrow> u16 \<Rightarrow> 'a cpu_scheme \<Rightarrow> u8" where
  "in8 dev port s = dev (port_writes s) port"

definition interrupts_enable :: "'a cpu_scheme \<Rightarrow> 'a cpu_scheme" where
  "interrupts_enable s = s\<lparr>interrupts_on := True\<rparr>"

definition interrupts_disable :: "'a cpu_scheme \<Rightarrow> 'a cpu_scheme" where
  "interrupts_disable s = s\<lparr>interrupts_on := False\<rparr>"

text \<open>Both loops of \<^verbatim>\<open>halt\<close> wait for ever; the second keeps interrupts off.\<close>

definition halt :: "bool \<Rightarrow> 'a cpu_scheme \<Rightarrow> ('v, 'a cpu_scheme) run" where
  "halt idt_on s = Inl (if idt_on then s else interrupts_disable s)"

section \<open>Interrupt controller\<close>

definition PIC1_COMMAND :: u16 where "PIC1_COMMAND = 0x20"
definition PIC2_COMMAND :: u16 where "PIC2_COMMAND = 0x20"
definition PIC_EOI :: u8 where "PIC_EOI = 0x20"

definition eoi :: "u64 \<Rightarrow> 'a cpu_scheme \<Rightarrow> 'a cpu_scheme" where
  "eoi n s =
     (let s = (if n \<ge> 40 then out8 PIC2_COMMAND PIC_EOI s else s)
      in out8 PIC1_COMMAND PIC_EOI s)"

text \<open>The port and the line on it; shifting by the width of \<^verbatim>\<open>int\<close> or more is undefined.\<close>

definition pic_line :: "u8 \<Rightarrow> u16 \<times> u8" where
  "pic_line irq = (if irq \<ge> 8 then (0xA1, irq - 8) else (0x21, irq))"

definition pic_mask :: "device \<Rightarrow> u8 \<Rightarrow> 'a cpu_scheme \<Rightarrow> 'a cpu_scheme option" where
  "pic_mask dev irq s =
     (let (port, line) = pic_line irq in
      if line \<ge> 32 then None
      else Some (out8 port (ucast (ucast (in8 dev port s) OR push_bit (unat line) (1 :: i32))) s))"

definition pic_unmask :: "device \<Rightarrow> u8 \<Rightarrow> 'a cpu_scheme \<Rightarrow> 'a cpu_scheme option" where
  "pic_unmask dev irq s =
     (let (port, line) = pic_line irq in
      if line \<ge> 32 then None
      else Some (out8 port (ucast (ucast (in8 dev port s) AND NOT (push_bit (unat line) (1 :: i32)))) s))"

definition pic_disable :: "'a cpu_scheme \<Rightarrow> 'a cpu_scheme" where
  "pic_disable s = out8 0x21 0xFF (out8 0xA1 0xFF s)"

definition remap_pic :: "device \<Rightarrow> 'a cpu_scheme \<Rightarrow> 'a cpu_scheme" where
  "remap_pic dev s =
     (let a1 = in8 dev 0x21 s; a2 = in8 dev 0xA1 s;
          s = out8 0x20 0x11 s; s = out8 0xA0 0x11 s;
          s = out8 0x21 0x20 s; s = out8 0xA1 0x28 s;
          s = out8 0x21 0x04 s; s = out8 0xA1 0x02 s;
          s = out8 0x21 0x01 s; s = out8 0xA1 0x01 s;
          s = out8 0x21 a1 s
      in out8 0xA1 a2 s)"

definition pic_init :: "device \<Rightarrow> 'a cpu_scheme \<Rightarrow> 'a cpu_scheme option" where
  "pic_init dev s = map_option (remap_pic dev) (log_info ''Initializing PIC'' [] s)"

section \<open>Segments\<close>

definition GDT_LONG_MODE_GRANULARITY :: u8 where "GDT_LONG_MODE_GRANULARITY = 0x20"
definition GDT_SEGMENT :: u8 where "GDT_SEGMENT = 0x10"
definition GDT_PRESENT :: u8 where "GDT_PRESENT = 0x80"
definition GDT_USER :: u8 where "GDT_USER = 0x60"
definition GDT_EXECUTABLE :: u8 where "GDT_EXECUTABLE = 0x8"
definition GDT_READ_WRITE :: u8 where "GDT_READ_WRITE = 0x2"

definition create_entry :: "u32 \<Rightarrow> u32 \<Rightarrow> u8 \<Rightarrow> u8 \<Rightarrow> gdt_entry_t" where
  "create_entry base limit gran acc =
     \<lparr>limit_low = ucast (limit AND 0xFFFF), base_low = ucast (base AND 0xFFFF),
      base_mid = ucast (drop_bit 16 base AND 0xFF), access = acc,
      granularity = ucast (drop_bit 16 limit AND 0x0F) OR (gran AND 0xF0),
      base_high = ucast (drop_bit 24 base AND 0xFF)\<rparr>"

definition gdt_entries :: "gdt_entry_t list" where
  "gdt_entries =
     [create_entry 0 0 0 0,
      create_entry 0 0 GDT_LONG_MODE_GRANULARITY (GDT_PRESENT OR GDT_SEGMENT OR GDT_READ_WRITE OR GDT_EXECUTABLE),
      create_entry 0 0 0 (GDT_PRESENT OR GDT_SEGMENT OR GDT_READ_WRITE),
      create_entry 0 0 0 0,
      create_entry 0 0 GDT_LONG_MODE_GRANULARITY (GDT_PRESENT OR GDT_SEGMENT OR GDT_READ_WRITE OR GDT_USER),
      create_entry 0 0 0 (GDT_PRESENT OR GDT_SEGMENT OR GDT_READ_WRITE OR GDT_USER)]"

text \<open>The descriptor names the table of six 8-byte entries at its address.\<close>

definition gdt_descriptor :: "u64 \<Rightarrow> gdt_descriptor_t" where
  "gdt_descriptor gdt_addr = \<lparr>gd_segment = 6 * 8 - 1, gd_offset = gdt_addr\<rparr>"

definition gdt_load :: "gdt_descriptor_t \<Rightarrow> 'a cpu_scheme \<Rightarrow> 'a cpu_scheme" where
  "gdt_load d s = s\<lparr>gdtr := Some (d, 2 * 8, 1 * 8)\<rparr>"

definition gdt_init :: "u64 \<Rightarrow> 'a cpu_scheme \<Rightarrow> 'a cpu_scheme option" where
  "gdt_init gdt_addr s =
     map_option (\<lambda>s. gdt_load (gdt_descriptor gdt_addr) (s\<lparr>gdt := gdt_entries\<rparr>))
       (log_info ''Initializing GDT'' [] s)"

section \<open>Interrupts\<close>

definition idt_set_descriptor :: "u8 \<Rightarrow> u64 \<Rightarrow> u8 \<Rightarrow> u8 \<Rightarrow> 'a cpu_scheme \<Rightarrow> 'a cpu_scheme" where
  "idt_set_descriptor vector isr attrs stack s =
     s\<lparr>idt := (idt s)(vector :=
       \<lparr>offset_low = ucast isr, selector = 0x08, ist = stack, type_attributes = attrs,
        offset_middle = ucast (drop_bit 16 isr), offset_high = ucast (drop_bit 32 isr), id_zero = 0\<rparr>)\<rparr>"

text \<open>\<^verbatim>\<open>lidt\<close> between \<^verbatim>\<open>cli\<close> and \<^verbatim>\<open>sti\<close>.\<close>

definition idt_reload :: "'a cpu_scheme \<Rightarrow> 'a cpu_scheme" where
  "idt_reload s = interrupts_enable ((interrupts_disable s)\<lparr>idtr := Some (idt_descriptor s)\<rparr>)"

text \<open>\<^verbatim>\<open>sizeof(idt_entry_t)\<close> of the packed structure.\<close>

definition sizeof_idt_entry :: nat where
  "sizeof_idt_entry = 2 + 2 + 1 + 1 + 1 + 4 + 4"

text \<open>The stubs \<^verbatim>\<open>interrupt_table\<close> are assembly; their addresses are a parameter.\<close>

definition idt_init ::
  "device \<Rightarrow> u64 \<Rightarrow> (nat \<Rightarrow> u64) \<Rightarrow> 'a cpu_scheme \<Rightarrow> 'a cpu_scheme option" where
  "idt_init dev idt_addr interrupt_table s =
     Option.bind (log_info ''Initializing IDT'' [] s) (\<lambda>s.
       let s = s\<lparr>idt_descriptor := \<lparr>id_limit = of_nat (sizeof_idt_entry * 256 - 1), id_base = idt_addr\<rparr>\<rparr>;
           s = fold (\<lambda>i. idt_set_descriptor (of_nat i) (interrupt_table i) 0x8E 0) [0..<256] s
       in map_option idt_reload (pic_init dev s))"

definition alloc_vector :: "'a cpu_scheme \<Rightarrow> u8" where
  "alloc_vector s = next_free s"

definition register_interrupt_handler :: "u8 \<Rightarrow> u64 \<Rightarrow> 'a cpu_scheme \<Rightarrow> 'a cpu_scheme" where
  "register_interrupt_handler vector handler s =
     s\<lparr>interrupt_handlers := (interrupt_handlers s)(vector :=
       (interrupt_handlers s vector)\<lparr>ih_handler := handler, ih_arg := False\<rparr>)\<rparr>"

definition register_interrupt_handler_arg :: "u8 \<Rightarrow> u64 \<Rightarrow> u64 \<Rightarrow> 'a cpu_scheme \<Rightarrow> 'a cpu_scheme" where
  "register_interrupt_handler_arg vector handler args s =
     s\<lparr>interrupt_handlers := (interrupt_handlers s)(vector :=
       (interrupt_handlers s vector)\<lparr>ih_handler := handler, ih_arg := True, ih_args := args\<rparr>)\<rparr>"

definition exception_messages :: "string list" where
  "exception_messages =
     [''Division by zero'', ''Debug'', ''Non-maskable interrupt'', ''Breakpoint'', ''Detected overflow'',
      ''Out-of-bounds'', ''Invalid opcode'', ''No coprocessor'', ''Double fault'', ''Coprocessor segment overrun'',
      ''Bad TSS'', ''Segment not present'', ''Stack fault'', ''General protection fault'', ''Page fault'',
      ''Unknown interrupt'', ''Coprocessor fault'', ''Alignment check'', ''Machine check'', ''Reserved'',
      ''Reserved'', ''Reserved'', ''Reserved'', ''Reserved'', ''Reserved'', ''Reserved'', ''Reserved'',
      ''Reserved'', ''Reserved'', ''Reserved'', ''Reserved'', ''Reserved'']"

definition panic_label :: string where
  "panic_label = ''['' @ ESC # ''[31mPANIC'' @ ESC # ''[0m] ''"

definition exception_handler ::
  "cpu_interrupt_state_t \<Rightarrow> 'a cpu_scheme \<Rightarrow> ('v, 'a cpu_scheme) run option" where
  "exception_handler regs s =
     (let name = exception_messages ! unat (int_no regs) in
      Option.bind (log_error ''System exception'' [] s) (\<lambda>s.
      Option.bind (log_error ''Exception: %s'' [Str name] s) (\<lambda>s.
      Option.bind (log_error ''Address: 0x1X'' [Word (rip regs)] s) (\<lambda>s.
      Option.bind (log_error ''Error Code: 0x%1X, 0b%b'' [Word (error_code regs), Word (error_code regs)] s) (\<lambda>s.
      Option.bind (printf (newline # panic_label @ ''System Exception!'' @ [newline]) [] s) (\<lambda>s.
      Option.bind (printf (panic_label @ ''Exception: %s'' @ [newline]) [Str name] s) (\<lambda>s.
      Option.bind (printf (panic_label @ ''Address: 0x%lX'' @ [newline]) [Word (rip regs)] s) (\<lambda>s.
      Option.bind
        (if int_no regs \<in> {8, 10, 11, 12, 13, 14}
         then printf (panic_label @ ''Error code: 0x%lX'' @ [newline]) [Word (error_code regs)] s else Some s) (\<lambda>s.
      Option.bind (printf (panic_label @ ''System halted!'' @ [newline]) [] s) (\<lambda>s.
      Option.bind (log_error (''System halted!'' @ [newline]) [] s) (\<lambda>s.
        Some (halt False s))))))))))))"

text \<open>Calling the code at an address with the saved registers and possibly an argument; a handler changes both the
  registers and the state, and may halt or not return.\<close>

type_synonym 'a code =
  "u64 \<Rightarrow> u64 option \<Rightarrow> cpu_interrupt_state_t \<times> 'a cpu_scheme \<Rightarrow> (cpu_interrupt_state_t, 'a cpu_scheme) run option"

definition irq_handler ::
  "'a code \<Rightarrow> cpu_interrupt_state_t \<Rightarrow> 'a cpu_scheme \<Rightarrow> (cpu_interrupt_state_t, 'a cpu_scheme) run option" where
  "irq_handler call regs s =
     (let h = interrupt_handlers s (ucast (int_no regs));
          called = (if ih_handler h \<noteq> 0
            then (if ih_arg h then call (ih_handler h) (Some (ih_args h)) (regs, s) else call (ih_handler h) None (regs, s))
            else Some (Inr (regs, s)))
      in map_option (\<lambda>r. bind_run r (\<lambda>regs s. Inr (regs, eoi (int_no regs) s))) called)"

definition interrupt_handler ::
  "'a code \<Rightarrow> cpu_interrupt_state_t \<Rightarrow> 'a cpu_scheme \<Rightarrow> (cpu_interrupt_state_t, 'a cpu_scheme) run option" where
  "interrupt_handler call regs s =
     (if int_no regs < 32 then exception_handler regs s
      else if int_no regs \<ge> 32 \<and> int_no regs < 256 then irq_handler call regs s
      else map_option (\<lambda>r. case r of Inl s \<Rightarrow> halt False s | Inr (_, s) \<Rightarrow> Inr (regs, s)) (panic ''Unknown interrupt'' s))"

section \<open>Segment descriptors as the processor reads them\<close>

text \<open>The eight bytes of a packed entry as a number, and the fields of a descriptor in the processor's manual.\<close>

definition gdt_word :: "gdt_entry_t \<Rightarrow> u64" where
  "gdt_word e = ucast (limit_low e) OR push_bit 16 (ucast (base_low e)) OR push_bit 32 (ucast (base_mid e))
     OR push_bit 40 (ucast (access e)) OR push_bit 48 (ucast (granularity e)) OR push_bit 56 (ucast (base_high e))"

definition seg_base :: "u64 \<Rightarrow> u32" where
  "seg_base d = ucast (take_bit 24 (drop_bit 16 d) OR push_bit 24 (drop_bit 56 d))"

definition seg_limit :: "u64 \<Rightarrow> u32" where
  "seg_limit d = ucast (take_bit 16 d OR push_bit 16 (take_bit 4 (drop_bit 48 d)))"

definition seg_access :: "u64 \<Rightarrow> u8" where
  "seg_access d = ucast (drop_bit 40 d)"

definition seg_flags :: "u64 \<Rightarrow> u8" where
  "seg_flags d = ucast (take_bit 4 (drop_bit 52 d))"

definition is_code :: "u64 \<Rightarrow> bool" where
  "is_code d \<longleftrightarrow> bit (seg_access d) 7 \<and> bit (seg_access d) 4 \<and> bit (seg_access d) 3"

lemmas bits_of = bit_or_iff bit_and_iff bit_push_bit_iff bit_drop_bit_eq bit_take_bit_iff bit_ucast_iff bit_mask_iff

lemma masks:
  "(0xFFFF :: u32) = mask 16" "(0xFF :: u32) = mask 8" "(0x0F :: u32) = mask 4" "(0xF0 :: u8) = push_bit 4 (mask 4)"
  by (simp_all add: mask_eq_exp_minus_1)

lemma bit_beyond [simp]:
  "8 \<le> n \<Longrightarrow> \<not> bit (w8 :: u8) n" "16 \<le> n \<Longrightarrow> \<not> bit (w16 :: u16) n" "32 \<le> n \<Longrightarrow> \<not> bit (w32 :: u32) n" "64 \<le> n \<Longrightarrow> \<not> bit (w64 :: u64) n"
  using bit_imp_le_length [of w8 n] bit_imp_le_length [of w16 n] bit_imp_le_length [of w32 n] bit_imp_le_length [of w64 n] by auto

lemma bit8: "bit (w :: u8) n \<Longrightarrow> n < 8"
  using bit_imp_le_length [of w n] by simp

lemma create_entry_bits:
  "bit (limit_low (create_entry base limit gran acc)) n \<longleftrightarrow> n < 16 \<and> bit limit n"
  "bit (base_low (create_entry base limit gran acc)) n \<longleftrightarrow> n < 16 \<and> bit base n"
  "bit (base_mid (create_entry base limit gran acc)) n \<longleftrightarrow> n < 8 \<and> bit base (16 + n)"
  "access (create_entry base limit gran acc) = acc"
  "bit (granularity (create_entry base limit gran acc)) n \<longleftrightarrow> (if n < 4 then bit limit (16 + n) else bit gran n)"
  "bit (base_high (create_entry base limit gran acc)) n \<longleftrightarrow> n < 8 \<and> bit base (24 + n)"
  unfolding create_entry_def masks by (auto simp: bits_of dest: bit8)

lemma gdt_word_bit:
  "bit (gdt_word e) n \<longleftrightarrow>
    (if n < 16 then bit (limit_low e) n else if n < 32 then bit (base_low e) (n - 16)
     else if n < 40 then bit (base_mid e) (n - 32) else if n < 48 then bit (access e) (n - 40)
     else if n < 56 then bit (granularity e) (n - 48) else bit (base_high e) (n - 56))"
proof (cases "n < 64")
  case True
  then show ?thesis unfolding gdt_word_def by (auto simp: bits_of)
qed simp

lemma create_entry_fields:
  "seg_base (gdt_word (create_entry base limit gran acc)) = base"
  "seg_limit (gdt_word (create_entry base limit gran acc)) = take_bit 20 limit"
  "seg_access (gdt_word (create_entry base limit gran acc)) = acc"
  "seg_flags (gdt_word (create_entry base limit gran acc)) = drop_bit 4 gran"
proof -
  let ?d = "gdt_word (create_entry base limit gran acc)"
  note bits = bits_of gdt_word_bit create_entry_bits
  show "seg_base ?d = base" by (rule bit_word_eqI) (auto simp: seg_base_def bits)
  show "seg_limit ?d = take_bit 20 limit" by (rule bit_word_eqI) (auto simp: seg_limit_def bits)
  show "seg_access ?d = acc" by (rule bit_word_eqI) (simp add: seg_access_def bits)
  show "seg_flags ?d = drop_bit 4 gran" by (rule bit_word_eqI) (auto simp: seg_flags_def bits)
qed

lemmas gdt_constants = GDT_LONG_MODE_GRANULARITY_def GDT_SEGMENT_def GDT_PRESENT_def GDT_USER_def GDT_EXECUTABLE_def
  GDT_READ_WRITE_def

text \<open>C37: A segment descriptor reads back: in the eight packed bytes of \<^verbatim>\<open>create_entry\<close> the processor finds the
  base, the low 20 bits of the limit, the access byte and the upper four bits of the granularity it was made from. Of the table
  \<^verbatim>\<open>init\<close> loads, with selectors 0x08 for code and 0x10 for data, the kernel's code segment is a 64-bit code
  segment and the kernel's data segment a writable one of ring 0; the user's code segment is not a code segment.\<close>

theorem gdt_descriptors:
  "(let d = gdt_word (create_entry base limit gran acc) in
     seg_base d = base \<and> seg_limit d = take_bit 20 limit \<and> seg_access d = acc \<and> seg_flags d = drop_bit 4 gran)
   \<and> (let code = gdt_word (gdt_entries ! 1); data = gdt_word (gdt_entries ! 2); user = gdt_word (gdt_entries ! 4) in
     is_code code \<and> bit (seg_flags code) 1 \<and> \<not> is_code data \<and> bit (seg_access data) 7 \<and> bit (seg_access data) 1
     \<and> \<not> bit (seg_access data) 5 \<and> \<not> is_code user \<and> length gdt_entries = 6)
   \<and> (\<exists>d. gdtr (gdt_load d s) = Some (d, 0x10, 0x08))"
  by (simp add: Let_def create_entry_fields gdt_entries_def is_code_def gdt_constants gdt_load_def)

section \<open>Interrupt gates as the processor reads them\<close>

text \<open>The bytes of a packed entry in memory, and the fields of the first gate of a table: a gate has 16 bytes, the
  handler's address in bytes 0, 1 and 6 to 11.\<close>

definition le_bytes :: "nat \<Rightarrow> u64 \<Rightarrow> u8 list" where
  "le_bytes k w = map (\<lambda>i. ucast (drop_bit (8 * i) w)) [0..<k]"

definition idt_entry_bytes :: "idt_entry_t \<Rightarrow> u8 list" where
  "idt_entry_bytes e = le_bytes 2 (ucast (offset_low e)) @ le_bytes 2 (ucast (selector e)) @ [ist e, type_attributes e, offset_middle e]
     @ le_bytes 4 (ucast (offset_high e)) @ le_bytes 4 (ucast (id_zero e))"

definition idt_bytes :: "'a cpu_scheme \<Rightarrow> u8 list" where
  "idt_bytes s = concat (map (\<lambda>i. idt_entry_bytes (idt s (of_nat i))) [0..<256])"

definition number :: "u8 list \<Rightarrow> u64" where
  "number bs = foldr (\<lambda>b w. ucast b OR push_bit 8 w) bs 0"

definition gate_offset :: "u8 list \<Rightarrow> u64" where
  "gate_offset bs = number ([bs ! 0, bs ! 1] @ [bs ! 6, bs ! 7] @ [bs ! 8, bs ! 9, bs ! 10, bs ! 11])"

lemma idt_bytes_first: "\<exists>bs. idt_bytes s = idt_entry_bytes (idt s 0) @ bs"
proof -
  have "[0..<256] = 0 # [1..<256 :: nat]" by (simp add: upt_conv_Cons)
  then show ?thesis unfolding idt_bytes_def by (simp del: upt_Suc)
qed

lemma say_cpu [simp]:
  "idt (say t cs s) = idt s" "idtr (say t cs s) = idtr s" "port_writes (say t cs s) = port_writes s"
  "interrupts_on (say t cs s) = interrupts_on s" "interrupt_handlers (say t cs s) = interrupt_handlers s"
  "idt_descriptor (say t cs s) = idt_descriptor s" "gdt (say t cs s) = gdt s" "gdtr (say t cs s) = gdtr s"
  "next_free (say t cs s) = next_free s" "heap.truncate (say t cs s) = heap.truncate s"
  by (simp_all add: say_def heap.truncate_def)

lemma ready_cpu [simp]:
  "ready (s\<lparr>idt := a\<rparr>) \<longleftrightarrow> ready s" "ready (s\<lparr>idtr := b\<rparr>) \<longleftrightarrow> ready s" "ready (s\<lparr>port_writes := c\<rparr>) \<longleftrightarrow> ready s"
  "ready (s\<lparr>interrupts_on := d\<rparr>) \<longleftrightarrow> ready s" "ready (s\<lparr>idt_descriptor := e\<rparr>) \<longleftrightarrow> ready s" "ready (s\<lparr>gdt := f\<rparr>) \<longleftrightarrow> ready s"
  "ready (s\<lparr>gdtr := g\<rparr>) \<longleftrightarrow> ready s" "ready (s\<lparr>interrupt_handlers := h\<rparr>) \<longleftrightarrow> ready s"
  by (simp_all add: ready_def)

lemma log_info_say:
  "CHR ''%'' \<notin> set cs \<Longrightarrow> length cs \<le> 0x7FFFFFFF \<Longrightarrow> ready s \<Longrightarrow>
    log_info cs [] s = Some (say (main_term s) (level_str INFO @ '': '' @ cs @ [newline]) s)"
  unfolding log_info_def by (intro vlog_say formats_text)

definition gate :: "u64 \<Rightarrow> idt_entry_t" where
  "gate isr = \<lparr>offset_low = ucast isr, selector = 0x08, ist = 0, type_attributes = 0x8E,
     offset_middle = ucast (drop_bit 16 isr), offset_high = ucast (drop_bit 32 isr), id_zero = 0\<rparr>"

lemma fold_set_descriptor:
  "n \<le> 256 \<Longrightarrow> fold (\<lambda>i. idt_set_descriptor (of_nat i) (tbl i) 0x8E 0) [0..<n] s =
    s\<lparr>idt := \<lambda>v. if unat v < n then gate (tbl (unat v)) else idt s v\<rparr>"
proof (induction n)
  case (Suc n)
  have u: "unat (of_nat n :: u8) = n" using Suc.prems by (simp add: unat_of_nat take_bit_nat_eq_self)
  have "(\<lambda>v. if unat v < n then gate (tbl (unat v)) else idt s v)(of_nat n := gate (tbl n)) =
      (\<lambda>v. if unat v < Suc n then gate (tbl (unat v)) else idt s v)"
    using u by (auto simp: fun_eq_iff less_Suc_eq)
  moreover have "idt_set_descriptor (of_nat n) (tbl n) 0x8E 0 s' = s'\<lparr>idt := (idt s')(of_nat n := gate (tbl n))\<rparr>" for s' :: "'a cpu_scheme"
    by (simp add: idt_set_descriptor_def gate_def)
  ultimately show ?case using Suc by simp
qed simp

lemma truncate_updates [simp]:
  "heap.truncate (s\<lparr>idt_descriptor := a\<rparr>) = heap.truncate s" "heap.truncate (s\<lparr>idt := b\<rparr>) = heap.truncate s"
  "heap.truncate (s\<lparr>idtr := c\<rparr>) = heap.truncate s" "heap.truncate (s\<lparr>interrupts_on := d\<rparr>) = heap.truncate s"
  "heap.truncate (s\<lparr>gdt := e\<rparr>) = heap.truncate s" "heap.truncate (s\<lparr>gdtr := f\<rparr>) = heap.truncate s"
  by (simp_all add: heap.truncate_def)

lemma shown_say: "shown (say t cs s) = shown s @ chars t cs"
  by (simp add: say_def)

lemma remap_pic_simps [simp]:
  "idt (remap_pic dev s) = idt s" "idt_descriptor (remap_pic dev s) = idt_descriptor s" "ready (remap_pic dev s) \<longleftrightarrow> ready s"
  "heap.truncate (remap_pic dev s) = heap.truncate s" "gdt (remap_pic dev s) = gdt s" "gdtr (remap_pic dev s) = gdtr s"
  "shown (remap_pic dev s) = shown s" "main_term (remap_pic dev s) = main_term s"
  by (simp_all add: remap_pic_def out8_def Let_def ready_def heap.truncate_def)

lemma idt_init_effect:
  assumes "ready s"
  obtains s' where "idt_init dev idt_addr tbl s = Some s'" "\<forall>v. idt s' v = gate (tbl (unat v))"
    "idtr s' = Some \<lparr>id_limit = 0xEFF, id_base = idt_addr\<rparr>" "interrupts_on s'" "ready s'"
    "heap.truncate s' = heap.truncate s" "gdt s' = gdt s" "gdtr s' = gdtr s" "main_term s' = main_term s"
    "shown s' = shown s @ chars (main_term s) (level_str INFO @ '': Initializing IDT'' @ newline # level_str INFO @ '': Initializing PIC'' @ [newline])"
proof -
  let ?s1 = "say (main_term s) (level_str INFO @ '': Initializing IDT'' @ [newline]) s"
  let ?s2 = "?s1\<lparr>idt_descriptor := \<lparr>id_limit = 0xEFF, id_base = idt_addr\<rparr>, idt := \<lambda>v. gate (tbl (unat v))\<rparr>"
  let ?s3 = "say (main_term s) (level_str INFO @ '': Initializing PIC'' @ [newline]) ?s2"
  have all: "unat (v :: u8) < 256" for v using unsigned_less [of v, where 'a = nat] by simp
  have r: "ready ?s2" "main_term ?s2 = main_term s" using assms by (simp_all add: ready_def)
  have l: "log_info ''Initializing IDT'' [] s = Some ?s1" "log_info ''Initializing PIC'' [] ?s2 = Some ?s3"
    using log_info_say [OF _ _ assms, of "''Initializing IDT''"] log_info_say [OF _ _ r(1), of "''Initializing PIC''"] r(2)
    by (simp_all del: level_str.simps)
  have "idt_init dev idt_addr tbl s = Some (idt_reload (remap_pic dev ?s3))"
    unfolding idt_init_def pic_init_def Let_def l(1) using l(2) all
    by (simp add: fold_set_descriptor sizeof_idt_entry_def del: level_str.simps)
  then show thesis
    by (rule that) (use assms in \<open>simp_all add: idt_reload_def interrupts_enable_def interrupts_disable_def shown_say chars_def del: level_str.simps\<close>)
qed

lemma gate_bytes:
  "idt_entry_bytes (gate isr) = [ucast isr, ucast (drop_bit 8 isr), 0x08, 0, 0, 0x8E, ucast (drop_bit 16 isr),
    ucast (drop_bit 32 isr), ucast (drop_bit 40 isr), ucast (drop_bit 48 isr), ucast (drop_bit 56 isr), 0, 0, 0, 0]"
proof -
  have u: "[0..<2] = [0, 1 :: nat]" "[0..<4] = [0, 1, 2, 3 :: nat]" by (simp_all add: upt_rec)
  have a: "ucast (drop_bit k (ucast (ucast isr :: u16) :: u64)) = (ucast (drop_bit k isr) :: u8)" if "k \<le> 8" for k
    using that by (intro bit_word_eqI) (auto simp: bits_of)
  have b: "ucast (drop_bit k (ucast (ucast (drop_bit 32 isr) :: u32) :: u64)) = (ucast (drop_bit (32 + k) isr) :: u8)"
    if "k \<le> 24" for k
    using that by (intro bit_word_eqI) (auto simp: bits_of add.assoc)
  show ?thesis
    unfolding idt_entry_bytes_def le_bytes_def gate_def u using a [of 0] a [of 8] b [of 0] b [of 8] b [of 16] b [of 24] by simp
qed

lemma bit_number: "r < 8 \<Longrightarrow> 8 * q + r < 64 \<Longrightarrow> bit (number bs) (8 * q + r) \<longleftrightarrow> q < length bs \<and> bit (bs ! q) r"
proof (induction bs arbitrary: q)
  case (Cons b bs)
  have n: "number (b # bs) = ucast b OR push_bit 8 (number bs)" by (simp add: number_def)
  show ?case
  proof (cases q)
    case 0
    then show ?thesis unfolding n using Cons.prems by (simp add: bits_of)
  next
    case (Suc p)
    then have "bit (number (b # bs)) (8 * q + r) = bit (number bs) (8 * p + r)"
      unfolding n using Cons.prems by (simp add: bits_of)
    then show ?thesis using Cons.IH [of p] Cons.prems Suc by simp
  qed
qed (simp add: number_def)

lemma gate_offset_first:
  "gate_offset (idt_entry_bytes (gate isr) @ bs) = take_bit 24 isr OR push_bit 24 (drop_bit 32 isr)"
proof (rule bit_word_eqI)
  fix n assume "n < LENGTH(64)"
  moreover define q r where "q = n div 8" and "r = n mod 8"
  ultimately have n: "n = 8 * q + r" "r < 8" "q < 8" by simp_all
  let ?bs = "[ucast isr, ucast (drop_bit 8 isr), ucast (drop_bit 16 isr), ucast (drop_bit 32 isr), ucast (drop_bit 40 isr),
    ucast (drop_bit 48 isr), ucast (drop_bit 56 isr), 0] :: u8 list"
  have "gate_offset (idt_entry_bytes (gate isr) @ bs) = number ?bs" by (simp add: gate_offset_def gate_bytes)
  then have "bit (gate_offset (idt_entry_bytes (gate isr) @ bs)) n \<longleftrightarrow> bit (?bs ! q) r"
    using bit_number [of r q ?bs] n by simp
  also consider "q = 0" | "q = 1" | "q = 2" | "q = 3" | "q = 4" | "q = 5" | "q = 6" | "q = 7" using n(3) by linarith
  then have "bit (?bs ! q) r \<longleftrightarrow> bit (take_bit 24 isr OR push_bit 24 (drop_bit 32 isr)) n"
    using n(1,2) by cases (simp_all add: bits_of)
  finally show "bit (gate_offset (idt_entry_bytes (gate isr) @ bs)) n \<longleftrightarrow> bit (take_bit 24 isr OR push_bit 24 (drop_bit 32 isr)) n" .
qed

lemma bit_odd:
  assumes "n < 64"
  shows "bit (w :: u64) n \<longleftrightarrow> odd (unat w div 2 ^ n)"
  using bit_unsigned_iff [of w n, where 'a = nat] assms unfolding bit_iff_odd [of "unat w"] by simp

lemma kernel_gate:
  assumes "0xFFFFFFFF80000000 \<le> isr"
  shows "\<not> is_canonical (take_bit 24 isr OR push_bit 24 (drop_bit 32 isr))"
proof -
  let ?w = "take_bit 24 isr OR push_bit 24 (drop_bit 32 isr)"
  have "0xFFFFFFFF80000000 \<le> unat isr" using assms by (simp add: word_le_nat_alt)
  then have "unat isr div 2 ^ 63 = 1" using unat_less64 [of isr] by (intro div_nat_eqI) simp_all
  then have "bit isr 63" by (simp add: bit_odd)
  then have "bit ?w 55" "\<not> bit ?w 63" by (simp_all add: bits_of)
  then have odd: "odd (unat ?w div 2 ^ 55)" and "even (unat ?w div 2 ^ 63)" using bit_odd [of 55 ?w] bit_odd [of 63 ?w] by simp_all
  moreover have "unat ?w div 2 ^ 63 \<le> 1" using unat_less64 [of ?w] by (simp add: div_le_dividend less_Suc_eq_le [symmetric] div_less_iff_less_mult)
  ultimately have "unat ?w div 2 ^ 63 = 0" by (auto simp: le_Suc_eq)
  moreover have "unat ?w div 2 ^ 55 \<noteq> 0" using odd by (metis even_zero)
  ultimately have "2 ^ 55 \<le> unat ?w" "unat ?w < 2 ^ 63" by (simp_all add: div_eq_0_iff)
  then show ?thesis by (simp add: is_canonical_def word_le_nat_alt)
qed

text \<open>C24: The table the kernel hands to \<^verbatim>\<open>lidt\<close> is not the one the processor reads: its entries are one byte short,
  so the first gate has selector 8, present, of interrupt type, but its handler is the address with bits 24 to 31
  left out, which is not even canonical for a handler in the top 2 GiB, where the kernel is linked; and the limit cuts off the
  gates from 240 on. Initialisation ends all the same, with interrupts enabled.\<close>

theorem idt_first_gate:
  assumes "ready s" and "0xFFFFFFFF80000000 \<le> tbl 0"
  shows "\<exists>s' d. idt_init dev idt_addr tbl s = Some s' \<and> interrupts_on s' \<and> idtr s' = Some d \<and> id_base d = idt_addr
    \<and> take 6 (idt_bytes s') = [ucast (tbl 0), ucast (drop_bit 8 (tbl 0)), 0x08, 0, 0, 0x8E]
    \<and> gate_offset (idt_bytes s') = take_bit 24 (tbl 0) OR push_bit 24 (drop_bit 32 (tbl 0))
    \<and> \<not> is_canonical (gate_offset (idt_bytes s')) \<and> length (idt_bytes s') = unat (id_limit d) + 1
    \<and> length (idt_bytes s') = 16 * 240"
proof -
  obtain s' where s': "idt_init dev idt_addr tbl s = Some s'" "\<forall>v. idt s' v = gate (tbl (unat v))"
    "idtr s' = Some \<lparr>id_limit = 0xEFF, id_base = idt_addr\<rparr>" "interrupts_on s'"
    using idt_init_effect [OF assms(1)] by metis
  obtain bs where bs: "idt_bytes s' = idt_entry_bytes (gate (tbl 0)) @ bs"
    using idt_bytes_first [of s'] s'(2) by auto
  have "length (idt_entry_bytes (gate x)) = 15" for x by (simp add: gate_bytes)
  then have "length (idt_bytes s') = 3840" unfolding idt_bytes_def s'(2) [rule_format] by (simp add: length_concat o_def sum_list_const_mult sum_list_triv)
  moreover have "gate_offset (idt_bytes s') = take_bit 24 (tbl 0) OR push_bit 24 (drop_bit 32 (tbl 0))"
    unfolding bs by (rule gate_offset_first)
  moreover have "take 6 (idt_bytes s') = [ucast (tbl 0), ucast (drop_bit 8 (tbl 0)), 0x08, 0, 0, 0x8E]"
    unfolding bs by (simp add: gate_bytes)
  ultimately show ?thesis using s'(1,3,4) kernel_gate [OF assms(2)] by simp
qed

text \<open>A processor with a console, before initialisation.\<close>

definition cpu0 :: cpu where
  "cpu0 = console.extend console0 (cpu.fields [] False [] None (\<lambda>_. gate 0) \<lparr>id_limit = 0, id_base = 0\<rparr> None
     (\<lambda>_. \<lparr>ih_handler = 0, ih_args = 0, ih_arg = False\<rparr>) 48)"

lemma cpu0_simps [simp]: "ready cpu0" "port_writes cpu0 = []" "main_term cpu0 = 1"
  by (simp_all add: cpu0_def console0_def console.defs ready_def cpu.defs)

theorem idt_first_gate_witness:
  "\<exists>s'. idt_init (\<lambda>_ _. 0) 0x1000 (\<lambda>i. 0xFFFFFFFF80200000) cpu0 = Some s'
    \<and> gate_offset (idt_bytes s') = 0x00FFFFFFFF200000"
  using idt_first_gate [OF cpu0_simps(1), of "\<lambda>i. 0xFFFFFFFF80200000" "\<lambda>_ _. 0" "0x1000"] by auto

section \<open>Masking\<close>

text \<open>The mask registers behind the two data ports. A controller that is not being initialised stores a
  write to its data port in its mask register and reads it back there; the other controller is not affected.\<close>

definition masked :: "device \<Rightarrow> 'a cpu_scheme \<Rightarrow> nat \<Rightarrow> bool" where
  "masked dev s irq = bit (in8 dev (if irq < 8 then 0x21 else 0xA1) s) (irq mod 8)"

definition mask_registers :: "device \<Rightarrow> (u16 \<times> u8) list \<Rightarrow> bool" where
  "mask_registers dev ws \<longleftrightarrow> (\<forall>p v. p = 0x21 \<or> p = 0xA1 \<longrightarrow>
     dev (ws @ [(p, v)]) = (dev ws)(p := v))"

lemma byte_mask_bits:
  "k < 8 \<Longrightarrow> n < 8 \<Longrightarrow> bit (ucast (ucast (w :: u8) OR push_bit k (1 :: i32)) :: u8) n \<longleftrightarrow> n = k \<or> bit w n"
  "k < 8 \<Longrightarrow> n < 8 \<Longrightarrow> bit (ucast (ucast (w :: u8) AND NOT (push_bit k (1 :: i32))) :: u8) n \<longleftrightarrow> n \<noteq> k \<and> bit w n"
  by (auto simp: bits_of bit_not_iff bit_exp_iff)

lemma pic_line_16:
  assumes "irq < 16"
  shows "pic_line (of_nat irq) = (if irq < 8 then 0x21 else 0xA1, of_nat (irq mod 8))" "unat (of_nat (irq mod 8) :: u8) = irq mod 8"
proof -
  have u: "unat (of_nat irq :: u8) = irq" using assms by (simp add: unat_of_nat take_bit_nat_eq_self)
  show "unat (of_nat (irq mod 8) :: u8) = irq mod 8" by (simp add: unat_of_nat take_bit_nat_eq_self)
  have "irq mod 8 = irq - 8" if "\<not> irq < 8" using that assms by (simp add: mod_if)
  then show "pic_line (of_nat irq) = (if irq < 8 then 0x21 else 0xA1, of_nat (irq mod 8))"
    unfolding pic_line_def word_le_nat_alt u by (auto simp: of_nat_diff not_less)
qed

text \<open>\<^verbatim>\<open>mask\<close> and \<^verbatim>\<open>unmask\<close> of one of the 16 interrupt lines set and clear exactly the mask of that
  line on a pair of controllers with readable mask registers; all other lines keep theirs.\<close>

theorem pic_masking:
  assumes "mask_registers dev (port_writes s)" and "irq < 16" and "j < 16"
  shows "\<exists>s1 s2. pic_mask dev (of_nat irq) s = Some s1 \<and> pic_unmask dev (of_nat irq) s = Some s2
    \<and> (masked dev s1 j \<longleftrightarrow> j = irq \<or> masked dev s j) \<and> (masked dev s2 j \<longleftrightarrow> j \<noteq> irq \<and> masked dev s j)"
proof -
  let ?p = "\<lambda>i. if i < (8 :: nat) then 0x21 else 0xA1 :: u16"
  let ?v = "\<lambda>f. ucast (f (ucast (in8 dev (?p irq) s)) (push_bit (irq mod 8) (1 :: i32))) :: u8"
  have lt: "\<not> (32 :: u8) \<le> of_nat (irq mod 8)" using pic_line_16(2) [OF assms(2)] by (simp add: word_le_nat_alt)
  have r: "pic_mask dev (of_nat irq) s = Some (out8 (?p irq) (?v (OR)) s)"
    "pic_unmask dev (of_nat irq) s = Some (out8 (?p irq) (?v (\<lambda>x y. x AND NOT y)) s)"
    using lt by (simp_all add: pic_mask_def pic_unmask_def pic_line_16 [OF assms(2)])
  have m: "masked dev (out8 (?p irq) v s) j \<longleftrightarrow> (if ?p irq = ?p j then bit v (j mod 8) else masked dev s j)" for v
    using assms(1) by (auto simp: masked_def in8_def out8_def mask_registers_def)
  have eq: "j = irq \<longleftrightarrow> ?p irq = ?p j \<and> j mod 8 = irq mod 8" using assms(2,3) by (auto simp: mod_if split: if_splits)
  have mj: "masked dev s j \<longleftrightarrow> bit (in8 dev (?p j) s) (j mod 8)" by (simp add: masked_def)
  have b: "bit (?v (OR)) (j mod 8) \<longleftrightarrow> j mod 8 = irq mod 8 \<or> bit (in8 dev (?p irq) s) (j mod 8)"
    "bit (?v (\<lambda>x y. x AND NOT y)) (j mod 8) \<longleftrightarrow> j mod 8 \<noteq> irq mod 8 \<and> bit (in8 dev (?p irq) s) (j mod 8)"
    by (rule byte_mask_bits; simp)+
  have "masked dev (out8 (?p irq) (?v (OR)) s) j \<longleftrightarrow> j = irq \<or> masked dev s j"
    "masked dev (out8 (?p irq) (?v (\<lambda>x y. x AND NOT y)) s) j \<longleftrightarrow> j \<noteq> irq \<and> masked dev s j"
    unfolding m b eq mj by (cases "?p irq = ?p j"; simp)+
  then show ?thesis unfolding r by blast
qed

text \<open>A pair of controllers that keeps the last byte written to each data port.\<close>

definition latches :: device where
  "latches ws p = (case map_of (rev ws) p of None \<Rightarrow> 0 | Some v \<Rightarrow> v)"

theorem pic_masking_witness:
  "\<exists>s1. pic_mask latches 9 cpu0 = Some s1 \<and> masked latches s1 9 \<and> \<not> masked latches s1 1"
proof -
  have "mask_registers latches (port_writes cpu0)"
    by (auto simp: mask_registers_def latches_def fun_eq_iff)
  note w = pic_masking [OF this, of 9 9] pic_masking [OF this, of 9 1]
  moreover have "\<not> masked latches cpu0 1" by (simp add: masked_def in8_def latches_def)
  ultimately show ?thesis by auto
qed

section \<open>Handling interrupts\<close>

text \<open>Printing ends and only adds to what the console shows, whatever the arguments of the conversions.\<close>

lemma emit_some:
  assumes "out_function g = Some f"
  shows "\<exists>xs. snd (emit cs (g, s)) = fold (\<lambda>c. f c (extra_function_arg g)) xs s"
  using assms
proof (induction cs arbitrary: g s)
  case Nil
  show ?case by (rule exI [of _ "[]"]) simp
next
  case (Cons c cs)
  let ?g = "g\<lparr>pos := pos g + 1\<rparr>" and ?s = "if pos g \<ge> max_chars g then s else f c (extra_function_arg g) s"
  have g': "putchar_via_gadget c (g, s) = (?g, ?s)" "out_function ?g = Some f" "extra_function_arg ?g = extra_function_arg g"
    using Cons.prems by (simp_all add: putchar_via_gadget_def Let_def)
  from Cons.IH [OF g'(2), of ?s] obtain xs where xs: "snd (emit cs (?g, ?s)) = fold (\<lambda>c. f c (extra_function_arg g)) xs ?s"
    unfolding g'(3) by blast
  show ?case
  proof (cases "pos g \<ge> max_chars g")
    case True
    then show ?thesis using xs g'(1) by (intro exI [of _ xs]) simp
  next
    case False
    then show ?thesis using xs g'(1) by (intro exI [of _ "c # xs"]) simp
  qed
qed

lemma vprintf_some:
  assumes "formats s fmt args cs" and "ready s"
  shows "\<exists>n xs. vprintf fmt args s = Some (n, say (main_term s) xs s)"
proof -
  obtain g' s' where e: "emit cs (function_gadget putchar_wrapper 0, s) = (g', s')" by (cases "emit cs (function_gadget putchar_wrapper 0, s)")
  have f: "out_function (function_gadget putchar_wrapper 0) = Some putchar_wrapper" by (simp add: function_gadget_def)
  then obtain xs where "s' = say (main_term s) xs s"
    using emit_some [of "function_gadget putchar_wrapper 0" putchar_wrapper cs s] e fold_putchar [OF assms(2)] by auto
  moreover have "out_function g' = Some putchar_wrapper" using emit_gadget [of cs "(function_gadget putchar_wrapper 0, s)"] e f by simp
  ultimately show ?thesis
    using e by (intro exI [of _ "pos g'"] exI [of _ xs])
      (simp add: vprintf_def formats_unique [OF formats_state [OF assms(1)]] append_termination_with_gadget_def)
qed

definition prints :: "('a console_scheme \<Rightarrow> 'a console_scheme option) \<Rightarrow> bool" where
  "prints f \<longleftrightarrow> (\<forall>s. ready s \<longrightarrow> (\<exists>xs. f s = Some (say (main_term s) xs s)))"

named_theorems prints_rules

lemma prints_printf:
  fixes s :: "'a console_scheme"
  assumes "\<exists>cs. formats s fmt args cs"
  shows "prints (printf fmt args :: 'a console_scheme \<Rightarrow> 'a console_scheme option)"
proof -
  from assms obtain cs where "formats s fmt args cs" ..
  from vprintf_some [OF formats_state [OF this]] show ?thesis by (fastforce simp: prints_def printf_def)
qed

lemma prints_bind [prints_rules]: "prints f \<Longrightarrow> prints g \<Longrightarrow> prints (\<lambda>s. Option.bind (f s) g)"
  unfolding prints_def by (metis Option.bind.bind_lunit say_simps(2,3,4))

lemma prints_log_error:
  fixes s :: "'a console_scheme"
  assumes "\<exists>cs. formats s fmt args cs"
  shows "prints (log_error fmt args :: 'a console_scheme \<Rightarrow> 'a console_scheme option)"
proof -
  note assms
  moreover have "formats s ''%s: '' [Str (level_str ERROR)] (level_str ERROR @ '': '')" "formats s [newline] [] [newline]"
    by (intro format_rules; simp)+
  ultimately have "prints (\<lambda>s :: 'a console_scheme. Option.bind (printf ''%s: '' [Str (level_str ERROR)] s) (\<lambda>s. Option.bind (printf fmt args s) (printf [newline] [])))"
    by (intro prints_rules prints_printf) blast+
  then show ?thesis by (simp add: log_error_def [abs_def] vlog_def printf_def)
qed

lemma formats_integer:
  fixes s :: "'a machine_scheme"
  assumes "parse_conversion (CHR ''%'' # fmt) (Word v # args) = Next (flags, w, p, c # fmt', Word v # args)"
    and "c \<in> set ''diuxXob''" and "formats s fmt' args cs"
  shows "\<exists>xs. formats s (CHR ''%'' # fmt) (Word v # args) xs"
proof -
  obtain xs where xs: "\<forall>out :: 'a out. print_integer_spec c flags w p v out = emit xs out"
    using emits_integer_spec [of c flags w p v] unfolding emits_def by blast
  then have "\<forall>out :: 'a out. print_spec c flags w p (Word v # args) out = Some (args, emit xs out)"
    using assms(2) by (auto simp: print_spec_def)
  then have "formats s (CHR ''%'' # fmt) (Word v # args) (xs @ cs)"
    using assms(1,3) by (simp add: formats_def format_string_loop.simps [of "_ # fmt"] emit_append del: split_paired_All)
  then show ?thesis ..
qed

lemma formats_append: "CHR ''%'' \<notin> set xs \<Longrightarrow> \<exists>cs. formats s fmt args cs \<Longrightarrow> \<exists>cs. formats s (xs @ fmt) args cs"
proof (induction xs)
  case (Cons x xs)
  then obtain cs where "formats s (xs @ fmt) args cs" by auto
  from formats_char [OF _ this, of x] show ?case using Cons.prems(1) by auto
qed simp

lemma panic_label_plain [simp]: "CHR ''%'' \<notin> set panic_label"
  by (simp add: panic_label_def)

lemma formats_code:
  "\<exists>cs. formats s ''Error Code: 0x%1X, 0b%b'' [Word v, Word v] cs"
  "\<exists>cs. formats s (panic_label @ ''Address: 0x%lX'' @ [newline]) [Word v] cs"
  "\<exists>cs. formats s (panic_label @ ''Error code: 0x%lX'' @ [newline]) [Word v] cs"
proof -
  have b: "\<exists>cs. formats s ''%b'' [Word v] cs"
    by (rule formats_integer [OF parse_conversion_plain(1) _ formats_Nil]) (simp_all add: is_digit_def)
  then obtain cs where f: "formats s '', 0b%b'' [Word v] cs" using formats_append [of "'', 0b''" s "''%b''"] by auto
  have "parse_conversion ''%1X, 0b%b'' [Word v, Word v] = Next (0, 1, 0, ''X, 0b%b'', [Word v, Word v])"
    by (simp add: parse_conversion_def advance_def parse_width_def parse_precision_def parse_length_def current_def is_digit_def atou.simps)
  from formats_integer [OF this _ f] have "\<exists>cs. formats s ''%1X, 0b%b'' [Word v, Word v] cs" by simp
  then show "\<exists>cs. formats s ''Error Code: 0x%1X, 0b%b'' [Word v, Word v] cs"
    using formats_append [of "''Error Code: 0x''" s "''%1X, 0b%b''"] by simp
  have "formats s [newline] [] [newline]" by (intro format_rules) simp
  then have "\<exists>cs. formats s (''%lX'' @ [newline]) [Word v] cs"
    using formats_integer [OF parse_conversion_plain(2), where c = "CHR ''X''" and fmt' = "[newline]" and v = v and args = "[]"] by (simp add: is_digit_def)
  then show "\<exists>cs. formats s (panic_label @ ''Address: 0x%lX'' @ [newline]) [Word v] cs"
    "\<exists>cs. formats s (panic_label @ ''Error code: 0x%lX'' @ [newline]) [Word v] cs"
    using formats_append [of "panic_label @ ''Address: 0x''" s "''%lX'' @ [newline]" "[Word v]"]
      formats_append [of "panic_label @ ''Error code: 0x''" s "''%lX'' @ [newline]" "[Word v]"] by simp_all
qed

text \<open>What an exception prints after its name.\<close>

definition exception_report :: "cpu_interrupt_state_t \<Rightarrow> 'a cpu_scheme \<Rightarrow> 'a cpu_scheme option" where
  "exception_report regs s =
      Option.bind (log_error ''Address: 0x1X'' [Word (rip regs)] s) (\<lambda>s.
      Option.bind (log_error ''Error Code: 0x%1X, 0b%b'' [Word (error_code regs), Word (error_code regs)] s) (\<lambda>s.
      Option.bind (printf (newline # panic_label @ ''System Exception!'' @ [newline]) [] s) (\<lambda>s.
      Option.bind (printf (panic_label @ ''Exception: %s'' @ [newline]) [Str (exception_messages ! unat (int_no regs))] s) (\<lambda>s.
      Option.bind (printf (panic_label @ ''Address: 0x%lX'' @ [newline]) [Word (rip regs)] s) (\<lambda>s.
      Option.bind
        (if int_no regs \<in> {8, 10, 11, 12, 13, 14}
         then printf (panic_label @ ''Error code: 0x%lX'' @ [newline]) [Word (error_code regs)] s else Some s) (\<lambda>s.
      Option.bind (printf (panic_label @ ''System halted!'' @ [newline]) [] s)
        (log_error (''System halted!'' @ [newline]) [])))))))"

lemma prints_exception: "prints (exception_report regs :: 'a cpu_scheme \<Rightarrow> 'a cpu_scheme option)"
proof -
  have skip: "prints (\<lambda>s. Some s)" unfolding prints_def by (metis say_simps(1))
  have "prints (\<lambda>s :: 'a cpu_scheme. if c then printf fmt args s else Some s)" if "\<exists>cs. formats s fmt args cs" for c fmt args and s :: "'a cpu_scheme"
    using skip prints_printf [OF that] by (cases c) auto
  note cond = this
  let ?n = "exception_messages ! unat (int_no regs)"
  have "formats s (''%s'' @ [newline]) [Str ?n] (?n @ [newline])" for s :: "'a cpu_scheme"
    using formats_string [OF formats_char [OF _ formats_Nil, of newline], where p = ?n and args = "[]"] by simp
  then have s: "\<exists>cs. formats s (panic_label @ ''Exception: %s'' @ [newline]) [Str ?n] cs" for s :: "'a cpu_scheme"
    using formats_append [of "panic_label @ ''Exception: ''" s "''%s'' @ [newline]" "[Str ?n]"] by auto
  have l: "\<exists>cs. formats s (''Address: 0x1X'') [Word (rip regs)] cs" "\<exists>cs. formats s (newline # panic_label @ ''System Exception!'' @ [newline]) [] cs"
    "\<exists>cs. formats s (panic_label @ ''System halted!'' @ [newline]) [] cs" "\<exists>cs. formats s (''System halted!'' @ [newline]) [] cs"
    for s :: "'a cpu_scheme"
    by (rule exI, rule formats_text, simp add: panic_label_def)+
  show ?thesis unfolding exception_report_def [abs_def]
    by (intro prints_bind cond prints_printf prints_log_error l s formats_code)
qed

lemma exception_handler_report:
  "exception_handler regs s = Option.bind (log_error ''System exception'' [] s) (\<lambda>s.
     Option.bind (log_error ''Exception: %s'' [Str (exception_messages ! unat (int_no regs))] s) (\<lambda>s.
       Option.bind (exception_report regs s) (\<lambda>s. Some (halt False s))))"
  by (simp only: exception_handler_def exception_report_def Let_def Option.bind_assoc)

lemma exception_name_length: "n < 32 \<Longrightarrow> length (exception_messages ! n) \<le> 30"
proof -
  assume "n < 32"
  moreover have "length exception_messages = 32" "list_all (\<lambda>m. length m \<le> 30) exception_messages"
    by (simp_all add: exception_messages_def)
  ultimately show ?thesis by (simp add: list_all_length)
qed

lemma exception_outcome:
  fixes s :: "'a cpu_scheme"
  assumes "ready s" and n: "int_no regs < 32"
  shows "\<exists>msg. interrupt_handler call regs s = Some (Inl (interrupts_disable (say (main_term s)
        (level_str ERROR @ '': System exception'' @ newline # level_str ERROR @ '': Exception: ''
          @ exception_messages ! unat (int_no regs) @ newline # msg) s)))"
proof -
  let ?n = "exception_messages ! unat (int_no regs)"
  have "unat (int_no regs) < 32" using n by (simp add: word_less_nat_alt)
  then have len: "length ?n \<le> 30" by (rule exception_name_length)
  let ?t1 = "level_str ERROR @ '': System exception'' @ [newline]" and ?t2 = "level_str ERROR @ '': Exception: '' @ ?n @ [newline]"
  have 1: "log_error ''System exception'' [] s = Some (say (main_term s) ?t1 s)"
    using vlog_say [OF formats_text [of "''System exception''" _ "[]"] _ assms(1), of ERROR] by (simp add: log_error_def del: level_str.simps)
  have "formats s (''Exception: '' @ ''%s'') [Str ?n] (''Exception: '' @ ?n)"
    using formats_message [of s ?n] by (simp add: formats_char)
  from formats_state [OF this]
  have 2: "log_error ''Exception: %s'' [Str ?n] s' = Some (say (main_term s') ?t2 s')" if "ready s'" for s' :: "'a cpu_scheme"
    using vlog_say [OF _ _ that, of "''Exception: %s''" _ "''Exception: '' @ ?n" ERROR] len by (simp add: log_error_def del: level_str.simps)
  let ?s2 = "say (main_term s) (?t1 @ ?t2) s"
  obtain msg where "exception_report regs ?s2 = Some (say (main_term s) msg ?s2)"
    using prints_exception [of regs] assms(1) unfolding prints_def by (metis say_simps(3,4))
  then have "interrupt_handler call regs s = Some (halt False (say (main_term s) (?t1 @ ?t2 @ msg) s))"
    using n 1 2 [of "say (main_term s) ?t1 s"] assms(1)
    by (simp add: interrupt_handler_def exception_handler_report del: level_str.simps)
  then show ?thesis by (intro exI [of _ msg]) (simp add: halt_def del: level_str.simps)
qed

lemma unknown_outcome:
  assumes "ready s" and n: "256 \<le> int_no regs"
  shows "interrupt_handler call regs s = Some (Inl (interrupts_disable (say (main_term s) (newline # level_str ERROR @ '': '' @
      ''Unknown interrupt'' @ newline # level_str ERROR @ '': System halted!'' @ [newline]) s)))"
proof -
  have "\<not> int_no regs < 32" "\<not> int_no regs < 256" using n by (auto simp: word_less_nat_alt word_le_nat_alt)
  moreover have "length ''Unknown interrupt'' \<le> 0x7FFFFFFF" by simp
  note p = panic_say [OF assms(1) this, of]
  ultimately show ?thesis unfolding interrupt_handler_def p by (simp add: halt_def del: level_str.simps)
qed

lemma irq_outcome:
  fixes s :: "'a cpu_scheme"
  assumes "32 \<le> int_no regs \<and> int_no regs < 256"
  defines "h \<equiv> interrupt_handlers s (ucast (int_no regs))"
  shows "interrupt_handler call regs s =
    (case (if ih_handler h = 0 then Some (Inr (regs, s)) else call (ih_handler h) (if ih_arg h then Some (ih_args h) else None) (regs, s)) of
       None \<Rightarrow> None
     | Some (Inl t) \<Rightarrow> Some (Inl t)
     | Some (Inr (regs', s')) \<Rightarrow> Some (Inr (regs', eoi (int_no regs') s')))"
  using assms(1) by (auto simp: interrupt_handler_def irq_handler_def h_def Let_def not_less split: option.split sum.split)

lemma eoi_writes: "port_writes (eoi n s) = port_writes s @ replicate (if 40 \<le> n then 2 else 1) (0x20, 0x20)"
  by (simp add: eoi_def out8_def PIC1_COMMAND_def PIC2_COMMAND_def PIC_EOI_def numeral_2_eq_2)

text \<open>C10: With the main terminal open, every interrupt number has one outcome. An exception halts the processor with interrupts off, after naming itself
  on the console. A number above 255 does so after the two lines of the panic \<^verbatim>\<open>Unknown interrupt\<close>. For the 224 numbers
  between, the handler registered for the number, if any, runs. If it halts or does not return, neither does the
  interrupt; if it returns, or there is none, the interrupt returns after \<^verbatim>\<open>eoi\<close>, which writes the end-of-interrupt
  command to port 0x20, the first controller: once, and for the numbers from 40 on, which belong to the second
  controller, a second time to the same port.\<close>

theorem interrupt_outcome:
  assumes "ready s"
  shows "(int_no regs < 32 \<longrightarrow> (\<exists>msg. interrupt_handler call regs s = Some (Inl (interrupts_disable (say (main_term s)
        (level_str ERROR @ '': System exception'' @ newline # level_str ERROR @ '': Exception: ''
          @ exception_messages ! unat (int_no regs) @ newline # msg) s)))))
    \<and> (256 \<le> int_no regs \<longrightarrow> interrupt_handler call regs s = Some (Inl (interrupts_disable (say (main_term s)
        (newline # level_str ERROR @ '': Unknown interrupt'' @ newline # level_str ERROR @ '': System halted!'' @ [newline]) s))))
    \<and> (32 \<le> int_no regs \<and> int_no regs < 256 \<longrightarrow>
        (let h = interrupt_handlers s (ucast (int_no regs));
             called = (if ih_handler h = 0 then Some (Inr (regs, s))
               else call (ih_handler h) (if ih_arg h then Some (ih_args h) else None) (regs, s))
         in interrupt_handler call regs s =
            (case called of None \<Rightarrow> None | Some (Inl t) \<Rightarrow> Some (Inl t)
             | Some (Inr (regs', s')) \<Rightarrow> Some (Inr (regs', eoi (int_no regs') s')))))
    \<and> port_writes (eoi n s) = port_writes s @ replicate (if 40 \<le> n then 2 else 1) (0x20, 0x20)"
  unfolding Let_def
  using exception_outcome [OF assms, of regs call] unknown_outcome [OF assms, of regs call] irq_outcome [of regs call s] eoi_writes [of n s]
  by (simp del: level_str.simps)

text \<open>An interrupt with a given number, and code that does nothing.\<close>

definition interrupted :: "u64 \<Rightarrow> cpu_interrupt_state_t" where
  "interrupted n = \<lparr>r15 = 0, r14 = 0, r13 = 0, r12 = 0, r11 = 0, r10 = 0, r9 = 0, r8 = 0, rbp = 0, rdi = 0, rsi = 0, rdx = 0,
     rcx = 0, rbx = 0, rax = 0, int_no = n, error_code = 0, rip = 0, reg_cs = 0, rflags = 0, rsp = 0, reg_ss = 0\<rparr>"

theorem interrupt_outcome_witness:
  "(\<exists>msg. interrupt_handler (\<lambda>_ _ x. Some (Inr x)) (interrupted 3) cpu0 = Some (Inl (interrupts_disable (say 1
      (level_str ERROR @ '': System exception'' @ newline # level_str ERROR @ '': Exception: Breakpoint'' @ newline # msg) cpu0))))
    \<and> interrupt_handler (\<lambda>_ _ x. Some (Inr x)) (interrupted 33) cpu0 = Some (Inr (interrupted 33, eoi 33 cpu0))
    \<and> interrupt_handler (\<lambda>_ _ x. Some (Inr x)) (interrupted 256) cpu0 = Some (Inl (interrupts_disable (say 1 (newline # level_str ERROR
        @ '': Unknown interrupt'' @ newline # level_str ERROR @ '': System halted!'' @ [newline]) cpu0)))"
proof -
  note w = interrupt_outcome [OF cpu0_simps(1), of "interrupted 3" "\<lambda>_ _ x. Some (Inr x)"]
    interrupt_outcome [OF cpu0_simps(1), of "interrupted 33" "\<lambda>_ _ x. Some (Inr x)"]
    interrupt_outcome [OF cpu0_simps(1), of "interrupted 256" "\<lambda>_ _ x. Some (Inr x)"]
  have "exception_messages ! 3 = ''Breakpoint''" by (simp add: exception_messages_def)
  then show ?thesis using w by (simp add: interrupted_def Let_def del: level_str.simps)
qed

text \<open>C23: A registered handler is the one that runs: after \<^verbatim>\<open>register_interrupt_handler\<close> for a vector from 32 on, an
  interrupt with that number calls the handler, with its argument if it was registered with one, until it is registered
  again, and other vectors keep theirs; the interrupt halts or does not return exactly if the handler does so. Every interrupt from 32 on is acknowledged at port 0x20 only, twice from 40 on: the
  second controller, at port 0xA0, never gets its acknowledgement.\<close>

theorem registered_handler_runs:
  fixes s :: "'a cpu_scheme" and a :: u64
  assumes "32 \<le> v" and "h \<noteq> 0" and "int_no regs = ucast v"
  defines "s1 \<equiv> register_interrupt_handler v h s" and "s2 \<equiv> register_interrupt_handler_arg v h a s"
  shows "interrupt_handler call regs s1 = (case call h None (regs, s1) of None \<Rightarrow> None | Some (Inl t) \<Rightarrow> Some (Inl t)
        | Some (Inr (regs', s')) \<Rightarrow> Some (Inr (regs', eoi (int_no regs') s')))
    \<and> interrupt_handler call regs s2 = (case call h (Some a) (regs, s2) of None \<Rightarrow> None | Some (Inl t) \<Rightarrow> Some (Inl t)
        | Some (Inr (regs', s')) \<Rightarrow> Some (Inr (regs', eoi (int_no regs') s')))
    \<and> (u \<noteq> v \<longrightarrow> interrupt_handlers s1 u = interrupt_handlers s u \<and> interrupt_handlers s2 u = interrupt_handlers s u)
    \<and> port_writes (eoi n s) = port_writes s @ replicate (if 40 \<le> n then 2 else 1) (0x20, 0x20)"
proof -
  have "unat (ucast v :: u64) = unat v" by simp
  moreover have "32 \<le> unat v" "unat v < 256" using assms(1) unsigned_less [of v, where 'a = nat] by (simp_all add: word_le_nat_alt)
  ultimately have n: "\<not> int_no regs < 32" "int_no regs < 256" unfolding assms(3) by (simp_all add: word_less_nat_alt)
  have "ucast (ucast v :: u64) = v" by (rule bit_word_eqI) (simp add: bit_ucast_iff)
  then have v: "ucast (int_no regs) = v" unfolding assms(3) .
  have "interrupt_handler call regs s1 = (case call h None (regs, s1) of None \<Rightarrow> None | Some (Inl t) \<Rightarrow> Some (Inl t)
        | Some (Inr (regs', s')) \<Rightarrow> Some (Inr (regs', eoi (int_no regs') s')))"
    "interrupt_handler call regs s2 = (case call h (Some a) (regs, s2) of None \<Rightarrow> None | Some (Inl t) \<Rightarrow> Some (Inl t)
        | Some (Inr (regs', s')) \<Rightarrow> Some (Inr (regs', eoi (int_no regs') s')))"
    using n assms(2) unfolding interrupt_handler_def irq_handler_def v
    by (auto simp: not_less [symmetric] s1_def s2_def register_interrupt_handler_def register_interrupt_handler_arg_def Let_def
        split: option.split sum.split)
  moreover have "u \<noteq> v \<longrightarrow> interrupt_handlers s1 u = interrupt_handlers s u \<and> interrupt_handlers s2 u = interrupt_handlers s u"
    by (simp add: s1_def s2_def register_interrupt_handler_def register_interrupt_handler_arg_def)
  moreover have "port_writes (eoi n s) = port_writes s @ replicate (if 40 \<le> n then 2 else 1) (0x20, 0x20)"
    by (rule eoi_writes)
  ultimately show ?thesis by blast
qed

theorem registered_handler_runs_witness:
  "interrupt_handler (\<lambda>h x (regs, s). Some (Inr (regs, out8 0x60 (ucast h) s))) (interrupted 41)
      (register_interrupt_handler 41 7 cpu0) =
    Some (Inr (interrupted 41, eoi 41 (out8 0x60 7 (register_interrupt_handler 41 7 cpu0))))"
  using registered_handler_runs [of 41 7 "interrupted 41" "\<lambda>h x (regs, s). Some (Inr (regs, out8 0x60 (ucast h) s))" cpu0]
  by (simp add: interrupted_def)

end
