(* ===== verification/Ice_Kernel.thy ===== *)
theory Ice_Kernel
  imports Ice_Interrupts Ice_Allocator
begin

text \<open>
  The entry point of the kernel, \<^verbatim>\<open>_start\<close> of \<^verbatim>\<open>kernel/kernel.cpp\<close>, as the composition of the components: console,
  segments, interrupts, physical memory and heap, page tables, the report and the final halt. The responses of the boot loader,
  the addresses of the tables in the image and the processor's \<^verbatim>\<open>cpuid\<close> are parameters.
\<close>

section \<open>The entry point\<close>

definition start_devices ::
  "device \<Rightarrow> u64 \<Rightarrow> u64 \<Rightarrow> u64 \<Rightarrow> (nat \<Rightarrow> u64) \<Rightarrow> 'a cpu_scheme \<Rightarrow> 'a cpu_scheme option" where
  "start_devices dev hhdm gdt_addr idt_addr interrupt_table s =
     Option.bind (terminal_init (s\<lparr>hhdm_offset := hhdm\<rparr>)) (\<lambda>s.
     Option.bind (gdt_init gdt_addr s) (\<lambda>s.
     map_option interrupts_enable (idt_init dev idt_addr interrupt_table s)))"

text \<open>Both initialisations of memory announce themselves first.\<close>

definition start_physical :: "'a cpu_scheme \<Rightarrow> (unit, 'a cpu_scheme) run option" where
  "start_physical s = Option.bind (log_info ''Initializing Physical Memory Manager'' [] s) physical_init"

definition start_paging ::
  "cpuid \<Rightarrow> u64 \<Rightarrow> u64 \<Rightarrow> u64 \<Rightarrow> 'a cpu_scheme \<Rightarrow> (bool, 'a cpu_scheme) run option" where
  "start_paging cpuid file_size physical_base virtual_base s =
     Option.bind (log_info ''Initializing Virtual Memory Manager'' [] s) (paging_init cpuid file_size physical_base virtual_base)"

definition report_memory :: "'a cpu_scheme \<Rightarrow> 'a cpu_scheme option" where
  "report_memory s =
     Option.bind (printf [newline] [] s) (\<lambda>s.
     Option.bind (log_info ''Total Memory: %i'' [Word (total s)] s) (\<lambda>s.
     Option.bind (log_info ''Usable Memory: %i'' [Word (usable s)] s) (\<lambda>s.
     Option.bind (log_info ''Used Memory: %i'' [Word (used s)] s) (\<lambda>s.
       log_info ''Free Memory: %i'' [Word (free_size s)] s))))"

definition kernel_start ::
  "device \<Rightarrow> cpuid \<Rightarrow> u64 \<Rightarrow> u64 \<Rightarrow> u64 \<Rightarrow> (nat \<Rightarrow> u64) \<Rightarrow> u64 \<Rightarrow> u64 \<Rightarrow> u64 \<Rightarrow>
   'a cpu_scheme \<Rightarrow> (unit, 'a cpu_scheme) run option" where
  "kernel_start dev cpuid hhdm gdt_addr idt_addr interrupt_table file_size physical_base virtual_base s =
     Option.bind (start_devices dev hhdm gdt_addr idt_addr interrupt_table s) (\<lambda>s.
     and_then (start_physical s) (\<lambda>s.
     and_then (start_paging cpuid file_size physical_base virtual_base s) (\<lambda>s.
     map_option (halt True) (report_memory s))))"

section \<open>What the initialisation of memory leaves alone\<close>

lemma init_slabs_fixed: "init_slabs i sizes s = Inr (u, s') \<Longrightarrow> fixed_part s' = fixed_part s"
proof (induction sizes arbitrary: i s)
  case (Cons sz sizes)
  then obtain s1 where "slab_init (slab_at s i) sz s = Inr ((), s1)" "init_slabs (Suc i) sizes s1 = Inr (u, s')"
    by (auto simp: bind_run_Inr)
  moreover from this(1) have "fixed_part s1 = fixed_part s"
    by (auto simp: slab_init_def Let_def bind_run_Inr dest!: alloc_fixed)
  ultimately show ?case using Cons.IH by auto
qed simp

lemma physical_init_more:
  assumes "boot_map s" and "physical_init s = Some (Inr (u, s'))"
  shows "heap.more s' = heap.more s"
proof -
  obtain s1 where 1: "init_pages s = Some s1" "pmm.more s1 = pmm.more s" using init_pages_effect [OF assms(1)] by blast
  then have "slab_allocator s1 = Inr (u, s')" using assms(2) by (simp add: physical_init_def)
  then have "heap.more s' = heap.more s1" using init_slabs_fixed by (auto simp: slab_allocator_def fixed_part_iff)
  moreover have "heap.more s1 = heap.more s" using 1(2) by (cases s; cases s1) simp
  ultimately show ?thesis by simp
qed

text \<open>The fields above the heap.\<close>

lemma cpu_fields:
  assumes "heap.more s' = heap.more (s :: 'a cpu_scheme)"
  shows "shown s' = shown s" "main_term s' = main_term s" "response s' = response s" "interrupts_on s' = interrupts_on s"
    "idt s' = idt s" "idtr s' = idtr s" "gdt s' = gdt s" "gdtr s' = gdtr s" "kernel_pagemap s' = kernel_pagemap s"
  using assms by (cases s; cases s'; simp)+

lemma boot_heap_fields:
  assumes "heap.truncate s' = heap.truncate s"
  shows "boot_heap s' = boot_heap s"
proof -
  have "mem_usable_top s' = mem_usable_top s" "last_index s' = last_index s" "memmaps s' = memmaps s" "hhdm_offset s' = hhdm_offset s"
    "slabs_addr s' = slabs_addr s" using assms by (simp_all add: heap.truncate_def)
  then show ?thesis by (simp add: boot_heap_def boot_map_def usable_pages_def)
qed

section \<open>The boot\<close>

abbreviation info_line :: "string \<Rightarrow> string" where
  "info_line cs \<equiv> level_str INFO @ '': '' @ cs @ [newline]"

lemma start_devices_effect:
  assumes r: "response s = Some (t # ts)" "t \<noteq> 0"
  obtains s' where "start_devices dev hhdm gdt_addr idt_addr tbl s = Some s'" "interrupts_on s'" "ready s'" "main_term s' = t"
    "\<forall>v. idt s' v = gate (tbl (unat v))" "idtr s' = Some \<lparr>id_limit = 0xEFF, id_base = idt_addr\<rparr>"
    "gdt s' = gdt_entries" "gdtr s' = Some (gdt_descriptor gdt_addr, 16, 8)"
    "heap.truncate s' = heap.truncate (s\<lparr>hhdm_offset := hhdm\<rparr>)"
    "shown s' = shown s @ chars t (info_line ''Initializing GDT'' @ info_line ''Initializing IDT'' @ info_line ''Initializing PIC'')"
proof -
  let ?s1 = "s\<lparr>hhdm_offset := hhdm, terminals := t # ts, main_term := t, term_count := of_nat (length (t # ts))\<rparr>"
  let ?s2 = "gdt_load (gdt_descriptor gdt_addr) ((say t (info_line ''Initializing GDT'') ?s1)\<lparr>gdt := gdt_entries\<rparr>)"
  have ready1: "ready ?s1" using r by (simp add: ready_def)
  have 1: "terminal_init (s\<lparr>hhdm_offset := hhdm\<rparr>) = Some ?s1" using r by (simp add: terminal_init_def)
  have 2: "gdt_init gdt_addr ?s1 = Some ?s2"
    using log_info_say [OF _ _ ready1, of "''Initializing GDT''"] by (simp add: gdt_init_def del: level_str.simps)
  have "ready ?s2" using ready1 by (simp add: gdt_load_def ready_def)
  then obtain s3 where 3: "idt_init dev idt_addr tbl ?s2 = Some s3" "\<forall>v. idt s3 v = gate (tbl (unat v))"
    "idtr s3 = Some \<lparr>id_limit = 0xEFF, id_base = idt_addr\<rparr>" "interrupts_on s3" "ready s3"
    "heap.truncate s3 = heap.truncate ?s2" "gdt s3 = gdt ?s2" "gdtr s3 = gdtr ?s2" "main_term s3 = main_term ?s2"
    "shown s3 = shown ?s2 @ chars (main_term ?s2) (level_str INFO @ '': Initializing IDT'' @ newline # level_str INFO @ '': Initializing PIC'' @ [newline])"
    by (rule idt_init_effect [where dev = dev and idt_addr = idt_addr and tbl = tbl])
  have "start_devices dev hhdm gdt_addr idt_addr tbl s = Some (interrupts_enable s3)"
    unfolding start_devices_def 1 Option.bind.bind_lunit 2 3(1) by simp
  moreover have "heap.truncate ?s1 = heap.truncate (s\<lparr>hhdm_offset := hhdm\<rparr>)" by (simp add: heap.truncate_def)
  ultimately show ?thesis
    using 3 that [of "interrupts_enable s3"]
    by (simp add: interrupts_enable_def gdt_load_def shown_say ready_def chars_def del: level_str.simps)
qed

lemma and_then_halts:
  assumes "\<And>s r. f s = Some r \<Longrightarrow> halted r" and "and_then x f = Some r"
  shows "halted r"
  using assms by (auto simp: and_then_def split: option.splits sum.splits)

text \<open>C11: The kernel boots to a working heap. With a terminal from the boot loader and a memory map that has room, the entry point
  announces each component in order on that terminal, loads the segment and interrupt tables, enables interrupts, and initialises
  physical memory and the heap without a panic; the heap is then well formed and empty, and what follows is the initialisation
  of paging and the report from that state. The entry point never returns.\<close>

theorem kernel_boots:
  assumes "response s = Some (t # ts)" and "t \<noteq> 0" and "boot_heap (s\<lparr>hhdm_offset := hhdm\<rparr>)"
  shows "(\<exists>s1 s2 M own fl. start_devices dev hhdm gdt_addr idt_addr tbl s = Some s1
      \<and> start_physical s1 = Some (Inr ((), s2)) \<and> heap_inv M own fl s2 \<and> live own fl s2 = {}
      \<and> interrupts_on s2 \<and> idtr s2 = Some \<lparr>id_limit = 0xEFF, id_base = idt_addr\<rparr> \<and> (\<forall>v. idt s2 v = gate (tbl (unat v)))
      \<and> gdt s2 = gdt_entries \<and> gdtr s2 = Some (gdt_descriptor gdt_addr, 16, 8)
      \<and> shown s2 = shown s @ chars t (info_line ''Initializing GDT'' @ info_line ''Initializing IDT'' @ info_line ''Initializing PIC''
          @ info_line ''Initializing Physical Memory Manager'')
      \<and> kernel_start dev cpuid hhdm gdt_addr idt_addr tbl file_size pb vb s =
          and_then (start_paging cpuid file_size pb vb s2) (\<lambda>s. map_option (halt True) (report_memory s)))
    \<and> (\<forall>r. kernel_start dev cpuid hhdm gdt_addr idt_addr tbl file_size pb vb s = Some r \<longrightarrow> halted r)"
proof (intro conjI allI impI)
  from assms(1,2) obtain s1 where 1: "start_devices dev hhdm gdt_addr idt_addr tbl s = Some s1" "interrupts_on s1" "ready s1" "main_term s1 = t"
    "\<forall>v. idt s1 v = gate (tbl (unat v))" "idtr s1 = Some \<lparr>id_limit = 0xEFF, id_base = idt_addr\<rparr>"
    "gdt s1 = gdt_entries" "gdtr s1 = Some (gdt_descriptor gdt_addr, 16, 8)" "heap.truncate s1 = heap.truncate (s\<lparr>hhdm_offset := hhdm\<rparr>)"
    "shown s1 = shown s @ chars t (info_line ''Initializing GDT'' @ info_line ''Initializing IDT'' @ info_line ''Initializing PIC'')"
    by (rule start_devices_effect [where dev = dev and hhdm = hhdm and gdt_addr = gdt_addr and idt_addr = idt_addr and tbl = tbl])
  let ?s = "say t (info_line ''Initializing Physical Memory Manager'') s1"
  have l: "log_info ''Initializing Physical Memory Manager'' [] s1 = Some ?s"
    using log_info_say [OF _ _ 1(3), of "''Initializing Physical Memory Manager''"] 1(4) by (simp del: level_str.simps)
  have boot: "boot_heap ?s" using assms(3) boot_heap_fields [of ?s "s\<lparr>hhdm_offset := hhdm\<rparr>"] 1(9) by simp
  then obtain s2 M own fl where 2: "physical_init ?s = Some (Inr ((), s2))" "heap_inv M own fl s2" "live own fl s2 = {}" by (rule physical_init_ready)
  have "boot_map ?s" using boot by (simp add: boot_heap_def)
  note f = cpu_fields [OF physical_init_more [OF this 2(1)]]
  have p: "start_physical s1 = Some (Inr ((), s2))" unfolding start_physical_def l using 2(1) by simp
  show "\<exists>s1 s2 M own fl. start_devices dev hhdm gdt_addr idt_addr tbl s = Some s1
      \<and> start_physical s1 = Some (Inr ((), s2)) \<and> heap_inv M own fl s2 \<and> live own fl s2 = {}
      \<and> interrupts_on s2 \<and> idtr s2 = Some \<lparr>id_limit = 0xEFF, id_base = idt_addr\<rparr> \<and> (\<forall>v. idt s2 v = gate (tbl (unat v)))
      \<and> gdt s2 = gdt_entries \<and> gdtr s2 = Some (gdt_descriptor gdt_addr, 16, 8)
      \<and> shown s2 = shown s @ chars t (info_line ''Initializing GDT'' @ info_line ''Initializing IDT'' @ info_line ''Initializing PIC''
          @ info_line ''Initializing Physical Memory Manager'')
      \<and> kernel_start dev cpuid hhdm gdt_addr idt_addr tbl file_size pb vb s =
          and_then (start_paging cpuid file_size pb vb s2) (\<lambda>s. map_option (halt True) (report_memory s))"
    using 1 2 p f
    by (intro exI [of _ s1] exI [of _ s2] exI [of _ M] exI [of _ own] exI [of _ fl])
      (simp add: shown_say kernel_start_def and_then_def chars_def del: level_str.simps)
next
  fix r assume "kernel_start dev cpuid hhdm gdt_addr idt_addr tbl file_size pb vb s = Some r"
  then obtain s1 where "and_then (start_physical s1) (\<lambda>s. and_then (start_paging cpuid file_size pb vb s)
      (\<lambda>s. map_option (halt True) (report_memory s))) = Some r" by (auto simp: kernel_start_def bind_eq_Some_conv)
  then show "halted r" by (elim and_then_halts [rotated]) (auto simp: halt_def)
qed

lemma formats_label: "CHR ''%'' \<notin> set label \<Longrightarrow> formats s fmt args cs \<Longrightarrow> formats s (label @ fmt) args (label @ cs)"
  by (induction label) (auto intro: formats_char)

text \<open>The text of a counter printed with \<^verbatim>\<open>%i\<close>.\<close>

definition counter_text :: "u64 \<Rightarrow> string" where
  "counter_text n = int_text (if n < 0x80000000 then int (unat n) else sint (ucast n :: i32))"

lemma counter_text_int: "counter_text n = int_text (sint (ucast n :: i32))"
proof -
  have "sint (ucast n :: i32) = int (unat n)" if "n < 0x80000000"
  proof -
    have "uint n < 2 ^ 31" using that by (simp add: word_less_def)
    moreover have "- (2 ^ 31) \<le> (0 :: int)" by simp
    then have "- (2 ^ 31) \<le> uint n" using uint_ge_0 [of n] by (rule order_trans)
    ultimately have "take_bit 32 (uint n) = uint n" "signed_take_bit 31 (uint n) = uint n"
      by (simp_all add: take_bit_int_eq_self signed_take_bit_int_eq_self)
    then have "sint (ucast n :: i32) = uint n" by (simp add: sint_uint uint_up_ucast unsigned_ucast_eq)
    then show ?thesis by simp
  qed
  then show ?thesis by (simp add: counter_text_def)
qed

lemma counter_text_length: "length (counter_text n) \<le> 12"
proof -
  let ?i = "sint (ucast n :: i32)"
  have "\<bar>?i\<bar> \<le> 2 ^ 31" using sint_ge [of "ucast n :: i32"] sint_lt [of "ucast n :: i32"] by simp
  then have "length (num_text 0 10 (nat \<bar>?i\<bar>)) \<le> 10" by (intro length_num_text) simp_all
  moreover have "length (if ?i < 0 then ''-'' else []) \<le> 1" by simp
  ultimately show ?thesis unfolding counter_text_int int_text_def length_append by linarith
qed

lemma log_counter:
  assumes "CHR ''%'' \<notin> set label" and "length label \<le> 100" and "ready s"
  shows "log_info (label @ ''%i'') [Word n] s = Some (say (main_term s) (info_line (label @ counter_text n)) s)"
proof -
  have "formats s (label @ ''%i'') [Word n] (label @ counter_text n)"
    unfolding counter_text_int using formats_int [OF formats_Nil, of s n "[]"] by (intro formats_label [OF assms(1)]) simp
  from vlog_say [OF this _ assms(3)] show ?thesis
    unfolding log_info_def using assms(2) counter_text_length [of n] by (simp del: level_str.simps)
qed

text \<open>C40: The report at the end of the boot prints four lines, with the decimal notation of each counter as long as it is below two
  gibibytes; a larger counter is read as an \<^verbatim>\<open>int\<close>, so its lower 32 bits are printed as a signed number.\<close>

theorem report_memory_text:
  assumes "ready s"
  shows "report_memory s = Some (say (main_term s)
    (newline # info_line (''Total Memory: '' @ counter_text (total_memory s)) @ info_line (''Usable Memory: '' @ counter_text (usable_memory s))
      @ info_line (''Used Memory: '' @ counter_text (used_memory s)) @ info_line (''Free Memory: '' @ counter_text (usable_memory s - used_memory s))) s)"
proof -
  have nl: "printf [newline] [] s = Some (say (main_term s) [newline] s)"
    using printf_say [OF formats_text [of "[newline]"]] assms by simp
  have c: "total (say t cs s) = total_memory s" "usable (say t cs s) = usable_memory s" "used (say t cs s) = used_memory s"
    "free_size (say t cs s) = usable_memory s - used_memory s" for t cs
    by (simp_all add: say_def total_def usable_def used_def free_size_def)
  have l: "log_info ''Total Memory: %i'' [Word n] x = Some (say (main_term x) (info_line (''Total Memory: '' @ counter_text n)) x)"
    "log_info ''Usable Memory: %i'' [Word n] x = Some (say (main_term x) (info_line (''Usable Memory: '' @ counter_text n)) x)"
    "log_info ''Used Memory: %i'' [Word n] x = Some (say (main_term x) (info_line (''Used Memory: '' @ counter_text n)) x)"
    "log_info ''Free Memory: %i'' [Word n] x = Some (say (main_term x) (info_line (''Free Memory: '' @ counter_text n)) x)"
    if "ready x" for n x
    using log_counter [of "''Total Memory: ''" x] log_counter [of "''Usable Memory: ''" x] log_counter [of "''Used Memory: ''" x]
      log_counter [of "''Free Memory: ''" x] that by (simp_all del: level_str.simps)
  show ?thesis using assms by (simp add: report_memory_def nl l c del: level_str.simps)
qed

theorem kernel_boots_witness:
  "\<exists>s1 s2. start_devices (\<lambda>_ _. 0) (hhdm_offset boot_state) 0x1000 0x2000 (\<lambda>_. 0)
      (heap.extend boot_state (heap.more cpu0)) = Some s1
    \<and> start_physical s1 = Some (Inr ((), s2)) \<and> interrupts_on s2
    \<and> idtr s2 = Some \<lparr>id_limit = 0xEFF, id_base = 0x2000\<rparr>"
proof -
  let ?s = "heap.extend boot_state (heap.more cpu0)"
  have r: "response ?s = Some [1]" by (simp add: heap.extend_def cpu0_def console0_def console.defs cpu.defs)
  have "heap.truncate (?s\<lparr>hhdm_offset := hhdm_offset boot_state\<rparr>) = heap.truncate boot_state"
    by (simp add: heap.extend_def heap.truncate_def)
  then have b: "boot_heap (?s\<lparr>hhdm_offset := hhdm_offset boot_state\<rparr>)" using boot_heap_fields boot_state_ok by blast
  show ?thesis
    using kernel_boots [OF r _ b, THEN conjunct1, of "\<lambda>_ _. 0" "0x1000" "0x2000" "\<lambda>_. 0" "\<lambda>_ _. (0, 0, 0, 0)" 0 0 0, OF one_neq_zero]
    by blast
qed

theorem report_memory_text_witness:
  "report_memory cpu0 = Some (say 1
    (newline # info_line (''Total Memory: '' @ counter_text 0) @ info_line (''Usable Memory: '' @ counter_text 0)
      @ info_line (''Used Memory: '' @ counter_text 0) @ info_line (''Free Memory: '' @ counter_text 0)) cpu0)"
proof -
  have "total_memory cpu0 = 0" "usable_memory cpu0 = 0" "used_memory cpu0 = 0" by (simp_all add: cpu0_def console0_def console.defs cpu.defs)
  then show ?thesis using report_memory_text [OF cpu0_simps(1), of] by (simp del: level_str.simps)
qed

end
